(* ===== verification/Prelude.thy ===== *)
theory Prelude
  imports Main "HOL-Library.Word" "HOL-Library.Multiset"
begin

text \<open>
  The vocabulary the component theories share: Go's bytes and fixed-width integers, the
  big- and little-endian codecs of encoding/binary, run-time panics as values, iteration
  over Go maps (whose order is unspecified, hence a parameter), and generic facts on lists
  and maps.  Word literals of the source are char lists here; a Go string converts to its
  bytes with \<open>str_bytes\<close>.
\<close>

unbundle bit_operations_syntax

type_synonym byte = "8 word"
type_synonym bytes = "8 word list"
type_synonym u32 = "32 word"
type_synonym u64 = "64 word"

named_theorems codec "round trips and lengths of the byte codecs"
named_theorems go_simps "unfolding rules of the panic monad"

section \<open>Run-time panics as values\<close>

datatype panic =
    NilDereference
  | IndexOutOfRange
  | CloseOfClosedChannel
  | SendOnClosedChannel
  | NegativeWaitGroup

text \<open>A computation of the source that may panic returns \<open>Inl p\<close> or its value \<open>Inr v\<close>.\<close>

type_synonym 'a go = "panic + 'a"

definition gbind :: "'a go \<Rightarrow> ('a \<Rightarrow> 'b go) \<Rightarrow> 'b go" where
  "gbind m f = (case m of Inl p \<Rightarrow> Inl p | Inr x \<Rightarrow> f x)"

lemma gbind_simps [simp, go_simps]:
  "gbind (Inl p) f = Inl p"
  "gbind (Inr x) f = f x"
  by (simp_all add: gbind_def)

lemma gbind_Inr_iff [go_simps]: "gbind m f = Inr y \<longleftrightarrow> (\<exists>x. m = Inr x \<and> f x = Inr y)"
  by (cases m) auto

lemma gbind_Inl_iff [go_simps]:
  "gbind m f = Inl p \<longleftrightarrow> m = Inl p \<or> (\<exists>x. m = Inr x \<and> f x = Inl p)"
  by (cases m) auto

lemma gbind_assoc: "gbind (gbind m f) g = gbind m (\<lambda>x. gbind (f x) g)"
  by (cases m) auto

text \<open>Indexing a slice panics outside its bounds; so does slicing \<open>xs[lo:hi]\<close>.\<close>

definition slice_at :: "'a list \<Rightarrow> nat \<Rightarrow> 'a go" where
  "slice_at xs i = (if i < length xs then Inr (xs ! i) else Inl IndexOutOfRange)"

definition slice_set :: "'a list \<Rightarrow> nat \<Rightarrow> 'a \<Rightarrow> 'a list go" where
  "slice_set xs i v = (if i < length xs then Inr (xs[i := v]) else Inl IndexOutOfRange)"

definition slice_range :: "'a list \<Rightarrow> nat \<Rightarrow> nat \<Rightarrow> 'a list go" where
  "slice_range xs lo hi =
     (if lo \<le> hi \<and> hi \<le> length xs then Inr (take (hi - lo) (drop lo xs))
      else Inl IndexOutOfRange)"

lemma slice_at_ok [simp]: "i < length xs \<Longrightarrow> slice_at xs i = Inr (xs ! i)"
  by (simp add: slice_at_def)

lemma slice_range_ok [simp]:
  "lo \<le> hi \<Longrightarrow> hi \<le> length xs \<Longrightarrow> slice_range xs lo hi = Inr (take (hi - lo) (drop lo xs))"
  by (simp add: slice_range_def)

lemma take_three: "take a s @ take b (drop a s) @ take c (drop (a + b) s) = take (a + b + c) s"
  by (simp add: take_add)

lemma sum_list_map_mset:
  "mset xs = mset ys \<Longrightarrow> sum_list (map f xs) = (sum_list (map f ys) :: 'a :: comm_monoid_add)"
  by (simp flip: sum_mset_sum_list)

section \<open>Strings and integers as bytes\<close>

definition str_bytes :: "string \<Rightarrow> bytes" where
  "str_bytes s = map of_char s"

lemma length_str_bytes [simp]: "length (str_bytes s) = length s"
  by (simp add: str_bytes_def)

lemma str_bytes_Nil [simp]: "str_bytes [] = []"
  by (simp add: str_bytes_def)

lemma str_bytes_eq_Nil [simp]: "str_bytes s = [] \<longleftrightarrow> s = []"
  by (simp add: str_bytes_def)

lemma str_bytes_append [simp]: "str_bytes (a @ b) = str_bytes a @ str_bytes b"
  by (simp add: str_bytes_def)

lemma of_char_byte_inj: "inj (of_char :: char \<Rightarrow> byte)"
proof (rule injI)
  fix c d :: char
  assume eq: "(of_char c :: byte) = of_char d"
  have "unat (of_char e :: byte) = (of_char e :: nat)" for e
  proof -
    have "(of_char e :: byte) = of_nat (of_char e)" by (simp only: of_nat_of_char)
    then have "unat (of_char e :: byte) = of_char e mod 256"
      using unat_of_nat [of "of_char e :: nat", where 'a = 8] by simp
    then show ?thesis using nat_of_char_less_256 [of e] by simp
  qed
  with eq have "(of_char c :: nat) = of_char d" by metis
  then show "c = d" by simp
qed

lemma str_bytes_inj [simp]: "str_bytes a = str_bytes b \<longleftrightarrow> a = b"
  by (simp add: str_bytes_def inj_map_eq_map of_char_byte_inj)

text \<open>encoding/binary: \<open>BigEndian.PutUint32\<close> and \<open>BigEndian.Uint32\<close> (which panics on fewer
  than four bytes and ignores what follows the fourth), \<open>LittleEndian.PutUint32\<close>.\<close>

definition be32 :: "u32 \<Rightarrow> bytes" where
  "be32 w = [ucast (drop_bit 24 w), ucast (drop_bit 16 w), ucast (drop_bit 8 w), ucast w]"

fun be32_read :: "bytes \<Rightarrow> u32 go" where
  "be32_read (a # b # c # d # _) =
     Inr (push_bit 24 (ucast a) OR push_bit 16 (ucast b) OR push_bit 8 (ucast c) OR ucast d)"
| "be32_read _ = Inl IndexOutOfRange"

definition le32 :: "u32 \<Rightarrow> bytes" where
  "le32 w = rev (be32 w)"

lemma length_be32 [simp, codec]: "length (be32 w) = 4"
  by (simp add: be32_def)

lemma length_le32 [simp, codec]: "length (le32 w) = 4"
  by (simp add: le32_def)

lemma bit_byte_ge [simp]: "8 \<le> n \<Longrightarrow> \<not> bit (b :: byte) n"
  using bit_imp_le_length [of b n] by auto

lemma be32_read_be32 [codec]: "be32_read (be32 w @ xs) = Inr w"
proof -
  have "bit (push_bit 24 (ucast (ucast (drop_bit 24 w) :: byte)) OR
       push_bit 16 (ucast (ucast (drop_bit 16 w) :: byte)) OR
       push_bit 8 (ucast (ucast (drop_bit 8 w) :: byte)) OR ucast (ucast w :: byte) :: u32) n = bit w n"
    if "n < 32" for n
    using that
    by (cases "n < 8"; cases "n < 16"; cases "n < 24") (auto simp: bit_simps)
  then show ?thesis by (auto simp: be32_def intro!: bit_word_eqI)
qed

lemma be32_read_be32_Nil [simp]: "be32_read (be32 w) = Inr w"
  using be32_read_be32 [of w "[]"] by simp

lemma be32_read_short: "length bs < 4 \<Longrightarrow> be32_read bs = Inl IndexOutOfRange"
  by (cases bs rule: be32_read.cases) auto

lemma be32_inj [simp]: "be32 v = be32 w \<longleftrightarrow> v = w"
  by (metis be32_read_be32_Nil sum.inject(2))

lemma le32_inj [simp]: "le32 v = le32 w \<longleftrightarrow> v = w"
  by (simp add: le32_def)

text \<open>math/big: \<open>SetBytes\<close> reads a big-endian natural number, \<open>Bytes\<close> writes it without
  leading zeros.\<close>

definition big_set_bytes :: "bytes \<Rightarrow> nat" where
  "big_set_bytes bs = foldl (\<lambda>n b. 256 * n + unat b) 0 bs"

fun big_bytes :: "nat \<Rightarrow> bytes" where
  "big_bytes n = (if n = 0 then [] else big_bytes (n div 256) @ [of_nat (n mod 256)])"

declare big_bytes.simps [simp del]

lemma big_set_bytes_snoc [simp]:
  "big_set_bytes (bs @ [b]) = 256 * big_set_bytes bs + unat b"
  by (simp add: big_set_bytes_def)

lemma big_set_bytes_Nil [simp]: "big_set_bytes [] = 0"
  by (simp add: big_set_bytes_def)

lemma big_set_bytes_zeros [simp]: "big_set_bytes (replicate n 0) = 0"
  by (induction n) (simp_all add: big_set_bytes_def)

lemma big_set_bytes_less: "big_set_bytes bs < 256 ^ length bs"
proof (induction bs rule: rev_induct)
  case Nil
  then show ?case by simp
next
  case (snoc b bs)
  have "unat b < 256" using unsigned_less [of b] by simp
  with snoc show ?case by simp
qed

lemma big_set_bytes_big_bytes [simp, codec]: "big_set_bytes (big_bytes n) = n"
proof (induction n rule: big_bytes.induct)
  case (1 n)
  show ?case
  proof (cases "n = 0")
    case True
    then show ?thesis by (simp add: big_bytes.simps)
  next
    case False
    have "unat (of_nat (n mod 256) :: byte) = n mod 256"
      by (simp add: unat_of_nat)
    with 1 False show ?thesis by (subst big_bytes.simps) simp
  qed
qed

lemma length_big_bytes [codec]: "n < 256 ^ k \<Longrightarrow> length (big_bytes n) \<le> k"
proof (induction n arbitrary: k rule: big_bytes.induct)
  case (1 n)
  show ?case
  proof (cases "n = 0")
    case True
    then show ?thesis by (simp add: big_bytes.simps)
  next
    case False
    with "1.prems" obtain j where k: "k = Suc j" by (cases k) auto
    with "1.prems" have "n div 256 < 256 ^ j"
      by (simp add: less_mult_imp_div_less mult.commute)
    with "1.IH" False have "length (big_bytes (n div 256)) \<le> j" by blast
    with False k show ?thesis by (subst big_bytes.simps) simp
  qed
qed

section \<open>Iteration over Go maps and sets\<close>

text \<open>
  A \<open>range\<close> loop visits every entry of a map exactly once, in an order the language leaves
  open.  A step of the model that ranges takes the visited list as an argument; these
  predicates say which lists are possible.
\<close>

definition ranges :: "('k \<rightharpoonup> 'v) \<Rightarrow> ('k \<times> 'v) list \<Rightarrow> bool" where
  "ranges m kvs \<longleftrightarrow> distinct (map fst kvs) \<and> map_of kvs = m"

definition ranges_set :: "'k set \<Rightarrow> 'k list \<Rightarrow> bool" where
  "ranges_set W ws \<longleftrightarrow> distinct ws \<and> set ws = W"

lemma ranges_set_card: "ranges_set W ws \<Longrightarrow> length ws = card W"
  by (auto simp: ranges_set_def distinct_card)

lemma ranges_set_mset: "ranges_set W ws \<Longrightarrow> ranges_set W ws' \<Longrightarrow> mset ws = mset ws'"
  by (metis ranges_set_def set_eq_iff_mset_eq_distinct)

lemma ranges_Some: "ranges m kvs \<Longrightarrow> m k = Some v \<longleftrightarrow> (k, v) \<in> set kvs"
  by (auto simp: ranges_def)

lemma ranges_dom: "ranges m kvs \<Longrightarrow> dom m = fst ` set kvs"
  using dom_map_of_conv_image_fst [of kvs] by (simp add: ranges_def)

lemma ranges_mset:
  assumes "ranges m kvs" and "ranges m kvs'"
  shows "mset kvs = mset kvs'"
proof -
  from assms have "distinct kvs" "distinct kvs'"
    by (auto simp: ranges_def distinct_map)
  moreover have "set kvs = set kvs'"
    using ranges_Some [OF assms(1)] ranges_Some [OF assms(2)] by auto
  ultimately show ?thesis by (simp add: set_eq_iff_mset_eq_distinct)
qed

text \<open>A map with finitely many entries can be visited.\<close>

lemma finite_ranges:
  assumes "finite (dom m)"
  shows "\<exists>kvs. ranges m kvs"
proof -
  obtain ks where ks: "set ks = dom m" "distinct ks" using finite_distinct_list [OF assms] by blast
  let ?kvs = "map (\<lambda>k. (k, the (m k))) ks"
  have "map_of ?kvs x = m x" for x
  proof (cases "x \<in> dom m")
    case True
    then show ?thesis using ks by (auto simp: map_of_map_restrict restrict_map_def)
  next
    case False
    then show ?thesis using ks by (auto simp: map_of_map_restrict restrict_map_def)
  qed
  then show ?thesis using ks(2) by (intro exI [of _ ?kvs]) (auto simp: ranges_def o_def)
qed

section \<open>Channels used as one-shot signals\<close>

text \<open>Closing a channel twice panics; the flag says whether it is closed.\<close>

definition close_chan :: "bool \<Rightarrow> bool go" where
  "close_chan closed = (if closed then Inl CloseOfClosedChannel else Inr True)"

lemma close_chan_simps [simp]:
  "close_chan False = Inr True"
  "close_chan True = Inl CloseOfClosedChannel"
  by (simp_all add: close_chan_def)

section \<open>Wait groups\<close>

text \<open>\<open>sync.WaitGroup\<close>: a counter that may not go below zero; \<open>Wait\<close> returns when it is zero.\<close>

definition wg_add :: "nat \<Rightarrow> nat \<Rightarrow> nat" where
  "wg_add n k = n + k"

definition wg_done :: "nat \<Rightarrow> nat go" where
  "wg_done n = (if n = 0 then Inl NegativeWaitGroup else Inr (n - 1))"

lemma wg_done_simps [simp]:
  "wg_done 0 = Inl NegativeWaitGroup"
  "wg_done (Suc n) = Inr n"
  by (simp_all add: wg_done_def)

section \<open>Runs that end\<close>

text \<open>A run of a terminating step relation can always be continued to a state without a step.\<close>

lemma wf_steps_end:
  assumes "wf {(t, s). step s t}"
  shows "\<exists>t. step\<^sup>*\<^sup>* s t \<and> (\<nexists>u. step t u)"
proof (induction s rule: wf_induct_rule [OF assms])
  case (1 s)
  show ?case
  proof (cases "\<exists>t. step s t")
    case True
    then obtain t where t: "step s t" by blast
    then obtain u where "step\<^sup>*\<^sup>* t u" "\<nexists>v. step u v" using 1 by blast
    with t show ?thesis by (meson converse_rtranclp_into_rtranclp)
  qed blast
qed

section \<open>Lists of goroutines\<close>

text \<open>A network keeps the states of its goroutines in a list; a step replaces one of them.\<close>

lemma sum_list_upd:
  "i < length xs \<Longrightarrow> xs ! i = a \<Longrightarrow> sum_list (map f (xs[i := b])) + f a = sum_list (map f xs) + (f b :: 'b :: comm_monoid_add)"
proof (induction xs arbitrary: i)
  case (Cons x xs)
  show ?case
  proof (cases i)
    case (Suc n)
    with Cons.IH [of n] Cons.prems show ?thesis by (simp add: add.assoc)
  qed (use Cons.prems in \<open>simp add: ac_simps\<close>)
qed simp

lemma in_upd: "x \<in> set (xs[i := y]) \<Longrightarrow> x \<in> set xs \<or> x = y"
  using set_update_subset_insert [of xs i y] by blast

lemma sum_list_replicate_0: "f x = 0 \<Longrightarrow> sum_list (map f (replicate n x)) = (0 :: nat)"
  by (induction n) simp_all

section \<open>Draining a queue\<close>

text \<open>A goroutine that takes one item per step off its queue folds its work over the items.\<close>

lemma drain_queue:
  assumes "\<And>q x xs. pending q = x # xs \<Longrightarrow> pending (st q) = xs \<and> db (st q) = f (db q) x"
  shows "n = length (pending q) \<Longrightarrow> pending ((st ^^ n) q) = [] \<and> db ((st ^^ n) q) = foldl f (db q) (pending q)"
proof (induction n arbitrary: q)
  case 0
  then show ?case by simp
next
  case (Suc n)
  then obtain x xs where q: "pending q = x # xs" by (cases "pending q") auto
  with Suc.IH [of "st q"] Suc.prems assms [OF q] show ?case
    by (simp add: funpow_Suc_right del: funpow.simps)
qed

end
