(* ===== verification/Bolt.thy ===== *)
theory Bolt
  imports Prelude
begin

text \<open>
  The interface of github.com/boltdb/bolt as the code uses it.  The database is code outside the
  repository: its operations are a parameter (\<open>bolt_ops\<close>), a store type \<open>'s\<close> with nested
  buckets addressed by paths of names.  \<open>bolt_doc\<close> collects the documented behaviour the
  theorems rely on; \<open>mem_bolt\<close> is an in-memory store that has it, used by the witnesses.
\<close>

datatype bolt_error = BoltError

text \<open>
  \<open>op_bucket s p\<close>: is there a bucket at path \<open>p\<close> (\<open>tx.Bucket(..) != nil\<close>).
  \<open>op_create w s p\<close>: \<open>CreateBucketIfNotExists\<close> of the last name of \<open>p\<close> in the bucket before it
  (the root for a single name), in a read-write (\<open>w\<close>) or read-only transaction.
  \<open>op_get\<close>, \<open>op_put\<close>: \<open>Get\<close> and \<open>Put\<close> on the bucket at a path.  \<open>op_commit\<close>: the commit at the
  end of \<open>Update\<close>.
\<close>

record 's bolt_ops =
  op_bucket :: "'s \<Rightarrow> bytes list \<Rightarrow> bool"
  op_create :: "bool \<Rightarrow> 's \<Rightarrow> bytes list \<Rightarrow> bolt_error + 's"
  op_get :: "'s \<Rightarrow> bytes list \<Rightarrow> bytes \<Rightarrow> bytes option"
  op_put :: "'s \<Rightarrow> bytes list \<Rightarrow> bytes \<Rightarrow> bytes \<Rightarrow> bolt_error + 's"
  op_commit :: "'s \<Rightarrow> bolt_error + 's"

text \<open>\<open>db.Update(f)\<close>: run \<open>f\<close> on the store; commit if it returns no error, roll back otherwise.\<close>

definition db_update :: "'s bolt_ops \<Rightarrow> ('s \<Rightarrow> 'e + 's) \<Rightarrow> 's \<Rightarrow> ('e + bolt_error) option \<times> 's" where
  "db_update B f s =
     (case f s of
        Inl e \<Rightarrow> (Some (Inl e), s)
      | Inr s' \<Rightarrow> (case op_commit B s' of Inl e \<Rightarrow> (Some (Inr e), s) | Inr s'' \<Rightarrow> (None, s'')))"

section \<open>Documented behaviour\<close>

text \<open>
  A read-only transaction creates no bucket; creation and writing in a read-write one succeed
  for names, keys and values within bolt's limits and leave everything else alone; a commit
  preserves the transaction's view.  \<open>bolt_fits\<close>: a non-empty key of at most 32768 bytes, and a
  value of at most 2^31 - 2.
\<close>

definition bolt_fits :: "bytes \<Rightarrow> bytes \<Rightarrow> bool" where
  "bolt_fits k v \<longleftrightarrow> k \<noteq> [] \<and> length k \<le> 32768 \<and> length v \<le> 2147483646"

definition bolt_create_law :: "'s bolt_ops \<Rightarrow> bool" where
  "bolt_create_law B \<longleftrightarrow>
     (\<forall>s p s'. op_create B True s p = Inr s' \<longrightarrow>
        (\<forall>q. op_bucket B s' q \<longleftrightarrow> q = p \<or> op_bucket B s q) \<and>
        (\<forall>q k. op_bucket B s q \<longrightarrow> op_get B s' q k = op_get B s q k) \<and>
        (\<not> op_bucket B s p \<longrightarrow> (\<forall>k. op_get B s' p k = None)))"

definition bolt_put_law :: "'s bolt_ops \<Rightarrow> bool" where
  "bolt_put_law B \<longleftrightarrow>
     (\<forall>s p k v s'. op_put B s p k v = Inr s' \<longrightarrow>
        (\<forall>q. op_bucket B s' q \<longleftrightarrow> op_bucket B s q) \<and>
        (\<forall>q k'. op_get B s' q k' = (if q = p \<and> k' = k then Some v else op_get B s q k')))"

definition bolt_progress_law :: "'s bolt_ops \<Rightarrow> bool" where
  "bolt_progress_law B \<longleftrightarrow>
     (\<forall>s n. n \<noteq> [] \<longrightarrow> (\<exists>s'. op_create B True s [n] = Inr s')) \<and>
     (\<forall>s p n. op_bucket B s p \<longrightarrow> n \<noteq> [] \<longrightarrow> op_get B s p n = None \<longrightarrow>
        (\<exists>s'. op_create B True s (p @ [n]) = Inr s')) \<and>
     (\<forall>s p k v. op_bucket B s p \<longrightarrow> bolt_fits k v \<longrightarrow> \<not> op_bucket B s (p @ [k]) \<longrightarrow>
        (\<exists>s'. op_put B s p k v = Inr s'))"

definition bolt_doc :: "'s bolt_ops \<Rightarrow> bool" where
  "bolt_doc B \<longleftrightarrow>
     (\<forall>s p. op_create B False s p = Inl BoltError) \<and>
     bolt_create_law B \<and> bolt_put_law B \<and> bolt_progress_law B \<and>
     (\<forall>s s'. op_commit B s = Inr s' \<longrightarrow>
        op_bucket B s' = op_bucket B s \<and> op_get B s' = op_get B s)"

lemma bolt_create_ro [simp]: "bolt_doc B \<Longrightarrow> op_create B False s p = Inl BoltError"
  by (simp add: bolt_doc_def)

lemma bolt_create_rw:
  assumes "bolt_doc B" and "op_create B True s p = Inr s'"
  shows "op_bucket B s' q \<longleftrightarrow> q = p \<or> op_bucket B s q"
    and "op_bucket B s q \<Longrightarrow> op_get B s' q k = op_get B s q k"
    and "\<not> op_bucket B s p \<Longrightarrow> op_get B s' p k = None"
proof -
  from assms(1) have "bolt_create_law B" by (simp add: bolt_doc_def)
  note law = this [unfolded bolt_create_law_def, rule_format, OF assms(2)]
  show "op_bucket B s' q \<longleftrightarrow> q = p \<or> op_bucket B s q" using law by blast
  show "op_bucket B s q \<Longrightarrow> op_get B s' q k = op_get B s q k" using law by blast
  show "\<not> op_bucket B s p \<Longrightarrow> op_get B s' p k = None" using law by blast
qed

lemma bolt_put:
  assumes "bolt_doc B" and "op_put B s p k v = Inr s'"
  shows "op_bucket B s' q \<longleftrightarrow> op_bucket B s q"
    and "op_get B s' q k' = (if q = p \<and> k' = k then Some v else op_get B s q k')"
proof -
  from assms(1) have "bolt_put_law B" by (simp add: bolt_doc_def)
  note law = this [unfolded bolt_put_law_def, rule_format, OF assms(2)]
  show "op_bucket B s' q \<longleftrightarrow> op_bucket B s q" using law by blast
  show "op_get B s' q k' = (if q = p \<and> k' = k then Some v else op_get B s q k')"
    using law by blast
qed

lemma bolt_progress: "bolt_doc B \<Longrightarrow> bolt_progress_law B"
  by (simp add: bolt_doc_def)

lemma bolt_create_root: "bolt_doc B \<Longrightarrow> n \<noteq> [] \<Longrightarrow> \<exists>s'. op_create B True s [n] = Inr s'"
  using bolt_progress [unfolded bolt_progress_law_def] by blast

lemma bolt_create_sub:
  "bolt_doc B \<Longrightarrow> op_bucket B s p \<Longrightarrow> n \<noteq> [] \<Longrightarrow> op_get B s p n = None \<Longrightarrow>
     \<exists>s'. op_create B True s (p @ [n]) = Inr s'"
  using bolt_progress [unfolded bolt_progress_law_def] by blast

lemma bolt_put_ok:
  "bolt_doc B \<Longrightarrow> op_bucket B s p \<Longrightarrow> bolt_fits k v \<Longrightarrow> \<not> op_bucket B s (p @ [k]) \<Longrightarrow>
     \<exists>s'. op_put B s p k v = Inr s'"
  using bolt_progress [unfolded bolt_progress_law_def] by blast

lemma bolt_commit:
  assumes "bolt_doc B" and "op_commit B s = Inr s'"
  shows "op_bucket B s' = op_bucket B s" and "op_get B s' = op_get B s"
  using assms by (auto simp: bolt_doc_def)

text \<open>No I/O failure: every commit succeeds.\<close>

definition bolt_commits :: "'s bolt_ops \<Rightarrow> bool" where
  "bolt_commits B \<longleftrightarrow> (\<forall>s. \<exists>s'. op_commit B s = Inr s')"

section \<open>Key-value stores\<close>

text \<open>
  What the components built on the database promise their clients: a write is read back, and
  disturbs no other key.  The laws give the contents after any sequence of writes.
\<close>

locale kv_store =
  fixes put :: "'s \<Rightarrow> 'k \<Rightarrow> 'v \<Rightarrow> 's"
    and get :: "'s \<Rightarrow> 'k \<Rightarrow> 'v option"
    and ok :: "'s \<Rightarrow> bool"
    and fits :: "'k \<Rightarrow> 'v \<Rightarrow> bool"
  assumes ok_put: "ok s \<Longrightarrow> fits k v \<Longrightarrow> ok (put s k v)"
    and get_put: "ok s \<Longrightarrow> fits k v \<Longrightarrow> get (put s k v) j = (if j = k then Some v else get s j)"
begin

definition puts :: "'s \<Rightarrow> ('k \<times> 'v) list \<Rightarrow> 's" where
  "puts s kvs = foldl (\<lambda>s kv. put s (fst kv) (snd kv)) s kvs"

lemma ok_puts: "ok s \<Longrightarrow> \<forall>(k, v) \<in> set kvs. fits k v \<Longrightarrow> ok (puts s kvs)"
  unfolding puts_def by (induction kvs arbitrary: s) (auto simp: ok_put)

text \<open>The last write of a key wins.\<close>

lemma get_puts:
  "ok s \<Longrightarrow> \<forall>(k, v) \<in> set kvs. fits k v \<Longrightarrow>
     get (puts s kvs) j = (case map_of (rev kvs) j of None \<Rightarrow> get s j | Some v \<Rightarrow> Some v)"
proof (induction kvs rule: rev_induct)
  case Nil
  then show ?case by (simp add: puts_def)
next
  case (snoc kv kvs)
  then have "ok (puts s kvs)" by (intro ok_puts) auto
  with snoc show ?case by (auto simp: puts_def get_put)
qed

text \<open>Writes of distinct keys commute: the contents do not depend on their order.\<close>

lemma get_puts_distinct:
  assumes "ok s" and "\<forall>(k, v) \<in> set kvs. fits k v" and "distinct (map fst kvs)" and "(k, v) \<in> set kvs"
  shows "get (puts s kvs) k = Some v"
proof -
  have "map_of (rev kvs) k = Some v"
    using assms(3,4) by (simp add: rev_map [symmetric])
  then show ?thesis using get_puts [OF assms(1,2), of k] by simp
qed

lemma get_puts_perm:
  assumes "ok s" and "\<forall>(k, v) \<in> set kvs. fits k v" and "distinct (map fst kvs)" and "mset kvs' = mset kvs"
  shows "get (puts s kvs') k = get (puts s kvs) k"
proof -
  have s: "set kvs' = set kvs" using assms(4) by (rule mset_eq_setD)
  have "mset (map fst kvs') = mset (map fst kvs)" using assms(4) by simp
  then have d: "distinct (map fst kvs')" using assms(3) mset_eq_imp_distinct_iff by blast
  have "map_of (rev kvs') = map_of (rev kvs)"
    using assms(3) d s by (subst map_of_inject_set) (simp_all add: rev_map [symmetric])
  then show ?thesis using get_puts [OF assms(1,2)] get_puts [OF assms(1), of kvs'] assms(2) s by simp
qed

end

section \<open>Stores behind a queue\<close>

text \<open>
  Both server components hand writes to a goroutine over a channel.  A client of such a component
  sees a map that each \<open>enqueue\<close> updates at once (\<open>view\<close>): the queued writes laid over the store.
  The goroutine's steps are invisible, and when the queue is empty the store is the view.
\<close>

locale write_behind = kv_store put get ok fits
  for put :: "'s \<Rightarrow> 'k \<Rightarrow> 'v \<Rightarrow> 's" and get :: "'s \<Rightarrow> 'k \<Rightarrow> 'v option"
    and ok :: "'s \<Rightarrow> bool" and fits :: "'k \<Rightarrow> 'v \<Rightarrow> bool" +
  fixes db :: "'q \<Rightarrow> 's" and pending :: "'q \<Rightarrow> ('k \<times> 'v) list"
    and enqueue :: "'k \<times> 'v \<Rightarrow> 'q \<Rightarrow> 'q" and wstep :: "'q \<Rightarrow> 'q"
  assumes db_enqueue: "db (enqueue kv q) = db q"
    and pending_enqueue: "pending (enqueue kv q) = pending q @ [kv]"
    and wstep_empty: "pending q = [] \<Longrightarrow> wstep q = q"
    and db_wstep: "pending q = kv # kvs \<Longrightarrow> db (wstep q) = put (db q) (fst kv) (snd kv)"
    and pending_wstep: "pending q = kv # kvs \<Longrightarrow> pending (wstep q) = kvs"
begin

definition view :: "'q \<Rightarrow> 'k \<Rightarrow> 'v option" where
  "view q k = (case map_of (rev (pending q)) k of None \<Rightarrow> get (db q) k | Some v \<Rightarrow> Some v)"

definition good :: "'q \<Rightarrow> bool" where
  "good q \<longleftrightarrow> ok (db q) \<and> (\<forall>(k, v) \<in> set (pending q). fits k v)"

lemma good_enqueue: "good q \<Longrightarrow> fits k v \<Longrightarrow> good (enqueue (k, v) q)"
  by (auto simp: good_def db_enqueue pending_enqueue)

lemma view_enqueue: "view (enqueue (k, v) q) = (view q)(k \<mapsto> v)"
  by (rule ext) (simp add: view_def db_enqueue pending_enqueue split: option.split)

lemma good_wstep: "good q \<Longrightarrow> good (wstep q)"
  by (cases "pending q") (auto simp: good_def wstep_empty db_wstep pending_wstep ok_put)

lemma view_wstep: "good q \<Longrightarrow> view (wstep q) = view q"
proof (cases "pending q")
  case (Cons kv kvs)
  assume "good q"
  with Cons show ?thesis
    by (auto simp: view_def good_def db_wstep pending_wstep get_put map_add_def fun_eq_iff split: option.splits)
qed (simp add: wstep_empty)

text \<open>Any interleaving of writes and steps.\<close>

fun exec :: "('k \<times> 'v) option list \<Rightarrow> 'q \<Rightarrow> 'q" where
  "exec [] q = q"
| "exec (None # es) q = exec es (wstep q)"
| "exec (Some kv # es) q = exec es (enqueue kv q)"

lemma exec_refines:
  assumes "good q" and "\<forall>(k, v) \<in> Option.these (set es). fits k v"
  shows "good (exec es q) \<and>
    view (exec es q) = foldl (\<lambda>m (k, v). m(k \<mapsto> v)) (view q) (List.map_filter id es)"
  using assms
proof (induction es q rule: exec.induct)
  case (1 q)
  then show ?case by simp
next
  case (2 es q)
  then show ?case by (auto simp: good_wstep view_wstep)
next
  case (3 kv es q)
  then show ?case by (cases kv) (auto simp: good_enqueue view_enqueue)
qed

lemma drained:
  "pending ((wstep ^^ length (pending q)) q) = [] \<and> db ((wstep ^^ length (pending q)) q) = puts (db q) (pending q)"
  unfolding puts_def by (rule drain_queue [where st = wstep, OF _ refl]) (simp add: db_wstep pending_wstep)

lemma drained_view: "good q \<Longrightarrow> get (db ((wstep ^^ length (pending q)) q)) = view q"
  using drained [of q] get_puts [of "db q" "pending q"]
  by (auto simp: good_def view_def)

end

text \<open>One bucket of the database is such a store.\<close>

definition bucket_put :: "'s bolt_ops \<Rightarrow> bytes list \<Rightarrow> 's \<Rightarrow> bytes \<Rightarrow> bytes \<Rightarrow> 's" where
  "bucket_put B p s k v = (case op_put B s p k v of Inl _ \<Rightarrow> s | Inr s' \<Rightarrow> s')"

definition bucket_ok :: "'s bolt_ops \<Rightarrow> bytes list \<Rightarrow> 's \<Rightarrow> bool" where
  "bucket_ok B p s \<longleftrightarrow> op_bucket B s p \<and> (\<forall>k. \<not> op_bucket B s (p @ [k]))"

lemma bucket_put_Inr:
  assumes "bolt_doc B" and "bucket_ok B p s" and "bolt_fits k v"
  shows "op_put B s p k v = Inr (bucket_put B p s k v)"
proof -
  obtain s' where "op_put B s p k v = Inr s'"
    using bolt_put_ok [OF assms(1), of s p k v] assms(2,3) by (auto simp: bucket_ok_def)
  then show ?thesis by (simp add: bucket_put_def)
qed

lemma kv_bucket:
  assumes "bolt_doc B"
  shows "kv_store (bucket_put B p) (\<lambda>s. op_get B s p) (bucket_ok B p) bolt_fits"
proof
  fix s k v j
  assume ok: "bucket_ok B p s" and fits: "bolt_fits k v"
  note laws = bolt_put [OF assms bucket_put_Inr [OF assms ok fits]]
  show "bucket_ok B p (bucket_put B p s k v)"
    using ok laws(1) by (simp add: bucket_ok_def)
  show "op_get B (bucket_put B p s k v) p j = (if j = k then Some v else op_get B s p j)"
    using laws(2) [of p j] by simp
qed

text \<open>Creating a top-level bucket, writing a key into it and committing: the three steps succeed, and
  the bucket then holds the key and what it held before.\<close>

definition root_get :: "'s bolt_ops \<Rightarrow> bytes \<Rightarrow> 's \<Rightarrow> bytes \<Rightarrow> bytes option" where
  "root_get B n s k = (if op_bucket B s [n] then op_get B s [n] k else None)"

lemma root_write:
  assumes doc: "bolt_doc B" and "bolt_commits B" and "n \<noteq> []"
    and nested: "\<forall>k. \<not> op_bucket B s [n, k]" and fits: "bolt_fits k v"
  shows "\<exists>s1 s2 s3. op_create B True s [n] = Inr s1 \<and> op_put B s1 [n] k v = Inr s2 \<and>
    op_commit B s2 = Inr s3 \<and> (\<forall>q. op_bucket B s3 q \<longleftrightarrow> q = [n] \<or> op_bucket B s q) \<and>
    (\<forall>j. op_get B s3 [n] j = (if j = k then Some v else root_get B n s j))"
proof -
  obtain s1 where c: "op_create B True s [n] = Inr s1" using bolt_create_root [OF doc assms(3)] by blast
  note l1 = bolt_create_rw [OF doc c]
  have ok1: "bucket_ok B [n] s1" using l1(1) nested by (simp add: bucket_ok_def)
  let ?s2 = "bucket_put B [n] s1 k v"
  note p = bucket_put_Inr [OF doc ok1 fits]
  note l2 = bolt_put [OF doc p]
  obtain s3 where m: "op_commit B ?s2 = Inr s3" using assms(2) by (auto simp: bolt_commits_def)
  have "op_bucket B s3 q \<longleftrightarrow> q = [n] \<or> op_bucket B s q" for q
    using bolt_commit(1) [OF doc m] l2(1) l1(1) by simp
  moreover have "op_get B s1 [n] j = root_get B n s j" for j
    using l1(2,3) by (simp add: root_get_def)
  then have "op_get B s3 [n] j = (if j = k then Some v else root_get B n s j)" for j
    using bolt_commit(2) [OF doc m] l2(2) by simp
  ultimately show ?thesis
    by (intro exI [of _ s1] exI [of _ ?s2] exI [of _ s3] conjI c p m allI)
qed

section \<open>An in-memory store\<close>

type_synonym mem_store = "bytes list \<rightharpoonup> (bytes \<rightharpoonup> bytes)"

definition mem_bucket :: "mem_store \<Rightarrow> bytes list \<Rightarrow> bool" where
  "mem_bucket s p \<longleftrightarrow> s p \<noteq> None"

definition mem_get :: "mem_store \<Rightarrow> bytes list \<Rightarrow> bytes \<Rightarrow> bytes option" where
  "mem_get s p k = (case s p of None \<Rightarrow> None | Some b \<Rightarrow> b k)"

definition mem_create :: "bool \<Rightarrow> mem_store \<Rightarrow> bytes list \<Rightarrow> bolt_error + mem_store" where
  "mem_create w s p =
     (if \<not> w \<or> p = [] \<or> last p = [] then Inl BoltError
      else if s p \<noteq> None then Inr s
      else if butlast p \<noteq> [] \<and> (s (butlast p) = None \<or> mem_get s (butlast p) (last p) \<noteq> None)
        then Inl BoltError
      else Inr (s(p \<mapsto> Map.empty)))"

definition mem_put :: "mem_store \<Rightarrow> bytes list \<Rightarrow> bytes \<Rightarrow> bytes \<Rightarrow> bolt_error + mem_store" where
  "mem_put s p k v =
     (case s p of
        None \<Rightarrow> Inl BoltError
      | Some b \<Rightarrow>
          if \<not> bolt_fits k v \<or> s (p @ [k]) \<noteq> None then Inl BoltError else Inr (s(p \<mapsto> b(k \<mapsto> v))))"

definition mem_bolt :: "mem_store bolt_ops" where
  "mem_bolt = \<lparr>op_bucket = mem_bucket, op_create = mem_create, op_get = mem_get, op_put = mem_put,
               op_commit = Inr\<rparr>"

lemma mem_bolt_fields [simp]:
  "op_bucket mem_bolt = mem_bucket" "op_create mem_bolt = mem_create" "op_get mem_bolt = mem_get"
  "op_put mem_bolt = mem_put" "op_commit mem_bolt = Inr"
  by (simp_all add: mem_bolt_def)

lemma mem_put_Inr:
  "mem_put s p k v = Inr s' \<longleftrightarrow>
     (\<exists>b. s p = Some b \<and> bolt_fits k v \<and> s (p @ [k]) = None \<and> s' = s(p \<mapsto> b(k \<mapsto> v)))"
  by (auto simp: mem_put_def split: option.splits)

lemma mem_create_law: "bolt_create_law mem_bolt"
  by (auto simp: bolt_create_law_def mem_create_def mem_bucket_def mem_get_def split: if_splits)

lemma mem_put_law: "bolt_put_law mem_bolt"
  by (auto simp: bolt_put_law_def mem_put_Inr mem_bucket_def mem_get_def split: if_splits)

lemma mem_progress_law: "bolt_progress_law mem_bolt"
  by (auto simp: bolt_progress_law_def mem_create_def mem_put_Inr mem_bucket_def)

lemma bolt_doc_mem [simp]: "bolt_doc mem_bolt"
  by (simp add: bolt_doc_def mem_create_law mem_put_law mem_progress_law) (simp add: mem_create_def)

interpretation mem_bucket: kv_store "bucket_put mem_bolt p" "\<lambda>s. op_get mem_bolt s p"
    "bucket_ok mem_bolt p" bolt_fits
  for p :: "bytes list"
  by (rule kv_bucket) simp

end
