(* ===== verification/DocDatabase.thy ===== *)
theory DocDatabase
  imports Bolt
begin

text \<open>
  The encrypted document store of \<open>server/doc_db.go\<close>: the read and write handlers, the request
  channels, \<open>PutDoc\<close> and \<open>RetrieveDoc\<close>.
\<close>

record CipherDoc =
  DocId :: u32
  EncryptedDoc :: bytes

datatype doc_error = ErrDocDoesNotExist | ErrEOF

definition docBucketKey :: bytes where
  "docBucketKey = str_bytes ''docs''"

text \<open>\<open>bytes.Buffer.Read\<close> into a slice of \<open>n\<close> bytes: an empty buffer reads as EOF unless \<open>n\<close> is 0.\<close>

definition buffer_read :: "bytes \<Rightarrow> nat \<Rightarrow> doc_error + bytes" where
  "buffer_read buf n =
     (if buf = [] then (if n = 0 then Inr [] else Inl ErrEOF) else Inr (take n buf))"

text \<open>The body of \<open>readHandler\<close> for one request: the View transaction with the error it returns and
  what it wrote to \<open>docBuf\<close>, then the reply (document and error).\<close>

definition readHandler_view :: "'s bolt_ops \<Rightarrow> 's \<Rightarrow> bytes \<Rightarrow> doc_error option \<times> bytes" where
  "readHandler_view B s docKeyBuf =
     (case op_create B False s [docBucketKey] of
        Inl e \<Rightarrow> (None, [])
      | Inr s' \<Rightarrow> (case op_get B s' [docBucketKey] docKeyBuf of
            None \<Rightarrow> (Some ErrDocDoesNotExist, [])
          | Some doc \<Rightarrow> (None, doc)))"

definition readHandler :: "'s bolt_ops \<Rightarrow> 's \<Rightarrow> u32 \<Rightarrow> CipherDoc option \<times> doc_error option" where
  "readHandler B s docId =
     (let docKeyBuf = le32 docId; (err, docBuf) = readHandler_view B s docKeyBuf
      in case err of
           Some e \<Rightarrow> (None, Some e)
         | None \<Rightarrow> (case buffer_read docBuf (length docBuf) of
               Inl e \<Rightarrow> (None, Some e)
             | Inr retBuf \<Rightarrow> (Some \<lparr>DocId = docId, EncryptedDoc = retBuf\<rparr>, None)))"

text \<open>The Update transaction of \<open>writeHandler\<close>: errors of the bucket and of the write are dropped,
  so the transaction is committed either way.\<close>

definition writeHandler_tx :: "'s bolt_ops \<Rightarrow> CipherDoc \<Rightarrow> 's \<Rightarrow> doc_error + 's" where
  "writeHandler_tx B doc s =
     (case op_create B True s [docBucketKey] of
        Inl e \<Rightarrow> Inr s
      | Inr s' \<Rightarrow> (case op_put B s' [docBucketKey] (le32 (DocId doc)) (EncryptedDoc doc) of
            Inl e \<Rightarrow> Inr s'
          | Inr s'' \<Rightarrow> Inr s''))"

definition writeHandler :: "'s bolt_ops \<Rightarrow> CipherDoc \<Rightarrow> 's \<Rightarrow> 's" where
  "writeHandler B doc s = snd (db_update B (writeHandler_tx B doc) s)"

text \<open>
  The service: the database and the queued writes, taken off in order by the one write handler.
  Reads are served by other goroutines, from the database as it is at that moment.
\<close>

record 's documentDatabase =
  docStore :: 's
  writeRequests :: "CipherDoc list"

definition NewDocumentDatabase :: "'s \<Rightarrow> 's documentDatabase" where
  "NewDocumentDatabase db = \<lparr>docStore = db, writeRequests = []\<rparr>"

definition PutDoc :: "CipherDoc \<Rightarrow> 's documentDatabase \<Rightarrow> 's documentDatabase" where
  "PutDoc doc d = d\<lparr>writeRequests := writeRequests d @ [doc]\<rparr>"

definition writeHandler_step :: "'s bolt_ops \<Rightarrow> 's documentDatabase \<Rightarrow> 's documentDatabase" where
  "writeHandler_step B d =
     (case writeRequests d of
        [] \<Rightarrow> d
      | doc # rest \<Rightarrow> d\<lparr>docStore := writeHandler B doc (docStore d), writeRequests := rest\<rparr>)"

definition RetrieveDoc ::
    "'s bolt_ops \<Rightarrow> u32 \<Rightarrow> 's documentDatabase \<Rightarrow> CipherDoc option \<times> doc_error option" where
  "RetrieveDoc B docId d = readHandler B (docStore d) docId"

section \<open>Lemmas\<close>

text \<open>What the database holds for a document ID.\<close>

definition stored_doc :: "'s bolt_ops \<Rightarrow> 's \<Rightarrow> u32 \<Rightarrow> bytes option" where
  "stored_doc B s docId = root_get B docBucketKey s (le32 docId)"

definition docs_ok :: "'s bolt_ops \<Rightarrow> 's \<Rightarrow> bool" where
  "docs_ok B s \<longleftrightarrow> (\<forall>k. \<not> op_bucket B s [docBucketKey, k])"

lemma docBucketKey_nonempty [simp]: "docBucketKey \<noteq> []"
  by (simp add: docBucketKey_def)

lemma writeHandler_effect:
  assumes "bolt_doc B" and "bolt_commits B" and "docs_ok B s"
    and "length (EncryptedDoc doc) \<le> 2147483646"
  shows "docs_ok B (writeHandler B doc s)"
    and "stored_doc B (writeHandler B doc s) j =
      (if j = DocId doc then Some (EncryptedDoc doc) else stored_doc B s j)"
proof -
  have fits: "bolt_fits (le32 (DocId doc)) (EncryptedDoc doc)"
    using assms(4) by (simp add: bolt_fits_def) (metis length_le32 list.size(3) zero_neq_numeral)
  have nested: "\<forall>k. \<not> op_bucket B s [docBucketKey, k]" using assms(3) by (simp add: docs_ok_def)
  obtain s1 s2 s3 where w: "op_create B True s [docBucketKey] = Inr s1"
      "op_put B s1 [docBucketKey] (le32 (DocId doc)) (EncryptedDoc doc) = Inr s2" "op_commit B s2 = Inr s3"
    and after: "\<forall>q. op_bucket B s3 q \<longleftrightarrow> q = [docBucketKey] \<or> op_bucket B s q"
      "\<forall>j. op_get B s3 [docBucketKey] j =
        (if j = le32 (DocId doc) then Some (EncryptedDoc doc) else root_get B docBucketKey s j)"
    using root_write [OF assms(1,2) docBucketKey_nonempty nested fits] by (elim exE conjE) (rule that)
  have s3: "writeHandler B doc s = s3"
    by (simp add: writeHandler_def db_update_def writeHandler_tx_def w)
  show "docs_ok B (writeHandler B doc s)"
    using assms(3) by (simp add: docs_ok_def s3 after)
  show "stored_doc B (writeHandler B doc s) j =
      (if j = DocId doc then Some (EncryptedDoc doc) else stored_doc B s j)"
    by (simp add: stored_doc_def root_get_def [of B docBucketKey s3] s3 after)
qed

definition doc_put :: "'s bolt_ops \<Rightarrow> 's \<Rightarrow> u32 \<Rightarrow> bytes \<Rightarrow> 's" where
  "doc_put B s i d = writeHandler B \<lparr>DocId = i, EncryptedDoc = d\<rparr> s"

lemma kv_docs:
  assumes "bolt_doc B" and "bolt_commits B"
  shows "kv_store (doc_put B) (stored_doc B) (docs_ok B) (\<lambda>i d. length d \<le> 2147483646)"
  by unfold_locales (simp_all add: doc_put_def writeHandler_effect assms)

interpretation docs: kv_store "doc_put mem_bolt" "stored_doc mem_bolt" "docs_ok mem_bolt"
    "\<lambda>i d. length d \<le> 2147483646"
  by (rule kv_docs) (simp_all add: bolt_commits_def)

text \<open>Draining the write queue.\<close>

lemma drain_writes:
  "docStore ((writeHandler_step B ^^ length (writeRequests d)) d) =
     foldl (\<lambda>s doc. writeHandler B doc s) (docStore d) (writeRequests d)"
  by (rule conjunct2 [OF drain_queue [where st = "writeHandler_step B", OF _ refl]])
    (simp add: writeHandler_step_def)

lemma CipherDoc_eta [simp]: "\<lparr>DocId = DocId d, EncryptedDoc = EncryptedDoc d\<rparr> = d"
  by (cases d) simp

text \<open>The service is a store behind a queue; what its clients see of it.\<close>

definition docs_pending :: "'s documentDatabase \<Rightarrow> (u32 \<times> bytes) list" where
  "docs_pending d = map (\<lambda>doc. (DocId doc, EncryptedDoc doc)) (writeRequests d)"

definition doc_enqueue :: "u32 \<times> bytes \<Rightarrow> 's documentDatabase \<Rightarrow> 's documentDatabase" where
  "doc_enqueue kv = PutDoc \<lparr>DocId = fst kv, EncryptedDoc = snd kv\<rparr>"

lemma write_behind_docs:
  assumes "bolt_doc B" and "bolt_commits B"
  shows "write_behind (doc_put B) (stored_doc B) (docs_ok B) (\<lambda>i d. length d \<le> 2147483646)
    docStore docs_pending doc_enqueue (writeHandler_step B)"
  by (intro write_behind.intro write_behind_axioms.intro kv_docs assms)
    (auto simp: docs_pending_def doc_enqueue_def doc_put_def PutDoc_def writeHandler_step_def split: list.splits)

interpretation docqueue: write_behind "doc_put mem_bolt" "stored_doc mem_bolt" "docs_ok mem_bolt"
    "\<lambda>i d. length d \<le> 2147483646" docStore docs_pending doc_enqueue "writeHandler_step mem_bolt"
  by (rule write_behind_docs) (simp_all add: bolt_commits_def)

text \<open>The map a client of the service sees: the queued documents laid over the stored ones; and a run
  of the service: documents put (\<open>Some\<close>) and steps of the write handler (\<open>None\<close>) in any order.\<close>

definition doc_view :: "'s bolt_ops \<Rightarrow> 's documentDatabase \<Rightarrow> u32 \<Rightarrow> bytes option" where
  "doc_view B d docId =
     (case filter (\<lambda>doc. DocId doc = docId) (rev (writeRequests d)) of
        [] \<Rightarrow> stored_doc B (docStore d) docId
      | doc # _ \<Rightarrow> Some (EncryptedDoc doc))"

fun run_docs :: "'s bolt_ops \<Rightarrow> CipherDoc option list \<Rightarrow> 's documentDatabase \<Rightarrow> 's documentDatabase" where
  "run_docs B [] d = d"
| "run_docs B (None # es) d = run_docs B es (writeHandler_step B d)"
| "run_docs B (Some doc # es) d = run_docs B es (PutDoc doc d)"

lemma foldl_writes:
  "foldl (\<lambda>s doc. writeHandler B doc s) s ds =
     kv_store.puts (doc_put B) s (map (\<lambda>d. (DocId d, EncryptedDoc d)) ds)"
  if "bolt_doc B" "bolt_commits B"
  using kv_store.puts_def [OF kv_docs [OF that]]
  by (simp add: foldl_map doc_put_def comp_def)

lemma map_of_docs:
  "map_of (map (\<lambda>d. (DocId d, EncryptedDoc d)) ds) docId =
     (case filter (\<lambda>doc. DocId doc = docId) ds of
        [] \<Rightarrow> None | doc # _ \<Rightarrow> Some (EncryptedDoc doc))"
  by (induction ds) auto

lemma doc_view_view:
  assumes "bolt_doc B" and "bolt_commits B"
  shows "doc_view B d = write_behind.view (stored_doc B) docStore docs_pending d"
  unfolding write_behind.view_def [OF write_behind_docs [OF assms]] doc_view_def docs_pending_def fun_eq_iff
  by (simp only: rev_map map_of_docs) (auto split: list.splits)

lemma run_docs_exec:
  assumes "bolt_doc B" and "bolt_commits B"
  shows "run_docs B es d =
    write_behind.exec doc_enqueue (writeHandler_step B) (map (map_option (\<lambda>doc. (DocId doc, EncryptedDoc doc))) es) d"
  using write_behind.exec.simps [OF write_behind_docs [OF assms]]
  by (induction B es d rule: run_docs.induct) (simp_all add: doc_enqueue_def)

lemma readHandler_read_only:
  "bolt_doc B \<Longrightarrow> readHandler B s docId = (Some \<lparr>DocId = docId, EncryptedDoc = []\<rparr>, None)"
  by (simp add: readHandler_def readHandler_view_def buffer_read_def)

section \<open>Properties\<close>

text \<open>C27: The document service refines a map.  In every interleaving of \<open>PutDoc\<close> calls with steps of
  the write handler, what a client sees (the queued documents over the stored ones) is the map
  updated by the documents put, in order, the handler's steps being invisible; and when the handler
  goes on until its queue is empty, the database itself holds exactly that map.\<close>

theorem documentDatabase_refines_map:
  assumes "bolt_doc B" and "bolt_commits B" and "docs_ok B (docStore d)"
    and "\<forall>doc \<in> set (writeRequests d). length (EncryptedDoc doc) \<le> 2147483646"
    and "\<forall>doc \<in> set (List.map_filter id es). length (EncryptedDoc doc) \<le> 2147483646"
  defines "d' \<equiv> run_docs B es d"
    and "spec \<equiv> foldl (\<lambda>m doc. m(DocId doc \<mapsto> EncryptedDoc doc)) (doc_view B d) (List.map_filter id es)"
  shows "doc_view B d' = spec \<and>
    stored_doc B (docStore ((writeHandler_step B ^^ length (writeRequests d')) d')) = spec"
proof -
  let ?es = "map (map_option (\<lambda>doc. (DocId doc, EncryptedDoc doc))) es"
  note wb = write_behind_docs [OF assms(1,2)]
  have good: "write_behind.good (docs_ok B) (\<lambda>i d. length d \<le> 2147483646) docStore docs_pending d"
    unfolding write_behind.good_def [OF wb] using assms(3,4) by (auto simp: docs_pending_def)
  have fits: "\<forall>(k, v) \<in> Option.these (set ?es). length v \<le> 2147483646"
    using assms(5) by (force simp: Option.these_def List.map_filter_def)
  have mf: "foldl (\<lambda>m (k, v). m(k \<mapsto> v)) m (List.map_filter id ?es) =
      foldl (\<lambda>m doc. m(DocId doc \<mapsto> EncryptedDoc doc)) m (List.map_filter id es)" for m
    by (induction es arbitrary: m) (auto simp: List.map_filter_simps split: option.split)
  note refines = write_behind.exec_refines [OF wb good fits, folded run_docs_exec [OF assms(1,2)] d'_def,
      folded doc_view_view [OF assms(1,2)], unfolded mf]
  have len: "length (docs_pending d') = length (writeRequests d')" by (simp add: docs_pending_def)
  have "stored_doc B (docStore ((writeHandler_step B ^^ length (writeRequests d')) d')) = doc_view B d'"
    using write_behind.drained_view [OF wb conjunct1 [OF refines]]
    unfolding len doc_view_view [OF assms(1,2)] .
  with refines show ?thesis by (simp add: spec_def)
qed

theorem documentDatabase_refines_map_witness:
  "doc_view mem_bolt (run_docs mem_bolt [Some \<lparr>DocId = 1, EncryptedDoc = [5]\<rparr>, None, Some \<lparr>DocId = 1, EncryptedDoc = [7]\<rparr>]
     \<lparr>docStore = Map.empty, writeRequests = []\<rparr>) 1 = Some [7]"
proof -
  let ?d = "\<lparr>docStore = Map.empty, writeRequests = []\<rparr> :: mem_store documentDatabase"
  let ?es = "[Some \<lparr>DocId = 1, EncryptedDoc = [5]\<rparr>, None, Some \<lparr>DocId = 1, EncryptedDoc = [7]\<rparr>]"
  have "bolt_commits mem_bolt" by (simp add: bolt_commits_def)
  moreover have "docs_ok mem_bolt (docStore ?d)" by (simp add: docs_ok_def mem_bucket_def)
  ultimately have "doc_view mem_bolt (run_docs mem_bolt ?es ?d) =
      foldl (\<lambda>m doc. m(DocId doc \<mapsto> EncryptedDoc doc)) (doc_view mem_bolt ?d) (List.map_filter id ?es)"
    using documentDatabase_refines_map [OF bolt_doc_mem, of ?d ?es] by (simp add: List.map_filter_simps)
  then show ?thesis by (simp add: List.map_filter_simps)
qed

text \<open>Uploaded documents are stored: once the write handler has drained its queue, the database
  holds for every document ID the ciphertext of the last \<open>PutDoc\<close> of that ID, and what it held
  before for the others.\<close>

theorem PutDoc_last_write_wins:
  assumes "bolt_doc B" and "bolt_commits B" and "docs_ok B (docStore d)"
    and "\<forall>doc \<in> set docs. length (EncryptedDoc doc) \<le> 2147483646" and "writeRequests d = []"
  shows "stored_doc B (docStore ((writeHandler_step B ^^ length docs) (fold PutDoc docs d))) docId =
    (case filter (\<lambda>doc. DocId doc = docId) (rev docs) of
       [] \<Rightarrow> stored_doc B (docStore d) docId
     | doc # _ \<Rightarrow> Some (EncryptedDoc doc))"
proof -
  have q: "writeRequests (fold PutDoc docs d) = writeRequests d @ docs" for d :: "'x documentDatabase"
    by (induction docs arbitrary: d) (simp_all add: PutDoc_def)
  have st: "docStore (fold PutDoc docs d) = docStore d" for d :: "'x documentDatabase"
    by (induction docs arbitrary: d) (simp_all add: PutDoc_def)
  let ?kvs = "map (\<lambda>d. (DocId d, EncryptedDoc d)) docs"
  have "docStore ((writeHandler_step B ^^ length docs) (fold PutDoc docs d)) =
      kv_store.puts (doc_put B) (docStore d) ?kvs"
    using drain_writes [where B = B and d = "fold PutDoc docs d"] assms(1,2,5) by (simp add: q st foldl_writes)
  then have "stored_doc B (docStore ((writeHandler_step B ^^ length docs) (fold PutDoc docs d))) docId =
      (case map_of (rev ?kvs) docId of
         None \<Rightarrow> stored_doc B (docStore d) docId | Some v \<Rightarrow> Some v)"
    using kv_store.get_puts [OF kv_docs [OF assms(1,2)] assms(3), of ?kvs docId] assms(4) by auto
  also have "map_of (rev ?kvs) docId =
      (case filter (\<lambda>doc. DocId doc = docId) (rev docs) of [] \<Rightarrow> None | doc # _ \<Rightarrow> Some (EncryptedDoc doc))"
    by (simp only: rev_map map_of_docs)
  finally show ?thesis by (auto split: list.splits)
qed

theorem PutDoc_last_write_wins_witness:
  "stored_doc mem_bolt (docStore ((writeHandler_step mem_bolt ^^ 3)
     (fold PutDoc [\<lparr>DocId = 1, EncryptedDoc = [5]\<rparr>, \<lparr>DocId = 2, EncryptedDoc = [6]\<rparr>,
                   \<lparr>DocId = 1, EncryptedDoc = [7]\<rparr>]
        \<lparr>docStore = Map.empty, writeRequests = []\<rparr>))) 1 = Some [7]"
proof -
  let ?docs = "[\<lparr>DocId = 1, EncryptedDoc = [5]\<rparr>, \<lparr>DocId = 2, EncryptedDoc = [6]\<rparr>,
                \<lparr>DocId = 1, EncryptedDoc = [7]\<rparr>]"
  let ?d = "\<lparr>docStore = Map.empty, writeRequests = []\<rparr> :: mem_store documentDatabase"
  have "bolt_commits mem_bolt" by (simp add: bolt_commits_def)
  moreover have "docs_ok mem_bolt (docStore ?d)" by (simp add: docs_ok_def mem_bucket_def)
  ultimately show ?thesis
    using PutDoc_last_write_wins [of mem_bolt ?d ?docs 1] by (simp add: numeral_3_eq_3)
qed

text \<open>Retrieval never returns a stored document.  The read handler asks for the bucket with
  \<open>CreateBucketIfNotExists\<close> inside a read-only transaction, which bolt refuses, and then answers
  every request with an empty document and no error, whatever the database holds.\<close>

theorem RetrieveDoc_always_empty:
  assumes "bolt_doc B"
  shows "RetrieveDoc B docId d = (Some \<lparr>DocId = docId, EncryptedDoc = []\<rparr>, None)"
  by (simp add: RetrieveDoc_def readHandler_read_only assms)

theorem RetrieveDoc_always_empty_witness:
  "bolt_doc mem_bolt \<and>
   (let d = (writeHandler_step mem_bolt (PutDoc \<lparr>DocId = 1, EncryptedDoc = [5]\<rparr>
              \<lparr>docStore = Map.empty, writeRequests = []\<rparr>))
    in RetrieveDoc mem_bolt 1 d = (Some \<lparr>DocId = 1, EncryptedDoc = []\<rparr>, None))"
  using RetrieveDoc_always_empty [OF bolt_doc_mem] by simp

end
