(* ===== verification/Sha512.thy ===== *)
theory Sha512
  imports Prelude
begin

text \<open>
  crypto/sha512 of Go's standard library, on messages that are a whole number of bytes: the
  hash \<open>H\<close> of the t-set construction (\<open>crypto/tset.go\<close>) and the derivation function of the
  key tree (\<open>key_manager.go\<close>).  The function is the one of FIPS 180-4: padding, message
  schedule, eighty rounds, Davies-Meyer chaining.  What the development needs of it besides
  its value is that a digest has 64 bytes.
\<close>

type_synonym sha_state = "u64 \<times> u64 \<times> u64 \<times> u64 \<times> u64 \<times> u64 \<times> u64 \<times> u64"

text \<open>The constants of FIPS 180-4: the first 64 bits of the fractional parts of the cube roots of
  the first eighty primes, and of the square roots of the first eight.\<close>

definition small_primes :: "nat list" where
  "small_primes = filter (\<lambda>p. \<forall>d \<in> set [2..<p]. \<not> d dvd p) [2..<410]"

definition int_root :: "nat \<Rightarrow> nat \<Rightarrow> nat" where
  "int_root k n = foldl (\<lambda>r i. if (r + 2 ^ i) ^ k \<le> n then r + 2 ^ i else r) 0 (rev [0..<68])"

definition root_fraction :: "nat \<Rightarrow> nat \<Rightarrow> u64" where
  "root_fraction k p = of_nat (int_root k (p * 2 ^ (64 * k)) mod 2 ^ 64)"

definition sha_K :: "u64 list" where
  "sha_K = map (root_fraction 3) small_primes"

definition sha_H0 :: sha_state where
  "sha_H0 = (let h = (\<lambda>i. root_fraction 2 (small_primes ! i))
     in (h 0, h 1, h 2, h 3, h 4, h 5, h 6, h 7))"

definition be64 :: "u64 \<Rightarrow> bytes" where
  "be64 w = map (\<lambda>i. ucast (drop_bit (56 - 8 * i) w)) [0..<8]"

definition be64_read :: "bytes \<Rightarrow> u64" where
  "be64_read bs = foldl (\<lambda>w b. push_bit 8 w OR ucast b) 0 bs"

text \<open>The message, a one bit, zeros up to sixteen bytes before a block's end, and the length
  in bits, a uint64 written as a 128-bit number.\<close>

definition sha_pad :: "bytes \<Rightarrow> bytes" where
  "sha_pad m =
     (let n = length m
      in m @ [0x80] @ replicate ((111 + 128 - n mod 128) mod 128) 0
           @ replicate 8 0 @ be64 (of_nat (8 * n)))"

fun chunks :: "nat \<Rightarrow> 'a list \<Rightarrow> 'a list list" where
  "chunks k xs = (if xs = [] \<or> k = 0 then [] else take k xs # chunks k (drop k xs))"

declare chunks.simps [simp del]

definition sha_sigma0 :: "u64 \<Rightarrow> u64" where
  "sha_sigma0 x = word_rotr 1 x XOR word_rotr 8 x XOR drop_bit 7 x"

definition sha_sigma1 :: "u64 \<Rightarrow> u64" where
  "sha_sigma1 x = word_rotr 19 x XOR word_rotr 61 x XOR drop_bit 6 x"

definition sha_Sigma0 :: "u64 \<Rightarrow> u64" where
  "sha_Sigma0 x = word_rotr 28 x XOR word_rotr 34 x XOR word_rotr 39 x"

definition sha_Sigma1 :: "u64 \<Rightarrow> u64" where
  "sha_Sigma1 x = word_rotr 14 x XOR word_rotr 18 x XOR word_rotr 41 x"

text \<open>The schedule, extended one word at a time (\<open>W\<close> in order).\<close>

definition sha_extend :: "u64 list \<Rightarrow> u64 list" where
  "sha_extend W =
     (let t = length W
      in W @ [sha_sigma1 (W ! (t - 2)) + W ! (t - 7) + sha_sigma0 (W ! (t - 15)) + W ! (t - 16)])"

definition sha_schedule :: "bytes \<Rightarrow> u64 list" where
  "sha_schedule block = (sha_extend ^^ 64) (map be64_read (chunks 8 block))"

fun sha_round :: "sha_state \<Rightarrow> u64 \<times> u64 \<Rightarrow> sha_state" where
  "sha_round (a, b, c, d, e, f, g, h) (k, w) =
     (let t1 = h + sha_Sigma1 e + ((e AND f) XOR (NOT e AND g)) + k + w;
          t2 = sha_Sigma0 a + ((a AND b) XOR (a AND c) XOR (b AND c))
      in (t1 + t2, a, b, c, d + t1, e, f, g))"

fun sha_add :: "sha_state \<Rightarrow> sha_state \<Rightarrow> sha_state" where
  "sha_add (a, b, c, d, e, f, g, h) (a', b', c', d', e', f', g', h') =
     (a + a', b + b', c + c', d + d', e + e', f + f', g + g', h + h')"

definition sha_block :: "sha_state \<Rightarrow> bytes \<Rightarrow> sha_state" where
  "sha_block H block = sha_add H (foldl sha_round H (zip sha_K (sha_schedule block)))"

fun sha_output :: "sha_state \<Rightarrow> bytes" where
  "sha_output (a, b, c, d, e, f, g, h) = concat (map be64 [a, b, c, d, e, f, g, h])"

definition sha512 :: "bytes \<Rightarrow> bytes" where
  "sha512 m = sha_output (foldl sha_block sha_H0 (chunks 128 (sha_pad m)))"

lemma length_be64 [simp, codec]: "length (be64 w) = 8"
  by (simp add: be64_def)

lemma length_sha_output [simp]: "length (sha_output H) = 64"
  by (cases H rule: sha_output.cases) simp

lemma length_sha512 [simp, codec]: "length (sha512 m) = 64"
  by (simp add: sha512_def)

end
