(* ===== verification/GoHash.thy ===== *)
theory GoHash
  imports Sha512
begin

text \<open>
  The hash.Hash interface of Go's standard library as the code uses it: \<open>Write\<close> appends to
  the message, \<open>Sum(nil)\<close> returns the digest of everything written since the last \<open>Reset\<close> and
  leaves the state alone.  The locale states that contract once; it is interpreted on the two
  implementations the code uses, the keyed AES-CMAC objects of github.com/jacobsa/crypto/cmac
  (whose tag function and accepted key lengths are parameters, \<open>prf_lib\<close>) and SHA-512.
\<close>

section \<open>The contract\<close>

locale hash_stream =
  fixes init :: "'h"
    and wr :: "'h \<Rightarrow> bytes \<Rightarrow> 'h"
    and sm :: "'h \<Rightarrow> bytes"
    and rst :: "'h \<Rightarrow> 'h"
    and digest :: "bytes \<Rightarrow> bytes"
    and seen :: "'h \<Rightarrow> bytes"
    and ok :: "'h \<Rightarrow> bool"
  assumes ok_init: "ok init"
    and ok_wr: "ok h \<Longrightarrow> ok (wr h b)"
    and ok_rst: "ok h \<Longrightarrow> ok (rst h)"
    and seen_init: "seen init = []"
    and seen_wr: "seen (wr h b) = seen h @ b"
    and seen_rst: "seen (rst h) = []"
    and sum_seen: "ok h \<Longrightarrow> sm h = digest (seen h)"
begin

lemma seen_writes: "seen (foldl wr h ms) = seen h @ concat ms"
  by (induction ms arbitrary: h) (simp_all add: seen_wr)

lemma ok_writes: "ok h \<Longrightarrow> ok (foldl wr h ms)"
  by (induction ms arbitrary: h) (simp_all add: ok_wr)

text \<open>A digest depends on the bytes written since the start, not on how they were cut.\<close>

lemma sum_writes: "ok h \<Longrightarrow> sm (foldl wr h ms) = digest (seen h @ concat ms)"
  by (simp add: sum_seen ok_writes seen_writes)

lemma sum_after_reset: "ok h \<Longrightarrow> sm (foldl wr (rst h) ms) = digest (concat ms)"
  by (simp add: sum_writes ok_rst seen_rst)

lemma sum_without_reset:
  "ok h \<Longrightarrow> sm (foldl wr (foldl wr h ms) ms') = digest (seen h @ concat ms @ concat ms')"
  by (simp add: sum_writes ok_writes seen_writes)

end

section \<open>Keyed CMAC objects\<close>

text \<open>
  What the code relies on of the cmac package: the key lengths \<open>New\<close> accepts, and the tag of
  a message under a key.
\<close>

record prf_lib =
  key_ok :: "nat \<Rightarrow> bool"
  mac :: "bytes \<Rightarrow> bytes \<Rightarrow> bytes"

text \<open>Documented: AES-CMAC takes 16, 24 or 32 byte keys and returns 16 byte tags.\<close>

definition cmac_doc :: "prf_lib \<Rightarrow> bool" where
  "cmac_doc L \<longleftrightarrow> (\<forall>n. key_ok L n \<longleftrightarrow> n \<in> {16, 24, 32}) \<and> (\<forall>k m. length (mac L k m) = 16)"

record hash_state =
  hkey :: bytes
  hbuf :: bytes

text \<open>
  A variable of type hash.Hash.  \<open>cmac.New\<close> returns a nil interface with its error; the code
  drops the error, and a call on the nil interface panics.
\<close>

type_synonym hash = "hash_state option"

definition cmac_new :: "prf_lib \<Rightarrow> bytes \<Rightarrow> hash" where
  "cmac_new L k = (if key_ok L (length k) then Some \<lparr>hkey = k, hbuf = []\<rparr> else None)"

definition hs_write :: "hash_state \<Rightarrow> bytes \<Rightarrow> hash_state" where
  "hs_write h b = h\<lparr>hbuf := hbuf h @ b\<rparr>"

definition hs_reset :: "hash_state \<Rightarrow> hash_state" where
  "hs_reset h = h\<lparr>hbuf := []\<rparr>"

definition hs_sum :: "prf_lib \<Rightarrow> hash_state \<Rightarrow> bytes" where
  "hs_sum L h = mac L (hkey h) (hbuf h)"

definition hash_write :: "hash \<Rightarrow> bytes \<Rightarrow> hash go" where
  "hash_write h b = (case h of None \<Rightarrow> Inl NilDereference | Some s \<Rightarrow> Inr (Some (hs_write s b)))"

definition hash_sum :: "prf_lib \<Rightarrow> hash \<Rightarrow> bytes go" where
  "hash_sum L h = (case h of None \<Rightarrow> Inl NilDereference | Some s \<Rightarrow> Inr (hs_sum L s))"

definition hash_reset :: "hash \<Rightarrow> hash go" where
  "hash_reset h = (case h of None \<Rightarrow> Inl NilDereference | Some s \<Rightarrow> Inr (Some (hs_reset s)))"

interpretation cmac: hash_stream "\<lparr>hkey = k, hbuf = []\<rparr>" hs_write "hs_sum L" hs_reset
    "mac L k" hbuf "\<lambda>h. hkey h = k"
  for L :: prf_lib and k :: bytes
  by unfold_locales (simp_all add: hs_write_def hs_sum_def hs_reset_def)

lemma hash_ops_Some [simp, go_simps]:
  "hash_write (Some s) b = Inr (Some (hs_write s b))"
  "hash_sum L (Some s) = Inr (hs_sum L s)"
  "hash_reset (Some s) = Inr (Some (hs_reset s))"
  by (simp_all add: hash_write_def hash_sum_def hash_reset_def)

lemma hash_ops_None [simp, go_simps]:
  "hash_write None b = Inl NilDereference"
  "hash_sum L None = Inl NilDereference"
  "hash_reset None = Inl NilDereference"
  by (simp_all add: hash_write_def hash_sum_def hash_reset_def)

lemma hs_fields [simp]:
  "hs_write \<lparr>hkey = k, hbuf = b\<rparr> c = \<lparr>hkey = k, hbuf = b @ c\<rparr>"
  "hs_reset \<lparr>hkey = k, hbuf = b\<rparr> = \<lparr>hkey = k, hbuf = []\<rparr>"
  "hs_sum L \<lparr>hkey = k, hbuf = b\<rparr> = mac L k b"
  by (simp_all add: hs_write_def hs_reset_def hs_sum_def)

lemma cmac_new_ok [simp]:
  "cmac_doc L \<Longrightarrow> length k \<in> {16, 24, 32} \<Longrightarrow> cmac_new L k = Some \<lparr>hkey = k, hbuf = []\<rparr>"
  by (auto simp: cmac_doc_def cmac_new_def)

lemma length_mac [simp]: "cmac_doc L \<Longrightarrow> length (mac L k m) = 16"
  by (simp add: cmac_doc_def)

section \<open>SHA-512 objects\<close>

text \<open>\<open>sha512.New()\<close> starts an empty message; \<open>Write\<close> and \<open>Sum\<close> as above, with no key.\<close>

definition sha_write :: "bytes \<Rightarrow> bytes \<Rightarrow> bytes" where
  "sha_write h b = h @ b"

interpretation sha: hash_stream "[]" sha_write sha512 "\<lambda>_. []" sha512 "\<lambda>h. h" "\<lambda>_. True"
  by unfold_locales (simp_all add: sha_write_def)

text \<open>A concrete \<open>prf_lib\<close> with the documented key and tag lengths, used by the witnesses.\<close>

definition demo_prf :: prf_lib where
  "demo_prf = \<lparr>key_ok = (\<lambda>n. n \<in> {16, 24, 32}),
               mac = (\<lambda>k m. replicate 15 0 @ [if even (length m) then 1 else 2])\<rparr>"

lemma cmac_doc_demo [simp]: "cmac_doc demo_prf"
  by (simp add: cmac_doc_def demo_prf_def)

lemma mac_demo [simp]: "mac demo_prf k m = replicate 15 0 @ [if even (length m) then 1 else 2]"
  by (simp add: demo_prf_def)

end
