(* ===== verification/TSet.thy ===== *)
theory TSet
  imports GoHash
begin

text \<open>
  The functions of \<open>crypto/tset.go\<close>: the derivation of a t-set cell's bucket, label and one-time
  pad from the search tag and the tuple's index, the pad itself, and the (currently plain)
  permutation of document IDs.
\<close>

definition CalcTsetVals :: "prf_lib \<Rightarrow> bytes \<Rightarrow> u32 \<Rightarrow> (bytes \<times> bytes \<times> bytes) go" where
  "CalcTsetVals L stag index =
     (let prf = cmac_new L stag
      in gbind (hash_write prf (be32 index)) (\<lambda>prf.
         gbind (hash_sum L prf) (\<lambda>m.
           let tSetSum = sha512 (sha_write [] m);
               bucket = take 1 tSetSum;
               label = take 16 (drop 1 tSetSum);
               otp = take 33 (drop 17 tSetSum)
           in Inr (bucket, label, otp))))"

text \<open>The loop runs over \<open>x\<close> and indexes \<open>y\<close>: it panics when \<open>y\<close> is shorter.\<close>

fun XorBytes :: "bytes \<Rightarrow> bytes \<Rightarrow> bytes go" where
  "XorBytes [] _ = Inr []"
| "XorBytes (x # xs) [] = Inl IndexOutOfRange"
| "XorBytes (x # xs) (y # ys) = gbind (XorBytes xs ys) (\<lambda>out. Inr ((x XOR y) # out))"

definition PermuteDocId :: "string \<Rightarrow> hash \<Rightarrow> u32 \<Rightarrow> bytes" where
  "PermuteDocId word wPrf docId = be32 docId"

definition UnpermuteDocId :: "string \<Rightarrow> hash \<Rightarrow> bytes \<Rightarrow> u32 go" where
  "UnpermuteDocId word wPrf docId = be32_read docId"

section \<open>The one-time pad\<close>

lemma XorBytes_map2:
  "length x \<le> length y \<Longrightarrow> XorBytes x y = Inr (map2 (XOR) x y)"
  by (induction x y rule: XorBytes.induct) simp_all

lemma XorBytes_short: "length y < length x \<Longrightarrow> XorBytes x y = Inl IndexOutOfRange"
  by (induction x y rule: XorBytes.induct) simp_all

lemma XorBytes_Inr_length: "XorBytes x y = Inr z \<Longrightarrow> length z = length x"
  by (induction x y arbitrary: z rule: XorBytes.induct) (auto simp: gbind_Inr_iff)

lemma map2_xor_cancel:
  "length x = length y \<Longrightarrow> map2 (XOR) y (map2 (XOR) x y) = (x :: bytes)"
  by (induction x y rule: list_induct2) (simp_all add: xor.left_commute)

lemma XorBytes_cancel:
  "length x = length y \<Longrightarrow> gbind (XorBytes x y) (XorBytes y) = Inr x"
  by (simp add: XorBytes_map2 map2_xor_cancel)

section \<open>Bucket, label and pad\<close>

lemma CalcTsetVals_ok:
  assumes "cmac_doc L" and "length stag \<in> {16, 24, 32}"
  shows "CalcTsetVals L stag index =
    (let s = sha512 (mac L stag (be32 index))
     in Inr (take 1 s, take 16 (drop 1 s), take 33 (drop 17 s)))"
  using assms by (simp add: CalcTsetVals_def Let_def sha_write_def)

lemma CalcTsetVals_lengths:
  assumes "CalcTsetVals L stag index = Inr (b, l, k)"
  shows "length b = 1" and "length l = 16" and "length k = 33"
  using assms by (auto simp: CalcTsetVals_def Let_def gbind_Inr_iff)

lemma CalcTsetVals_Inr:
  assumes "cmac_doc L" and "length stag \<in> {16, 24, 32}"
  obtains b l k where "CalcTsetVals L stag index = Inr (b, l, k)"
    and "length b = 1" and "length l = 16" and "length k = 33"
proof -
  from CalcTsetVals_ok [OF assms, of index]
  obtain b l k where e: "CalcTsetVals L stag index = Inr (b, l, k)" by (simp add: Let_def)
  show thesis by (rule that [OF e CalcTsetVals_lengths [OF e]])
qed

lemma CalcTsetVals_bad_key:
  "cmac_doc L \<Longrightarrow> length stag \<notin> {16, 24, 32} \<Longrightarrow> CalcTsetVals L stag index = Inl NilDereference"
  by (auto simp: CalcTsetVals_def cmac_new_def cmac_doc_def)

section \<open>Properties\<close>

text \<open>The one-time pad comes off again: what the client encrypts with \<open>XorBytes(t, otp)\<close> the
  server decrypts with \<open>XorBytes(otp, c)\<close>, for every tuple as long as the pad; neither call
  panics.\<close>

theorem XorBytes_otp_roundtrip:
  assumes "length t = length otp"
  shows "gbind (XorBytes t otp) (\<lambda>c. XorBytes otp c) = Inr t"
  using assms by (rule XorBytes_cancel)

theorem XorBytes_otp_roundtrip_witness:
  "length [1, 2 :: byte] = length [7, 255 :: byte] \<and>
   gbind (XorBytes [1, 2] [7, 255]) (\<lambda>c. XorBytes [7, 255] c) = Inr [1, 2]"
  using XorBytes_otp_roundtrip [of "[1, 2]" "[7, 255]"] by simp

text \<open>\<open>UnpermuteDocId\<close> inverts \<open>PermuteDocId\<close> for every document ID, whatever follows the
  four bytes, and distinct IDs are permuted to distinct, four-byte values.\<close>

theorem PermuteDocId_roundtrip:
  "UnpermuteDocId word h (PermuteDocId word h docId @ rest) = Inr docId \<and>
   length (PermuteDocId word h docId) = 4 \<and>
   (PermuteDocId word h docId = PermuteDocId word h docId' \<longleftrightarrow> docId = docId')"
  by (simp add: UnpermuteDocId_def PermuteDocId_def be32_read_be32)

text \<open>With a search tag of an accepted key length (a CMAC tag has 16 bytes), \<open>CalcTsetVals\<close>
  does not panic and cuts the digest of \<open>F(stag, index)\<close> into one bucket byte, sixteen label
  bytes and thirty-three pad bytes, at offsets 0, 1 and 17.\<close>

theorem CalcTsetVals_total:
  assumes "cmac_doc L" and "length stag = 16"
  shows "\<exists>b l k. CalcTsetVals L stag index = Inr (b, l, k) \<and>
     b @ l @ k = take 50 (sha512 (mac L stag (be32 index))) \<and>
     length b = 1 \<and> length l = 16 \<and> length k = 33"
proof -
  let ?s = "sha512 (mac L stag (be32 index))"
  have "CalcTsetVals L stag index = Inr (take 1 ?s, take 16 (drop 1 ?s), take 33 (drop 17 ?s))"
    using CalcTsetVals_ok [of L stag index] assms by (simp add: Let_def)
  moreover have "take 1 ?s @ take 16 (drop 1 ?s) @ take 33 (drop 17 ?s) = take 50 ?s"
    using take_three [of 1 ?s 16 33] by simp
  ultimately show ?thesis by simp
qed

theorem CalcTsetVals_total_witness:
  "cmac_doc demo_prf \<and> length (replicate 16 (0 :: byte)) = 16 \<and>
   (\<exists>b l k. CalcTsetVals demo_prf (replicate 16 0) 1 = Inr (b, l, k) \<and>
     b @ l @ k = take 50 (sha512 (mac demo_prf (replicate 16 0) (be32 1))) \<and>
     length b = 1 \<and> length l = 16 \<and> length k = 33)"
  using CalcTsetVals_total [of demo_prf "replicate 16 0" 1] by simp

end
