(* ===== verification/WordCounter.thy ===== *)
theory WordCounter
  imports Prelude
begin

text \<open>
  The shared multi-counter of \<open>client_proxy/encrypted_index.go\<close>: for every word, the number of
  documents indexed so far and the last of them.  Every call runs under the counter's mutex, so
  concurrent workers amount to some sequence of calls; the theorems are about every sequence.
\<close>

record indexDocPair =
  count :: u32
  lastId :: u32

type_synonym wordIndexCounter = "string \<rightharpoonup> indexDocPair"

definition newWordIndexCounter :: wordIndexCounter where
  "newWordIndexCounter = Map.empty"

definition readThenIncrement :: "wordIndexCounter \<Rightarrow> string \<Rightarrow> u32 \<Rightarrow> u32 \<times> wordIndexCounter" where
  "readThenIncrement w term docId =
     (let pair = (case w term of None \<Rightarrow> \<lparr>count = 0, lastId = docId\<rparr> | Some p \<Rightarrow> p);
          c = count pair
      in (c, w(term \<mapsto> pair\<lparr>count := count pair + 1, lastId := docId\<rparr>)))"

text \<open>A sequence of calls, as the mutex orders them: the values returned, and the final map.\<close>

fun run_counter :: "wordIndexCounter \<Rightarrow> (string \<times> u32) list \<Rightarrow> u32 list \<times> wordIndexCounter" where
  "run_counter w [] = ([], w)"
| "run_counter w ((term, d) # calls) =
     (let (c, w') = readThenIncrement w term d; (cs, w'') = run_counter w' calls
      in (c # cs, w''))"

section \<open>The contract of a multi-counter\<close>

locale multi_counter =
  fixes empty :: "'m"
    and tick :: "'m \<Rightarrow> 'k \<Rightarrow> 'd \<Rightarrow> ('c :: semiring_1) \<times> 'm"
    and cnt :: "'m \<Rightarrow> 'k \<Rightarrow> ('c :: semiring_1)"
    and last :: "'m \<Rightarrow> 'k \<Rightarrow> 'd option"
  assumes cnt_empty: "cnt empty k = 0"
    and tick_reads: "fst (tick m k d) = cnt m k"
    and tick_cnt: "cnt (snd (tick m k d)) j = (if j = k then cnt m k + 1 else cnt m j)"
    and tick_last: "last (snd (tick m k d)) j = (if j = k then Some d else last m j)"
begin

primrec run :: "'m \<Rightarrow> ('k \<times> 'd) list \<Rightarrow> 'c list \<times> 'm" where
  "run m [] = ([], m)"
| "run m (kd # calls) =
     (let r = tick m (fst kd) (snd kd); r' = run (snd r) calls in (fst r # fst r', snd r'))"

lemma length_run: "length (fst (run m calls)) = length calls"
  by (induction calls arbitrary: m) (simp_all add: Let_def)

lemma cnt_run: "cnt (snd (run m calls)) k = cnt m k + of_nat (length (filter (\<lambda>c. fst c = k) calls))"
  by (induction calls arbitrary: m) (auto simp: Let_def tick_cnt add.assoc)

lemma last_run:
  "last (snd (run m calls)) k =
     (case filter (\<lambda>c. fst c = k) (rev calls) of [] \<Rightarrow> last m k | c # _ \<Rightarrow> Some (snd c))"
proof (induction calls arbitrary: m)
  case Nil
  then show ?case by simp
next
  case (Cons c calls)
  then show ?case by (cases "filter (\<lambda>c. fst c = k) (rev calls)") (auto simp: Let_def tick_last)
qed

text \<open>The values returned for one key are successive, whatever the other keys do.\<close>

lemma values_run:
  "map snd (filter (\<lambda>p. fst (fst p) = k) (zip calls (fst (run m calls)))) =
     map (\<lambda>i. cnt m k + of_nat i) [0..<length (filter (\<lambda>c. fst c = k) calls)]"
proof (induction calls arbitrary: m)
  case Nil
  then show ?case by simp
next
  case (Cons c calls)
  have shift: "map (\<lambda>i. x + 1 + of_nat i) [0..<n] = map (\<lambda>i. x + of_nat i) [1..<Suc n]"
    for x :: 'c and n
    by (simp add: map_Suc_upt [symmetric] del: upt_Suc) (simp add: add.assoc)
  show ?case
  proof (cases "fst c = k")
    case True
    with Cons [of "snd (tick m (fst c) (snd c))"] show ?thesis
      by (simp add: Let_def tick_reads tick_cnt shift upt_conv_Cons del: upt_Suc)
  next
    case False
    with Cons [of "snd (tick m (fst c) (snd c))"] show ?thesis
      by (simp add: Let_def tick_cnt)
  qed
qed

end

definition wc_count :: "wordIndexCounter \<Rightarrow> string \<Rightarrow> u32" where
  "wc_count w term = (case w term of None \<Rightarrow> 0 | Some p \<Rightarrow> count p)"

definition wc_last :: "wordIndexCounter \<Rightarrow> string \<Rightarrow> u32 option" where
  "wc_last w term = map_option lastId (w term)"

interpretation wc: multi_counter newWordIndexCounter readThenIncrement wc_count wc_last
  by unfold_locales
    (auto simp: newWordIndexCounter_def readThenIncrement_def wc_count_def wc_last_def Let_def
      split: option.splits)

lemma run_counter_run: "run_counter w calls = wc.run w calls"
  by (induction calls arbitrary: w) (auto simp: Let_def split: prod.splits)

lemma wc_last_new [simp]: "wc_last newWordIndexCounter word = None"
  by (simp add: wc_last_def newWordIndexCounter_def)

section \<open>Properties\<close>

text \<open>In every order of concurrent calls, the values the counter hands out for one word are
  0, 1, 2, ... (as uint32): no two postings of a word share an index and none is skipped.\<close>

theorem counter_values_successive:
  "map snd (filter (\<lambda>p. fst (fst p) = word)
      (zip calls (fst (run_counter newWordIndexCounter calls)))) =
   map of_nat [0..<length (filter (\<lambda>c. fst c = word) calls)]"
  using wc.values_run [of word calls newWordIndexCounter]
  by (simp add: run_counter_run wc.cnt_empty)

text \<open>After any sequence of calls the stored count of a word is the number of its postings
  (mod 2^32) and \<open>lastId\<close> is the document of the last call for it; a word never posted has no
  entry.\<close>

theorem counter_final_state:
  "snd (run_counter newWordIndexCounter calls) word =
     (case filter (\<lambda>c. fst c = word) (rev calls) of
        [] \<Rightarrow> None
      | c # cs \<Rightarrow> Some \<lparr>count = of_nat (Suc (length cs)), lastId = snd c\<rparr>)"
proof -
  let ?w = "snd (run_counter newWordIndexCounter calls)"
  have c: "wc_count ?w word = of_nat (length (filter (\<lambda>c. fst c = word) calls))"
    by (simp add: run_counter_run wc.cnt_run wc.cnt_empty)
  have l: "wc_last ?w word =
      (case filter (\<lambda>c. fst c = word) (rev calls) of [] \<Rightarrow> None | c # _ \<Rightarrow> Some (snd c))"
    by (simp add: run_counter_run wc.last_run split: list.split)
  have len: "length (filter (\<lambda>c. fst c = word) (rev calls)) = length (filter (\<lambda>c. fst c = word) calls)"
    by (simp add: rev_filter [symmetric])
  show ?thesis
  proof (cases "filter (\<lambda>c. fst c = word) (rev calls)")
    case Nil
    with l show ?thesis by (simp add: wc_last_def)
  next
    case (Cons d ds)
    with l obtain p where p: "?w word = Some p" "lastId p = snd d" by (auto simp: wc_last_def)
    moreover have "count p = of_nat (Suc (length ds))"
      using c p(1) len Cons by (simp add: wc_count_def)
    ultimately show ?thesis using Cons by simp
  qed
qed

end
