(* ===== verification/Keys.thy ===== *)
theory Keys
  imports Prelude
begin

text \<open>
  The key types of \<open>client_proxy/key_manager.go\<close> (a Go enum counted by iota), the number and
  size of the derived keys, and the database names they are stored under.
\<close>

datatype KeyType = WTrapKey | XTagKey | XIndKey | DHBlindKey | STagKey | DocEncKey | PermuteTweak

definition numKeys :: nat where
  "numKeys = 6"

definition keySize :: nat where
  "keySize = 32"

text \<open>\<open>KeyType(i)\<close> for the values the loops use.\<close>

fun KeyType_of :: "nat \<Rightarrow> KeyType" where
  "KeyType_of i =
     (if i = 0 then WTrapKey else if i = 1 then XTagKey else if i = 2 then XIndKey
      else if i = 3 then DHBlindKey else if i = 4 then STagKey else if i = 5 then DocEncKey
      else PermuteTweak)"

declare KeyType_of.simps [simp del]

text \<open>A missing entry of the map reads as a nil slice.\<close>

fun keyToBoltKey :: "KeyType \<Rightarrow> bytes" where
  "keyToBoltKey WTrapKey = str_bytes ''k_s''"
| "keyToBoltKey XTagKey = str_bytes ''k_x''"
| "keyToBoltKey XIndKey = str_bytes ''k_i''"
| "keyToBoltKey DHBlindKey = str_bytes ''k_z''"
| "keyToBoltKey STagKey = str_bytes ''k_t''"
| "keyToBoltKey DocEncKey = str_bytes ''doc_key''"
| "keyToBoltKey PermuteTweak = []"

definition cryptoKeyBucket :: bytes where
  "cryptoKeyBucket = str_bytes ''cryptoKeys''"

definition masterKeyName :: bytes where
  "masterKeyName = str_bytes ''master''"

type_synonym keyMap = "KeyType \<rightharpoonup> bytes"

text \<open>Reading a Go map of arrays: a missing key gives the zero array.\<close>

definition key_of :: "keyMap \<Rightarrow> KeyType \<Rightarrow> bytes" where
  "key_of m k = (case m k of None \<Rightarrow> replicate keySize 0 | Some b \<Rightarrow> b)"

definition keys_wf :: "keyMap \<Rightarrow> bool" where
  "keys_wf m \<longleftrightarrow> (\<forall>k b. m k = Some b \<longrightarrow> length b = keySize)"

lemma length_key_of [simp]: "keys_wf m \<Longrightarrow> length (key_of m k) = 32"
  by (auto simp: key_of_def keys_wf_def keySize_def split: option.splits)

lemma KeyType_of_inj: "i < numKeys \<Longrightarrow> j < numKeys \<Longrightarrow> KeyType_of i = KeyType_of j \<longleftrightarrow> i = j"
  by (auto simp: numKeys_def KeyType_of.simps split: if_splits)

fun key_index :: "KeyType \<Rightarrow> nat" where
  "key_index WTrapKey = 0" | "key_index XTagKey = 1" | "key_index XIndKey = 2"
| "key_index DHBlindKey = 3" | "key_index STagKey = 4" | "key_index DocEncKey = 5"
| "key_index PermuteTweak = 6"

lemma KeyType_of_index [simp]: "KeyType_of (key_index k) = k"
  by (cases k) (simp_all add: KeyType_of.simps)

lemma key_index_less: "key_index k < numKeys \<longleftrightarrow> k \<noteq> PermuteTweak"
  by (cases k) (simp_all add: numKeys_def)

text \<open>Key types are ordered as the enum counts them; the loops over \<open>KeyType(i)\<close> visit the stored ones
  in that order, each once.\<close>

lemma key_index_inj: "key_index j = key_index k \<longleftrightarrow> j = k"
  by (metis KeyType_of_index)

instantiation KeyType :: linorder
begin

definition less_eq_KeyType :: "KeyType \<Rightarrow> KeyType \<Rightarrow> bool" where
  "less_eq_KeyType j k \<longleftrightarrow> key_index j \<le> key_index k"

definition less_KeyType :: "KeyType \<Rightarrow> KeyType \<Rightarrow> bool" where
  "less_KeyType j k \<longleftrightarrow> key_index j < key_index k"

instance
  by standard (auto simp: less_eq_KeyType_def less_KeyType_def key_index_inj)

end

lemma stored_keys_in_order: "sorted_list_of_set (- {PermuteTweak}) = map KeyType_of [0..<numKeys]"
proof -
  have l: "map KeyType_of [0..<numKeys] = [WTrapKey, XTagKey, XIndKey, DHBlindKey, STagKey, DocEncKey]"
    by (simp add: numKeys_def upt_rec KeyType_of.simps)
  have "- {PermuteTweak} = set (map KeyType_of [0..<numKeys])"
    unfolding l by (auto intro: KeyType.exhaust)
  moreover have "sorted (map KeyType_of [0..<numKeys])" "distinct (map KeyType_of [0..<numKeys])"
    unfolding l by (simp_all add: less_eq_KeyType_def)
  ultimately show ?thesis by (simp only: sorted_list_of_set.idem_if_sorted_distinct)
qed

lemma KeyType_of_surj: "k \<noteq> PermuteTweak \<Longrightarrow> \<exists>i < numKeys. KeyType_of i = k"
  using key_index_less KeyType_of_index by blast

lemma keyToBoltKey_inj: "inj keyToBoltKey"
proof (rule injI)
  fix j k
  assume "keyToBoltKey j = keyToBoltKey k"
  then show "j = k"
    by (cases j; cases k) (simp_all add: str_bytes_def)
qed

lemma keyToBoltKey_not_master: "keyToBoltKey k \<noteq> masterKeyName"
  by (cases k) (simp_all add: masterKeyName_def str_bytes_def)

lemma keyToBoltKey_nonempty: "k \<noteq> PermuteTweak \<Longrightarrow> keyToBoltKey k \<noteq> []"
  by (cases k) (simp_all add: str_bytes_def)

text \<open>Concrete keys for the witnesses: every key is present, all zero.\<close>

definition demo_keys :: keyMap where
  "demo_keys = (\<lambda>k. Some (replicate 32 0))"

lemma keys_wf_demo [simp]: "keys_wf demo_keys"
  by (simp add: keys_wf_def demo_keys_def keySize_def)

end
