(* ===== verification/TSetIndex.thy ===== *)
theory TSetIndex
  imports TSet WordCounter Keys
begin

text \<open>
  T-set generation in \<open>client_proxy/encrypted_index.go\<close>: the blinding arithmetic, the encrypted
  tuple, \<open>tSetWorker\<close> and \<open>tSetJanitor\<close>.  The four keyed hash objects are worker state, as in the
  code; \<open>tset_cell\<close> is the specification of a cell as a function of what each PRF was fed.
\<close>

section \<open>Blinding arithmetic\<close>

text \<open>\<open>Params().P\<close> and \<open>Params().N\<close> of \<open>elliptic.P224()\<close>.\<close>

definition p224_P :: nat where
  "p224_P = 2 ^ 224 - 2 ^ 96 + 1"

definition p224_N :: nat where
  "p224_N = 26959946667150639794667015087019625940457807714424391721682722368061"

text \<open>math/big's \<open>ModInverse\<close>: nil unless the arguments are coprime.\<close>

definition big_mod_inverse :: "nat \<Rightarrow> nat \<Rightarrow> nat option" where
  "big_mod_inverse g n =
     (if n \<noteq> 0 \<and> gcd g n = 1 then Some (nat (fst (bezw g n) mod int n)) else None)"

definition computeBlindingValue :: "prf_lib \<Rightarrow> hash \<Rightarrow> string \<Rightarrow> u32 \<Rightarrow> (bytes \<times> hash) go" where
  "computeBlindingValue L prf word blindCounter =
     (let zBuffer = str_bytes word @ be32 blindCounter
      in gbind (hash_write prf zBuffer) (\<lambda>prf. gbind (hash_sum L prf) (\<lambda>z. Inr (z, prf))))"

definition computeXind :: "prf_lib \<Rightarrow> hash \<Rightarrow> u32 \<Rightarrow> (bytes \<times> hash) go" where
  "computeXind L prf ind =
     (let indBuf = be32 ind
      in gbind (hash_write prf indBuf) (\<lambda>prf. gbind (hash_sum L prf) (\<lambda>x. Inr (x, prf))))"

text \<open>Multiplying by a nil \<open>*big.Int\<close> panics.\<close>

definition computeBlindedXind :: "bytes \<Rightarrow> bytes \<Rightarrow> nat \<Rightarrow> bytes go" where
  "computeBlindedXind z xind groupOrder =
     (let zBig = big_set_bytes z; xindBig = big_set_bytes xind
      in case big_mod_inverse zBig groupOrder of
           None \<Rightarrow> Inl NilDereference
         | Some zInverse \<Rightarrow> Inr (big_bytes ((xindBig * zInverse) mod groupOrder)))"

record TSetFragment =
  Bucket :: bytes
  Label :: bytes
  Data :: bytes

definition calcTsetTuple ::
    "prf_lib \<Rightarrow> hash \<Rightarrow> string \<Rightarrow> u32 \<Rightarrow> bytes \<Rightarrow> bytes \<Rightarrow> bool \<Rightarrow> (TSetFragment \<times> hash) go" where
  "calcTsetTuple L sprf word tupleIndex permutedId blindedXind isLast =
     gbind (hash_write sprf (str_bytes word)) (\<lambda>sprf.
     gbind (hash_sum L sprf) (\<lambda>sTag.
     gbind (CalcTsetVals L sTag tupleIndex) (\<lambda>(bucket, label, otp).
       let tElement = (if isLast then [0x01] else [0x00]) @ permutedId @ blindedXind
       in gbind (XorBytes tElement otp) (\<lambda>dat.
            Inr (\<lparr>Bucket = bucket, Label = label, Data = dat\<rparr>, sprf)))))"

section \<open>The t-set worker\<close>

text \<open>
  A worker holds its upload stream (nil when the RPC failed, after \<open>abort\<close>) and its PRFs.  The
  events are what it does to the outside: sends on the stream, the final close, calls of \<open>abort\<close>.
  \<open>sendOk\<close> says which sends succeed.
\<close>

record tset_worker =
  tw_stream :: bool
  tw_xInd :: hash
  tw_blind :: hash
  tw_wTrap :: hash
  tw_sTag :: hash

datatype tset_event = SendFrag TSetFragment | CloseAndRecv | CallAbort

definition tSetWorker_init :: "prf_lib \<Rightarrow> keyMap \<Rightarrow> bool \<Rightarrow> tset_worker \<times> tset_event list" where
  "tSetWorker_init L K streamOk =
     (\<lparr>tw_stream = streamOk,
       tw_xInd = cmac_new L (key_of K XIndKey),
       tw_blind = cmac_new L (key_of K DHBlindKey),
       tw_wTrap = cmac_new L (key_of K WTrapKey),
       tw_sTag = cmac_new L (key_of K STagKey)\<rparr>,
      if streamOk then [] else [CallAbort])"

definition send_fragment :: "(TSetFragment \<Rightarrow> bool) \<Rightarrow> tset_worker \<Rightarrow> TSetFragment \<Rightarrow> tset_event list go" where
  "send_fragment sendOk w f =
     (if tw_stream w then Inr (SendFrag f # (if sendOk f then [] else [CallAbort]))
      else Inl NilDereference)"

text \<open>The tuple for one word: shared by the worker's loop body and the janitor's.\<close>

definition tset_tuple ::
    "prf_lib \<Rightarrow> string \<Rightarrow> u32 \<Rightarrow> u32 \<Rightarrow> u32 \<Rightarrow> bool \<Rightarrow> tset_worker \<Rightarrow> (TSetFragment \<times> tset_worker) go" where
  "tset_tuple L word blindCounter docCounter docId isLast w =
     gbind (computeBlindingValue L (tw_blind w) word blindCounter) (\<lambda>(z, blindPRF).
     gbind (computeXind L (tw_xInd w) docId) (\<lambda>(xind, xIndPRF).
     gbind (computeBlindedXind z xind p224_P) (\<lambda>y.
       let eId = PermuteDocId word (tw_wTrap w) docId
       in gbind (calcTsetTuple L (tw_sTag w) word docCounter eId y isLast) (\<lambda>(tSetShard, sTagPRF).
            Inr (tSetShard, w\<lparr>tw_blind := blindPRF, tw_xInd := xIndPRF, tw_sTag := sTagPRF\<rparr>)))))"

definition reset_prfs :: "tset_worker \<Rightarrow> tset_worker go" where
  "reset_prfs w =
     gbind (hash_reset (tw_wTrap w)) (\<lambda>wTrap.
     gbind (hash_reset (tw_sTag w)) (\<lambda>sTag.
     gbind (hash_reset (tw_blind w)) (\<lambda>blind.
     gbind (hash_reset (tw_xInd w)) (\<lambda>xInd.
       Inr (w\<lparr>tw_wTrap := wTrap, tw_sTag := sTag, tw_blind := blind, tw_xInd := xInd\<rparr>)))))"

definition tSetWorker_word ::
    "prf_lib \<Rightarrow> (TSetFragment \<Rightarrow> bool) \<Rightarrow> u32 \<Rightarrow> string \<Rightarrow> wordIndexCounter \<Rightarrow> tset_worker
       \<Rightarrow> (wordIndexCounter \<times> tset_worker \<times> tset_event list) go" where
  "tSetWorker_word L sendOk docId word ctr w =
     (let (blindCounter, ctr') = readThenIncrement ctr word docId;
          docCounter = blindCounter + 1
      in gbind (tset_tuple L word blindCounter docCounter docId False w) (\<lambda>(tSetShard, w').
         gbind (send_fragment sendOk w' tSetShard) (\<lambda>evs. Inr (ctr', w', evs))))"

fun tSetWorker_words ::
    "prf_lib \<Rightarrow> (TSetFragment \<Rightarrow> bool) \<Rightarrow> u32 \<Rightarrow> string list \<Rightarrow> wordIndexCounter \<Rightarrow> tset_worker
       \<Rightarrow> (wordIndexCounter \<times> tset_worker \<times> tset_event list) go" where
  "tSetWorker_words L sendOk docId [] ctr w = Inr (ctr, w, [])"
| "tSetWorker_words L sendOk docId (word # ws) ctr w =
     gbind (tSetWorker_word L sendOk docId word ctr w) (\<lambda>(ctr', w', evs).
     gbind (tSetWorker_words L sendOk docId ws ctr' w') (\<lambda>(ctr'', w'', evs').
       Inr (ctr'', w'', evs @ evs')))"

text \<open>One document, its words in the order the map iteration gives: the PRFs are reset after
  the loop over the words, not inside it.\<close>

definition tSetWorker_doc ::
    "prf_lib \<Rightarrow> (TSetFragment \<Rightarrow> bool) \<Rightarrow> u32 \<Rightarrow> string list \<Rightarrow> wordIndexCounter \<Rightarrow> tset_worker
       \<Rightarrow> (wordIndexCounter \<times> tset_worker \<times> tset_event list) go" where
  "tSetWorker_doc L sendOk docId ws ctr w =
     gbind (tSetWorker_words L sendOk docId ws ctr w) (\<lambda>(ctr', w', evs).
     gbind (reset_prfs w') (\<lambda>w''. Inr (ctr', w'', evs)))"

text \<open>The documents a worker takes off its channel, until the channel is closed or \<open>quit\<close> is.\<close>

datatype loop_end = ChannelClosed | QuitClosed

fun tSetWorker_run ::
    "prf_lib \<Rightarrow> (TSetFragment \<Rightarrow> bool) \<Rightarrow> loop_end \<Rightarrow> (u32 \<times> string list) list \<Rightarrow> wordIndexCounter \<Rightarrow> tset_worker
       \<Rightarrow> (wordIndexCounter \<times> tset_worker \<times> tset_event list) go" where
  "tSetWorker_run L sendOk fin [] ctr w =
     (case fin of
        QuitClosed \<Rightarrow> Inr (ctr, w, [])
      | ChannelClosed \<Rightarrow>
          if tw_stream w then Inr (ctr, w, [CloseAndRecv]) else Inl NilDereference)"
| "tSetWorker_run L sendOk fin ((docId, ws) # docs) ctr w =
     gbind (tSetWorker_doc L sendOk docId ws ctr w) (\<lambda>(ctr', w', evs).
     gbind (tSetWorker_run L sendOk fin docs ctr' w') (\<lambda>(ctr'', w'', evs').
       Inr (ctr'', w'', evs @ evs')))"

definition tSetWorker ::
    "prf_lib \<Rightarrow> keyMap \<Rightarrow> bool \<Rightarrow> (TSetFragment \<Rightarrow> bool) \<Rightarrow> loop_end \<Rightarrow> (u32 \<times> string list) list \<Rightarrow> wordIndexCounter
       \<Rightarrow> (wordIndexCounter \<times> tset_worker \<times> tset_event list) go" where
  "tSetWorker L K streamOk sendOk fin docs ctr =
     (let (w, evs) = tSetWorker_init L K streamOk
      in gbind (tSetWorker_run L sendOk fin docs ctr w) (\<lambda>(ctr', w', evs'). Inr (ctr', w', evs @ evs')))"

section \<open>The janitor\<close>

text \<open>
  When every worker has left, the janitor walks the counter (in the order of the map iteration)
  and sends one closing tuple per word, resetting the PRFs after each.
\<close>

definition tSetJanitor_word ::
    "prf_lib \<Rightarrow> (TSetFragment \<Rightarrow> bool) \<Rightarrow> string \<Rightarrow> indexDocPair \<Rightarrow> tset_worker
       \<Rightarrow> (tset_worker \<times> tset_event list) go" where
  "tSetJanitor_word L sendOk word pair w =
     (let blindCounter = count pair; docIndex = count pair + 1; docId = lastId pair
      in gbind (tset_tuple L word blindCounter docIndex docId True w) (\<lambda>(tSetShard, w').
         gbind (send_fragment sendOk w' tSetShard) (\<lambda>evs.
         gbind (reset_prfs w') (\<lambda>w''. Inr (w'', evs)))))"

fun tSetJanitor_run ::
    "prf_lib \<Rightarrow> (TSetFragment \<Rightarrow> bool) \<Rightarrow> (string \<times> indexDocPair) list \<Rightarrow> tset_worker
       \<Rightarrow> (tset_worker \<times> tset_event list) go" where
  "tSetJanitor_run L sendOk [] w =
     (if tw_stream w then Inr (w, [CloseAndRecv]) else Inl NilDereference)"
| "tSetJanitor_run L sendOk ((word, pair) # kvs) w =
     gbind (tSetJanitor_word L sendOk word pair w) (\<lambda>(w', evs).
     gbind (tSetJanitor_run L sendOk kvs w') (\<lambda>(w'', evs'). Inr (w'', evs @ evs')))"

definition tSetJanitor ::
    "prf_lib \<Rightarrow> keyMap \<Rightarrow> bool \<Rightarrow> (TSetFragment \<Rightarrow> bool) \<Rightarrow> (string \<times> indexDocPair) list
       \<Rightarrow> (tset_worker \<times> tset_event list) go" where
  "tSetJanitor L K streamOk sendOk kvs =
     (let (w, evs) = tSetWorker_init L K streamOk
      in gbind (tSetJanitor_run L sendOk kvs w) (\<lambda>(w', evs'). Inr (w', evs @ evs')))"

section \<open>Lemmas: arithmetic and cells\<close>

lemma p224_P_pos [simp]: "0 < p224_P"
  by (simp add: p224_P_def)

lemma p224_P_neq_1 [simp]: "p224_P \<noteq> Suc 0"
  by (simp add: p224_P_def)

lemma odd_p224_P [simp]: "odd p224_P"
  by (simp add: p224_P_def)

lemma p224_P_less: "p224_P < 256 ^ 28"
  by (simp add: p224_P_def)

lemma big_mod_inverse_correct:
  assumes "big_mod_inverse g n = Some i"
  shows "i < n" and "(g * i) mod n = 1 mod n"
proof -
  from assms have n: "n \<noteq> 0" and g: "gcd g n = 1"
    and i: "i = nat (fst (bezw g n) mod int n)"
    by (auto simp: big_mod_inverse_def split: if_splits)
  then have int_i: "int i = fst (bezw g n) mod int n" by simp
  then have "int i < int n" using n by simp
  then show "i < n" by simp
  have "fst (bezw g n) * int g + snd (bezw g n) * int n = 1"
    using bezw_aux [of g n] g by simp
  then have "(fst (bezw g n) * int g) mod int n = 1 mod int n"
    by (metis mod_mult_self1)
  then have "(int g * int i) mod int n = 1 mod int n"
    unfolding int_i by (simp add: mod_mult_right_eq mult.commute)
  then have "int ((g * i) mod n) = int (1 mod n)"
    by (simp only: of_nat_mod of_nat_mult of_nat_1)
  then show "(g * i) mod n = 1 mod n" by (simp only: of_nat_eq_iff)
qed

lemma big_mod_inverse_Some:
  "0 < n \<Longrightarrow> coprime g n \<Longrightarrow> \<exists>i. big_mod_inverse g n = Some i"
  by (simp add: big_mod_inverse_def coprime_iff_gcd_eq_1)

lemma computeBlindedXind_Inr:
  assumes "computeBlindedXind z xind n = Inr y"
  obtains i where "big_mod_inverse (big_set_bytes z) n = Some i"
    and "y = big_bytes ((big_set_bytes xind * i) mod n)"
  using assms by (auto simp: computeBlindedXind_def Let_def split: option.splits)

lemma computeBlindedXind_length:
  assumes "computeBlindedXind z xind p224_P = Inr y"
  shows "length y \<le> 28"
proof -
  obtain a where "y = big_bytes (a mod p224_P)"
    using assms by (rule computeBlindedXind_Inr)
  moreover have "a mod p224_P < 256 ^ 28"
    by (rule less_trans [OF mod_less_divisor p224_P_less]) simp
  ultimately show ?thesis by (simp add: length_big_bytes)
qed

definition blinds_ok :: "prf_lib \<Rightarrow> keyMap \<Rightarrow> bool" where
  "blinds_ok L K \<longleftrightarrow> (\<forall>m. coprime (big_set_bytes (mac L (key_of K DHBlindKey) m)) p224_P)"

text \<open>
  The specification of a cell: what the tuple for document \<open>did\<close> at index \<open>idx\<close> is when the
  search-tag PRF was fed \<open>sin\<close>, the blinding PRF \<open>bin\<close> and the document PRF \<open>xin\<close>.
\<close>

definition tset_cell ::
    "prf_lib \<Rightarrow> keyMap \<Rightarrow> bytes \<Rightarrow> bytes \<Rightarrow> bytes \<Rightarrow> u32 \<Rightarrow> u32 \<Rightarrow> bool \<Rightarrow> TSetFragment go" where
  "tset_cell L K sin bin xin idx did isLast =
     gbind (computeBlindedXind (mac L (key_of K DHBlindKey) bin) (mac L (key_of K XIndKey) xin) p224_P)
       (\<lambda>y. gbind (CalcTsetVals L (mac L (key_of K STagKey) sin) idx) (\<lambda>(b, l, k).
         gbind (XorBytes ((if isLast then [0x01] else [0x00]) @ be32 did @ y) k) (\<lambda>d.
           Inr \<lparr>Bucket = b, Label = l, Data = d\<rparr>)))"

text \<open>The cell the OXT protocol prescribes for the \<open>c\<close>-th posting of a word: every PRF is fed the
  one value it names.\<close>

definition oxt_cell :: "prf_lib \<Rightarrow> keyMap \<Rightarrow> string \<Rightarrow> u32 \<Rightarrow> u32 \<Rightarrow> bool \<Rightarrow> TSetFragment go" where
  "oxt_cell L K word c did isLast =
     tset_cell L K (str_bytes word) (str_bytes word @ be32 c) (be32 did) (c + 1) did isLast"

lemma tset_cell_ok:
  assumes "cmac_doc L" and "blinds_ok L K"
  shows "\<exists>f. tset_cell L K sin bin xin idx did isLast = Inr f \<and>
     length (Bucket f) = 1 \<and> length (Label f) = 16 \<and> length (Data f) \<le> 33 \<and> 5 \<le> length (Data f)"
proof -
  define z where "z = mac L (key_of K DHBlindKey) bin"
  define x where "x = mac L (key_of K XIndKey) xin"
  have "coprime (big_set_bytes z) p224_P" using assms(2) by (simp add: blinds_ok_def z_def)
  then obtain y where y: "computeBlindedXind z x p224_P = Inr y"
    using big_mod_inverse_Some [of p224_P "big_set_bytes z"]
    by (auto simp: computeBlindedXind_def Let_def)
  have len: "length y \<le> 28" using y by (rule computeBlindedXind_length)
  obtain b l k where v: "CalcTsetVals L (mac L (key_of K STagKey) sin) idx = Inr (b, l, k)"
    and lens: "length b = 1" "length l = 16" "length k = 33"
    using assms(1) by (auto intro: CalcTsetVals_Inr [of L "mac L (key_of K STagKey) sin" idx])
  have "XorBytes ((if isLast then [0x01] else [0x00]) @ be32 did @ y) k =
      Inr (map2 (XOR) ((if isLast then [0x01] else [0x00]) @ be32 did @ y) k)"
    using len lens by (intro XorBytes_map2) simp
  with y v lens len show ?thesis
    by (simp add: tset_cell_def z_def x_def)
qed

section \<open>Lemmas: workers\<close>

text \<open>A worker whose PRFs have been fed \<open>s\<close> (search tag), \<open>b\<close> (blinding) and \<open>x\<close> (document).\<close>

definition worker_at :: "keyMap \<Rightarrow> bytes \<Rightarrow> bytes \<Rightarrow> bytes \<Rightarrow> tset_worker" where
  "worker_at K s b x =
     \<lparr>tw_stream = True,
      tw_xInd = Some \<lparr>hkey = key_of K XIndKey, hbuf = x\<rparr>,
      tw_blind = Some \<lparr>hkey = key_of K DHBlindKey, hbuf = b\<rparr>,
      tw_wTrap = Some \<lparr>hkey = key_of K WTrapKey, hbuf = []\<rparr>,
      tw_sTag = Some \<lparr>hkey = key_of K STagKey, hbuf = s\<rparr>\<rparr>"

abbreviation fresh_worker :: "keyMap \<Rightarrow> tset_worker" where
  "fresh_worker K \<equiv> worker_at K [] [] []"

definition emitted :: "(TSetFragment \<Rightarrow> bool) \<Rightarrow> TSetFragment list \<Rightarrow> tset_event list" where
  "emitted sendOk fs = concat (map (\<lambda>f. SendFrag f # (if sendOk f then [] else [CallAbort])) fs)"

lemma emitted_simps [simp]:
  "emitted sendOk [] = []"
  "emitted sendOk (f # fs) =
     (SendFrag f # (if sendOk f then [] else [CallAbort])) @ emitted sendOk fs"
  by (simp_all add: emitted_def)

lemma tSetWorker_init_at:
  "cmac_doc L \<Longrightarrow> keys_wf K \<Longrightarrow> tSetWorker_init L K True = (fresh_worker K, [])"
  by (simp add: tSetWorker_init_def worker_at_def)

lemma reset_prfs_at [simp]: "reset_prfs (worker_at K s b x) = Inr (fresh_worker K)"
  by (simp add: reset_prfs_def worker_at_def)

lemma send_fragment_at [simp]:
  "send_fragment sendOk (worker_at K s b x) f = Inr (emitted sendOk [f])"
  by (simp add: send_fragment_def worker_at_def)

lemma tset_tuple_at:
  "tset_tuple L word c idx did isLast (worker_at K s b x) =
     gbind (tset_cell L K (s @ str_bytes word) (b @ str_bytes word @ be32 c) (x @ be32 did) idx did isLast)
       (\<lambda>f. Inr (f, worker_at K (s @ str_bytes word) (b @ str_bytes word @ be32 c) (x @ be32 did)))"
  by (simp add: tset_tuple_def tset_cell_def computeBlindingValue_def computeXind_def
      calcTsetTuple_def PermuteDocId_def worker_at_def gbind_assoc Let_def split_def)

text \<open>The cells of one document, word by word, with what the PRFs have been fed so far.\<close>

fun cells_from ::
    "prf_lib \<Rightarrow> keyMap \<Rightarrow> u32 \<Rightarrow> bytes \<Rightarrow> bytes \<Rightarrow> bytes \<Rightarrow> (string \<times> u32) list \<Rightarrow> TSetFragment go list" where
  "cells_from L K did s b x [] = []"
| "cells_from L K did s b x ((w, c) # wcs) =
     (let s' = s @ str_bytes w; b' = b @ str_bytes w @ be32 c; x' = x @ be32 did
      in tset_cell L K s' b' x' (c + 1) did False # cells_from L K did s' b' x' wcs)"

lemma length_cells_from [simp]: "length (cells_from L K did s b x wcs) = length wcs"
  by (induction L K did s b x wcs rule: cells_from.induct) (simp_all add: Let_def)

text \<open>In closed form: the \<open>k\<close>-th cell is computed from the first \<open>k + 1\<close> words.\<close>

lemma cells_from_nth:
  "k < length wcs \<Longrightarrow> cells_from L K did s b x wcs ! k =
     tset_cell L K (s @ concat (map (str_bytes \<circ> fst) (take (Suc k) wcs)))
       (b @ concat (map (\<lambda>(w, c). str_bytes w @ be32 c) (take (Suc k) wcs)))
       (x @ concat (replicate (Suc k) (be32 did))) (snd (wcs ! k) + 1) did False"
proof (induction L K did s b x wcs arbitrary: k rule: cells_from.induct)
  case (1 L K did s b x)
  then show ?case by simp
next
  case (2 L K did s b x w c wcs)
  then show ?case by (cases k) (simp_all add: Let_def)
qed

lemma tset_cell_projr:
  assumes "cmac_doc L" and "blinds_ok L K"
  shows "Inr (projr (tset_cell L K sin bin xin idx did isLast)) =
      tset_cell L K sin bin xin idx did isLast"
proof -
  obtain f where "tset_cell L K sin bin xin idx did isLast = Inr f"
    using tset_cell_ok [OF assms] by blast
  then show ?thesis by simp
qed

lemma cells_from_ok:
  assumes "cmac_doc L" and "blinds_ok L K"
  shows "map Inr (map projr (cells_from L K did s b x wcs)) = cells_from L K did s b x wcs"
proof (induction wcs arbitrary: s b x)
  case Nil
  then show ?case by simp
next
  case (Cons wc wcs)
  then show ?case
    by (cases wc) (simp add: Let_def tset_cell_projr [OF assms])
qed

lemma tSetWorker_words_at:
  assumes "cmac_doc L" and "blinds_ok L K"
  shows "\<exists>s' b' x'. tSetWorker_words L sendOk did ws ctr (worker_at K s b x) =
      Inr (snd (run_counter ctr (map (\<lambda>w. (w, did)) ws)), worker_at K s' b' x',
        emitted sendOk (map projr
          (cells_from L K did s b x (zip ws (fst (run_counter ctr (map (\<lambda>w. (w, did)) ws)))))))"
proof (induction ws arbitrary: ctr s b x)
  case Nil
  then show ?case by auto
next
  case (Cons w ws)
  obtain c ctr' where r: "readThenIncrement ctr w did = (c, ctr')" by fastforce
  obtain cs ctr'' where rc: "run_counter ctr' (map (\<lambda>w. (w, did)) ws) = (cs, ctr'')" by fastforce
  obtain f where f: "tset_cell L K (s @ str_bytes w) (b @ str_bytes w @ be32 c) (x @ be32 did)
      (c + 1) did False = Inr f"
    using tset_cell_ok [OF assms] by blast
  from Cons [of ctr' "s @ str_bytes w" "b @ str_bytes w @ be32 c" "x @ be32 did"] rc
  obtain s' b' x' where IH: "tSetWorker_words L sendOk did ws ctr'
      (worker_at K (s @ str_bytes w) (b @ str_bytes w @ be32 c) (x @ be32 did)) =
    Inr (ctr'', worker_at K s' b' x', emitted sendOk (map projr
      (cells_from L K did (s @ str_bytes w) (b @ str_bytes w @ be32 c) (x @ be32 did) (zip ws cs))))"
    by auto
  show ?case
    by (intro exI [of _ s'] exI [of _ b'] exI [of _ x'])
      (simp add: tSetWorker_word_def tset_tuple_at r rc f IH Let_def)
qed

text \<open>A document leaves the worker as it found it; its fragments are the cells above.\<close>

lemma tSetWorker_doc_at:
  assumes "cmac_doc L" and "blinds_ok L K"
    and "run_counter ctr (map (\<lambda>w. (w, did)) ws) = (cs, ctr')"
  shows "tSetWorker_doc L sendOk did ws ctr (fresh_worker K) =
      Inr (ctr', fresh_worker K, emitted sendOk (map projr (cells_from L K did [] [] [] (zip ws cs))))"
  using tSetWorker_words_at [OF assms(1,2), of sendOk did ws ctr "[]" "[]" "[]"] assms(3)
  by (auto simp: tSetWorker_doc_def)

lemma tSetJanitor_word_at:
  assumes "cmac_doc L" and "blinds_ok L K"
  shows "tSetJanitor_word L sendOk word pair (fresh_worker K) =
      Inr (fresh_worker K, emitted sendOk [projr (oxt_cell L K word (count pair) (lastId pair) True)])"
proof -
  obtain f where "oxt_cell L K word (count pair) (lastId pair) True = Inr f"
    using tset_cell_ok [OF assms] unfolding oxt_cell_def by blast
  then show ?thesis
    by (simp add: tSetJanitor_word_def tset_tuple_at oxt_cell_def Let_def)
qed

lemma tSetJanitor_run_at:
  assumes "cmac_doc L" and "blinds_ok L K"
  shows "tSetJanitor_run L sendOk kvs (fresh_worker K) =
      Inr (fresh_worker K,
        emitted sendOk (map (\<lambda>(w, p). projr (oxt_cell L K w (count p) (lastId p) True)) kvs)
          @ [CloseAndRecv])"
proof (induction kvs)
  case Nil
  then show ?case by (simp add: worker_at_def)
next
  case (Cons kv kvs)
  then show ?case
    by (cases kv) (simp add: tSetJanitor_word_at [OF assms])
qed

section \<open>Properties\<close>

text \<open>\<open>computeBlindedXind\<close> divides: its result is the reduced, at most 28-byte encoding of a
  number \<open>y\<close> with \<open>y * z = xind\<close> modulo the given order (\<open>y = xind * z^-1\<close>), and it panics
  exactly when \<open>z\<close> has no inverse.\<close>

theorem computeBlindedXind_inverse:
  "case computeBlindedXind z xind p224_P of
     Inl p \<Rightarrow> p = NilDereference \<and> \<not> coprime (big_set_bytes z) p224_P
   | Inr y \<Rightarrow> coprime (big_set_bytes z) p224_P \<and> length y \<le> 28 \<and> big_set_bytes y < p224_P \<and>
       (big_set_bytes y * big_set_bytes z) mod p224_P = big_set_bytes xind mod p224_P"
proof (cases "computeBlindedXind z xind p224_P")
  case (Inl p)
  then show ?thesis
    using big_mod_inverse_Some [of p224_P "big_set_bytes z"]
    by (auto simp: computeBlindedXind_def Let_def split: option.splits)
next
  case (Inr y)
  then obtain i where i: "big_mod_inverse (big_set_bytes z) p224_P = Some i"
    and y: "y = big_bytes ((big_set_bytes xind * i) mod p224_P)"
    by (rule computeBlindedXind_Inr)
  have cop: "coprime (big_set_bytes z) p224_P"
    using i by (auto simp: big_mod_inverse_def coprime_iff_gcd_eq_1 split: if_splits)
  have "((big_set_bytes xind * i) mod p224_P * big_set_bytes z) mod p224_P =
      (big_set_bytes xind * ((big_set_bytes z * i) mod p224_P)) mod p224_P"
    by (simp add: mod_mult_left_eq mod_mult_right_eq mult_ac)
  also have "\<dots> = big_set_bytes xind mod p224_P"
    by (simp add: big_mod_inverse_correct(2) [OF i] mod_mult_right_eq)
  finally show ?thesis
    using Inr cop computeBlindedXind_length [OF Inr] by (simp add: y)
qed


lemma blinds_ok_demo [simp]: "blinds_ok demo_prf demo_keys"
  by (simp add: blinds_ok_def)


text \<open>The search tag a worker uses for the second word of a document is the PRF of the two
  words run together, not of the word: the cell is addressed by \<open>F(K_t, w1 || w2)\<close>, while a
  search for \<open>w2\<close> asks for \<open>F(K_t, w2)\<close>.\<close>

theorem tSetWorker_second_word_stag:
  assumes "cmac_doc L" and "blinds_ok L K" and "w1 \<noteq> []"
    and "tSetWorker_doc L sendOk did [w1, w2] ctr (fresh_worker K) = Inr (ctr', w, evs)"
  shows "\<exists>f1 f2 b l k. evs = emitted sendOk [f1, f2] \<and>
      CalcTsetVals L (mac L (key_of K STagKey) (str_bytes (w1 @ w2)))
        (fst (readThenIncrement (snd (readThenIncrement ctr w1 did)) w2 did) + 1) = Inr (b, l, k) \<and>
      Bucket f2 = b \<and> Label f2 = l \<and> str_bytes (w1 @ w2) \<noteq> str_bytes w2"
proof -
  obtain c1 ctr1 where r1: "readThenIncrement ctr w1 did = (c1, ctr1)" by fastforce
  obtain c2 ctr2 where r2: "readThenIncrement ctr1 w2 did = (c2, ctr2)" by fastforce
  have "run_counter ctr (map (\<lambda>w. (w, did)) [w1, w2]) = ([c1, c2], ctr2)"
    by (simp add: r1 r2)
  from tSetWorker_doc_at [OF assms(1,2) this, of sendOk] assms(4)
  have evs: "evs = emitted sendOk (map projr (cells_from L K did [] [] [] [(w1, c1), (w2, c2)]))"
    by simp
  let ?m = "tset_cell L K (str_bytes w1 @ str_bytes w2)
      ((str_bytes w1 @ be32 c1) @ str_bytes w2 @ be32 c2) (be32 did @ be32 did) (c2 + 1) did False"
  obtain f2 where f2: "?m = Inr f2" using tset_cell_ok [OF assms(1,2)] by blast
  obtain b l k where v: "CalcTsetVals L (mac L (key_of K STagKey) (str_bytes w1 @ str_bytes w2))
      (c2 + 1) = Inr (b, l, k)"
    using assms(1) by (auto intro: CalcTsetVals_Inr [of L "mac L (key_of K STagKey) (str_bytes w1 @ str_bytes w2)" "c2 + 1"])
  from f2 v have "Bucket f2 = b" "Label f2 = l"
    by (auto simp: tset_cell_def gbind_Inr_iff)
  moreover have "evs = emitted sendOk
      [projr (tset_cell L K (str_bytes w1) (str_bytes w1 @ be32 c1) (be32 did) (c1 + 1) did False), f2]"
    using evs f2 by (simp add: Let_def)
  ultimately show ?thesis using v assms(3)
    by (intro exI conjI) (assumption | simp add: r1 r2)+
qed

theorem tSetWorker_second_word_stag_witness:
  "\<exists>f1 f2 b l k evs.
      tSetWorker_doc demo_prf (\<lambda>_. True) 7 [''ab'', ''c''] Map.empty (fresh_worker demo_keys) =
        Inr (snd (run_counter Map.empty [(''ab'', 7), (''c'', 7)]), fresh_worker demo_keys, evs) \<and>
      evs = emitted (\<lambda>_. True) [f1, f2] \<and>
      CalcTsetVals demo_prf (mac demo_prf (key_of demo_keys STagKey) (str_bytes ''abc'')) 1 =
        Inr (b, l, k) \<and> Bucket f2 = b \<and> Label f2 = l"
proof -
  obtain evs where e: "tSetWorker_doc demo_prf (\<lambda>_. True) 7 [''ab'', ''c''] Map.empty
      (fresh_worker demo_keys) =
    Inr (snd (run_counter Map.empty [(''ab'', 7), (''c'', 7)]), fresh_worker demo_keys, evs)"
    using tSetWorker_doc_at [OF cmac_doc_demo blinds_ok_demo prod.collapse [symmetric],
        where ctr = Map.empty and did = 7 and ws = "[''ab'', ''c'']" and sendOk = "\<lambda>_. True"]
    by auto
  from tSetWorker_second_word_stag [OF cmac_doc_demo blinds_ok_demo _ this]
  show ?thesis using e by (auto simp: readThenIncrement_def)
qed



text \<open>The calls a run of documents makes of the counter, and the fragments among a run's events.\<close>

definition postings :: "(u32 \<times> string list) list \<Rightarrow> (string \<times> u32) list" where
  "postings docs = concat (map (\<lambda>(d, ws). map (\<lambda>w. (w, d)) ws) docs)"

fun sent :: "tset_event list \<Rightarrow> TSetFragment list" where
  "sent [] = []"
| "sent (SendFrag f # evs) = f # sent evs"
| "sent (_ # evs) = sent evs"

lemma sent_append [simp]: "sent (a @ b) = sent a @ sent b"
  by (induction a rule: sent.induct) simp_all

lemma sent_emitted [simp]: "sent (emitted sendOk fs) = fs"
  by (induction fs) simp_all

lemma run_counter_append:
  "run_counter ctr (as @ bs) =
     (fst (run_counter ctr as) @ fst (run_counter (snd (run_counter ctr as)) bs),
      snd (run_counter (snd (run_counter ctr as)) bs))"
  by (induction as arbitrary: ctr) (auto simp: Let_def split: prod.splits)

text \<open>A fragment of the sizes the server's database takes: bucket, label, and flag, document ID and at
  most 28 bytes of blinded value.\<close>

definition fragment_sized :: "TSetFragment \<Rightarrow> bool" where
  "fragment_sized f \<longleftrightarrow>
     length (Bucket f) = 1 \<and> length (Label f) = 16 \<and> 5 \<le> length (Data f) \<and> length (Data f) \<le> 33"

lemma cells_from_sized:
  assumes "cmac_doc L" and "blinds_ok L K"
  shows "\<forall>f \<in> set (map projr (cells_from L K did s b x wcs)). fragment_sized f"
proof (induction wcs arbitrary: s b x)
  case Nil
  then show ?case by simp
next
  case (Cons wc wcs)
  obtain w c where wc: "wc = (w, c)" by fastforce
  obtain f where "tset_cell L K (s @ str_bytes w) (b @ str_bytes w @ be32 c) (x @ be32 did) (c + 1) did False = Inr f"
    "fragment_sized f"
    using tset_cell_ok [OF assms] unfolding fragment_sized_def by blast
  with Cons show ?case by (simp add: wc Let_def)
qed

lemma tSetWorker_run_total:
  assumes "cmac_doc L" and "blinds_ok L K"
  shows "\<exists>evs. tSetWorker_run L sendOk fin docs ctr (fresh_worker K) =
      Inr (snd (run_counter ctr (postings docs)), fresh_worker K, evs) \<and>
      length (sent evs) = length (postings docs) \<and>
      (CloseAndRecv \<in> set evs \<longleftrightarrow> fin = ChannelClosed) \<and> (\<forall>f \<in> set (sent evs). fragment_sized f)"
proof (induction docs arbitrary: ctr)
  case Nil
  then show ?case by (cases fin) (simp_all add: worker_at_def postings_def)
next
  case (Cons doc docs)
  obtain did ws where doc: "doc = (did, ws)" by fastforce
  obtain cs ctr' where rc: "run_counter ctr (map (\<lambda>w. (w, did)) ws) = (cs, ctr')" by fastforce
  let ?fs = "map projr (cells_from L K did [] [] [] (zip ws cs))"
  have len: "length cs = length ws"
    using arg_cong [OF rc, of "\<lambda>r. length (fst r)"] by (simp add: run_counter_run wc.length_run)
  obtain evs where IH: "tSetWorker_run L sendOk fin docs ctr' (fresh_worker K) =
      Inr (snd (run_counter ctr' (postings docs)), fresh_worker K, evs)"
    "length (sent evs) = length (postings docs)"
    "CloseAndRecv \<in> set evs \<longleftrightarrow> fin = ChannelClosed" "\<forall>f \<in> set (sent evs). fragment_sized f"
    using Cons by blast
  have "CloseAndRecv \<notin> set (emitted sendOk ?fs)"
    by (auto simp: emitted_def split: if_splits)
  then show ?case
    using IH len cells_from_sized [OF assms, of did "[]" "[]" "[]" "zip ws cs"]
    by (intro exI [of _ "emitted sendOk ?fs @ evs"])
      (auto simp: doc tSetWorker_doc_at [OF assms rc] postings_def rc run_counter_append)
qed





end
