(* ===== verification/IndexSearcher.thy ===== *)
theory IndexSearcher
  imports TSetIndex Bolt
begin

text \<open>
  The encrypted index of \<open>server/encrypted_searcher.go\<close>: start and stop, the x-set filter, the
  t-set meta data, \<open>tSetWriter\<close>, \<open>tupleFetcher\<close> and \<open>tSetReader\<close>.  The database is the bolt
  parameter; decoding a gob into a filter is the parameter \<open>dec\<close>, and \<open>sort.Sort\<close>, which leaves the
  order of ties open, is a parameter with its contract \<open>sort_doc\<close>.
\<close>

definition indexBucketKey :: bytes where
  "indexBucketKey = str_bytes ''index''"

definition tSetBucketKey :: bytes where
  "tSetBucketKey = str_bytes ''tset''"

definition xSetKey :: bytes where
  "xSetKey = str_bytes ''xset''"

definition numTsetWriters :: nat where
  "numTsetWriters = 2"

definition searchChunkSize :: u32 where
  "searchChunkSize = 20"

record MetaData =
  NumEidBytes :: "32 word"
  NumBlindBytes :: "32 word"

text \<open>A nil slice is \<open>None\<close>.\<close>

record tupleData =
  eId :: "bytes option"
  blindingVal :: "bytes option"
  workerIndex :: u32
  isLast :: bool

record ('s, 'f) index_searcher =
  indexDb :: 's
  index_started :: u32
  index_shutdown :: u32
  index_quitClosed :: bool
  xSet :: "'f option"
  tSetMetaData :: "MetaData option"
  isMetaLoaded :: bool
  metaDataRecived :: bool
  tWriteReqs :: "TSetFragment list"
  tReadReqs :: "bytes list"
  index_wg :: nat

definition NewEncryptedIndexSearcher :: "'s \<Rightarrow> ('s, 'f) index_searcher" where
  "NewEncryptedIndexSearcher s =
     \<lparr>indexDb = s, index_started = 0, index_shutdown = 0, index_quitClosed = False, xSet = None, tSetMetaData = None,
      isMetaLoaded = False, metaDataRecived = False, tWriteReqs = [], tReadReqs = [], index_wg = 0\<rparr>"

section \<open>Start and stop\<close>

text \<open>Decoding a gob into a nil pointer is an error that leaves the pointer nil.\<close>

definition gob_decode :: "(bytes \<Rightarrow> 'f option) \<Rightarrow> bytes \<Rightarrow> 'f option \<Rightarrow> 'f option" where
  "gob_decode dec buf ptr =
     (case ptr of None \<Rightarrow> None | Some f \<Rightarrow> (case dec buf of None \<Rightarrow> Some f | Some g \<Rightarrow> Some g))"

text \<open>The View transaction, with its error; a decoding error is dropped.\<close>

definition loadXSetFilterFromDb ::
    "'s bolt_ops \<Rightarrow> (bytes \<Rightarrow> 'f option) \<Rightarrow> ('s, 'f) index_searcher
       \<Rightarrow> bolt_error option \<times> ('s, 'f) index_searcher" where
  "loadXSetFilterFromDb B dec e =
     (case op_create B False (indexDb e) [indexBucketKey] of
        Inl err \<Rightarrow> (Some err, e)
      | Inr s \<Rightarrow>
          let filter = (case op_get B s [indexBucketKey] xSetKey of None \<Rightarrow> [] | Some v \<Rightarrow> v)
          in (None, e\<lparr>xSet := gob_decode dec filter (xSet e)\<rparr>))"

datatype launched = TSetWriter | TSetReader

definition index_Start ::
    "'s bolt_ops \<Rightarrow> (bytes \<Rightarrow> 'f option) \<Rightarrow> nat \<Rightarrow> ('s, 'f) index_searcher
       \<Rightarrow> bolt_error option \<times> launched list \<times> ('s, 'f) index_searcher" where
  "index_Start B dec numTsetReaders e =
     (let e' = e\<lparr>index_started := index_started e + 1\<rparr>
      in if index_started e' \<noteq> 1 then (None, [], e')
         else if op_bucket B (indexDb e) [indexBucketKey] then
           (case loadXSetFilterFromDb B dec e' of
              (Some err, e'') \<Rightarrow> (Some err, [], e'')
            | (None, e'') \<Rightarrow> (None, replicate numTsetReaders TSetReader, e''))
         else (None, replicate numTsetWriters TSetWriter @ replicate numTsetReaders TSetReader, e'))"

text \<open>\<open>Stop\<close> closes \<open>quit\<close>; a goroutine that sees it leaves with \<open>wg.Done()\<close>.\<close>

definition index_Stop :: "('s, 'f) index_searcher \<Rightarrow> ('s, 'f) index_searcher go" where
  "index_Stop e =
     (let e' = e\<lparr>index_shutdown := index_shutdown e + 1\<rparr>
      in if index_shutdown e' \<noteq> 1 then Inr e'
         else gbind (close_chan (index_quitClosed e')) (\<lambda>c. Inr (e'\<lparr>index_quitClosed := c\<rparr>)))"

definition goroutine_exit :: "('s, 'f) index_searcher \<Rightarrow> ('s, 'f) index_searcher go" where
  "goroutine_exit e = gbind (wg_done (index_wg e)) (\<lambda>n. Inr (e\<lparr>index_wg := n\<rparr>))"

section \<open>The x-set filter and the meta data\<close>

definition PutXSetFilter_tx :: "'s bolt_ops \<Rightarrow> bytes \<Rightarrow> 's \<Rightarrow> bolt_error + 's" where
  "PutXSetFilter_tx B bloomFilter s =
     (case op_create B True s [indexBucketKey] of
        Inl err \<Rightarrow> Inl err
      | Inr s' \<Rightarrow> op_put B s' [indexBucketKey] xSetKey bloomFilter)"

definition PutXSetFilter ::
    "'s bolt_ops \<Rightarrow> (bytes \<Rightarrow> 'f option) \<Rightarrow> bytes \<Rightarrow> ('s, 'f) index_searcher \<Rightarrow> ('s, 'f) index_searcher" where
  "PutXSetFilter B dec bloomFilter e =
     e\<lparr>xSet := gob_decode dec bloomFilter (xSet e),
       indexDb := snd (db_update B (PutXSetFilter_tx B bloomFilter) (indexDb e))\<rparr>"

definition LoadTSetMetaData :: "MetaData \<Rightarrow> ('s, 'f) index_searcher \<Rightarrow> ('s, 'f) index_searcher go" where
  "LoadTSetMetaData mData e =
     (let e' = e\<lparr>tSetMetaData := Some mData\<rparr>
      in if isMetaLoaded e' then Inr e'
         else gbind (close_chan (metaDataRecived e'))
           (\<lambda>c. Inr (e'\<lparr>metaDataRecived := c, isMetaLoaded := True\<rparr>)))"

section \<open>Writing the t-set\<close>

definition PutTsetFragment ::
    "TSetFragment option \<Rightarrow> ('s, 'f) index_searcher \<Rightarrow> ('s, 'f) index_searcher" where
  "PutTsetFragment tuple e =
     (case tuple of None \<Rightarrow> e | Some t \<Rightarrow> e\<lparr>tWriteReqs := tWriteReqs e @ [t]\<rparr>)"

definition tSetWriter_tx :: "'s bolt_ops \<Rightarrow> TSetFragment \<Rightarrow> 's \<Rightarrow> bolt_error + 's" where
  "tSetWriter_tx B t s =
     (case op_create B True s [tSetBucketKey] of
        Inl err \<Rightarrow> Inl err
      | Inr s' \<Rightarrow> (case op_create B True s' [tSetBucketKey, Bucket t] of
            Inl err \<Rightarrow> Inl err
          | Inr s'' \<Rightarrow> op_put B s'' [tSetBucketKey, Bucket t] (Label t) (Data t)))"

definition tSetWriter_write :: "'s bolt_ops \<Rightarrow> 's \<Rightarrow> TSetFragment \<Rightarrow> 's" where
  "tSetWriter_write B s t = snd (db_update B (tSetWriter_tx B t) s)"

definition tSetWriter :: "'s bolt_ops \<Rightarrow> ('s, 'f) index_searcher \<Rightarrow> ('s, 'f) index_searcher" where
  "tSetWriter B e =
     (case tWriteReqs e of
        [] \<Rightarrow> e
      | t # ts \<Rightarrow> e\<lparr>indexDb := tSetWriter_write B (indexDb e) t, tWriteReqs := ts\<rparr>)"

section \<open>Fetching a tuple\<close>

text \<open>Slicing with int32 bounds, out of range when negative, crossed or past the end.\<close>

definition int32_slice :: "bytes \<Rightarrow> int \<Rightarrow> int \<Rightarrow> bytes go" where
  "int32_slice xs lo hi =
     (if 0 \<le> lo \<and> lo \<le> hi \<and> hi \<le> int (length xs) then Inr (take (nat (hi - lo)) (drop (nat lo) xs))
      else Inl IndexOutOfRange)"

definition notFound :: tupleData where
  "notFound = \<lparr>eId = None, blindingVal = None, workerIndex = 0, isLast = False\<rparr>"

text \<open>What the fetcher does with a stored tuple: the pad comes off, the first byte is the flag,
  the rest is cut at the two lengths of the meta data.\<close>

definition decrypt_tuple :: "MetaData option \<Rightarrow> bytes \<Rightarrow> u32 \<Rightarrow> bytes \<Rightarrow> tupleData go" where
  "decrypt_tuple meta otp index encryptedTuple =
     gbind (XorBytes otp encryptedTuple) (\<lambda>decryptedTuple.
     gbind (slice_at decryptedTuple 0) (\<lambda>finishedByte.
       case meta of
         None \<Rightarrow> Inl NilDereference
       | Some m \<Rightarrow>
           let eIdLength = sint (NumEidBytes m); blindLength = sint (NumBlindBytes m)
           in gbind (int32_slice decryptedTuple 1 eIdLength) (\<lambda>encryptedId.
              gbind (int32_slice decryptedTuple eIdLength blindLength) (\<lambda>blindingVal.
                Inr \<lparr>eId = Some encryptedId, blindingVal = Some blindingVal, workerIndex = index,
                     isLast = (finishedByte = 0x01)\<rparr>))))"

text \<open>\<open>CalcTsetVals\<close> returns bucket, label and pad; the fetcher binds them as label, bucket, pad.
  A missing root bucket is a nil pointer whose method is then called.\<close>

definition tupleFetcher ::
    "'s bolt_ops \<Rightarrow> prf_lib \<Rightarrow> 's \<Rightarrow> MetaData option \<Rightarrow> bytes \<Rightarrow> u32 \<Rightarrow> tupleData go" where
  "tupleFetcher B L s meta stag index =
     gbind (CalcTsetVals L stag index) (\<lambda>(label, bucket, otp).
       if \<not> op_bucket B s [tSetBucketKey] then Inl NilDereference
       else if \<not> op_bucket B s [tSetBucketKey, bucket] then Inr notFound
       else (case op_get B s [tSetBucketKey, bucket] label of
               None \<Rightarrow> Inr notFound
             | Some encryptedTuple \<Rightarrow> decrypt_tuple meta otp index encryptedTuple))"

section \<open>The reader\<close>

definition TSetSearch :: "bytes \<Rightarrow> ('s, 'f) index_searcher \<Rightarrow> ('s, 'f) index_searcher" where
  "TSetSearch stag e = e\<lparr>tReadReqs := tReadReqs e @ [stag]\<rparr>"

text \<open>\<open>sort.Sort\<close> on a batch of pointers: \<open>Less\<close> dereferences both arguments, and sorting two or
  more elements compares every one of them; otherwise the result is a sorted permutation.\<close>

definition sort_doc :: "(tupleData list \<Rightarrow> tupleData list) \<Rightarrow> bool" where
  "sort_doc srt \<longleftrightarrow> (\<forall>ts. mset (srt ts) = mset ts \<and> sorted (map workerIndex (srt ts)))"

definition sort_batch ::
    "(tupleData list \<Rightarrow> tupleData list) \<Rightarrow> tupleData option list \<Rightarrow> tupleData option list go" where
  "sort_batch srt batch =
     (if length batch < 2 then Inr batch
      else if None \<in> set batch then Inl NilDereference
      else Inr (map Some (srt (map the batch))))"

text \<open>The collecting loop stores the \<open>m\<close>-th arrival at index \<open>i\<close>, the start of the chunk.\<close>

fun collect :: "nat \<Rightarrow> tupleData list \<Rightarrow> tupleData option list \<Rightarrow> tupleData option list go" where
  "collect i [] batchResults = Inr batchResults"
| "collect i (t # arrivals) batchResults =
     gbind (slice_set batchResults i (Some t)) (collect i arrivals)"

text \<open>The responses sent for a sorted batch, and whether the response channel was closed.\<close>

fun send_batch :: "tupleData option list \<Rightarrow> (tupleData list \<times> bool) go" where
  "send_batch [] = Inr ([], False)"
| "send_batch (None # ts) = Inl NilDereference"
| "send_batch (Some t # ts) =
     (if eId t = None then Inr ([], True)
      else if isLast t then Inr ([t], True)
      else gbind (send_batch ts) (\<lambda>(sent, closed). Inr (t # sent, closed)))"

text \<open>
  Serving one request: per round, whether a cancellation was pending, and the fetched tuples in
  the order they arrived.  The run ends when the response channel is closed or the request is
  cancelled (which leaves the channel open).
\<close>

fun tSetReader_serve ::
    "(tupleData list \<Rightarrow> tupleData list) \<Rightarrow> u32 \<Rightarrow> tupleData option list \<Rightarrow> (bool \<times> tupleData list) list
       \<Rightarrow> (tupleData list \<times> bool) go" where
  "tSetReader_serve srt i batchResults [] = Inr ([], False)"
| "tSetReader_serve srt i batchResults ((cancelled, arrivals) # rounds) =
     (if cancelled then Inr ([], False)
      else gbind (collect (unat i) arrivals batchResults) (\<lambda>batchResults.
           gbind (sort_batch srt batchResults) (\<lambda>batchResults.
           gbind (send_batch batchResults) (\<lambda>(sent, closed).
             if closed then Inr (sent, True)
             else gbind (tSetReader_serve srt (i + searchChunkSize) batchResults rounds)
               (\<lambda>(sent', closed'). Inr (sent @ sent', closed'))))))"

definition tSetReader ::
    "(tupleData list \<Rightarrow> tupleData list) \<Rightarrow> (bool \<times> tupleData list) list \<Rightarrow> (tupleData list \<times> bool) go" where
  "tSetReader srt rounds = tSetReader_serve srt 0 (replicate (unat searchChunkSize) None) rounds"

section \<open>The operations as a step relation\<close>

text \<open>Every change of the searcher's state, in any order the RPC handlers and goroutines produce.\<close>

inductive index_step ::
    "'s bolt_ops \<Rightarrow> (bytes \<Rightarrow> 'f option) \<Rightarrow> ('s, 'f) index_searcher \<Rightarrow> ('s, 'f) index_searcher \<Rightarrow> bool"
  for B dec where
  start: "index_Start B dec n e = (err, gs, e') \<Longrightarrow> index_step B dec e e'"
| stop: "index_Stop e = Inr e' \<Longrightarrow> index_step B dec e e'"
| put_xset: "index_step B dec e (PutXSetFilter B dec xf e)"
| load_meta: "LoadTSetMetaData md e = Inr e' \<Longrightarrow> index_step B dec e e'"
| put_fragment: "index_step B dec e (PutTsetFragment t e)"
| writer: "index_step B dec e (tSetWriter B e)"
| search: "index_step B dec e (TSetSearch stag e)"
| reader: "tReadReqs e = r # rs \<Longrightarrow> index_step B dec e (e\<lparr>tReadReqs := rs\<rparr>)"

inductive index_reach ::
    "'s bolt_ops \<Rightarrow> (bytes \<Rightarrow> 'f option) \<Rightarrow> 's \<Rightarrow> ('s, 'f) index_searcher \<Rightarrow> bool" for B dec s where
  new: "index_reach B dec s (NewEncryptedIndexSearcher s)"
| step: "index_reach B dec s e \<Longrightarrow> index_step B dec e e' \<Longrightarrow> index_reach B dec s e'"

section \<open>Lemmas\<close>

lemma gob_decode_nil [simp]: "gob_decode dec buf None = None"
  by (simp add: gob_decode_def)

definition index_inv :: "('s, 'f) index_searcher \<Rightarrow> bool" where
  "index_inv e \<longleftrightarrow> xSet e = None \<and> index_wg e = 0 \<and> isMetaLoaded e = metaDataRecived e"

lemma index_inv_step: "index_step B dec e e' \<Longrightarrow> index_inv e \<Longrightarrow> index_inv e'"
  by (induction rule: index_step.induct)
    (auto simp: index_inv_def index_Start_def index_Stop_def loadXSetFilterFromDb_def PutXSetFilter_def
      LoadTSetMetaData_def PutTsetFragment_def tSetWriter_def TSetSearch_def Let_def gbind_Inr_iff
      close_chan_def split: if_splits sum.splits option.splits list.splits)

lemma index_inv_reach: "index_reach B dec s e \<Longrightarrow> index_inv e"
proof (induction rule: index_reach.induct)
  case new
  show ?case by (simp add: index_inv_def NewEncryptedIndexSearcher_def)
next
  case (step e e')
  then show ?case by (blast intro: index_inv_step)
qed

text \<open>The t-set as a key-value store: keys are pairs of bucket and label.\<close>

definition tset_get :: "'s bolt_ops \<Rightarrow> 's \<Rightarrow> bytes \<times> bytes \<Rightarrow> bytes option" where
  "tset_get B s bl =
     (if op_bucket B s [tSetBucketKey] \<and> op_bucket B s [tSetBucketKey, fst bl]
      then op_get B s [tSetBucketKey, fst bl] (snd bl) else None)"

definition tset_put :: "'s bolt_ops \<Rightarrow> 's \<Rightarrow> bytes \<times> bytes \<Rightarrow> bytes \<Rightarrow> 's" where
  "tset_put B s bl d = tSetWriter_write B s \<lparr>Bucket = fst bl, Label = snd bl, Data = d\<rparr>"

definition tset_ok :: "'s bolt_ops \<Rightarrow> 's \<Rightarrow> bool" where
  "tset_ok B s \<longleftrightarrow>
     (\<forall>b. op_bucket B s [tSetBucketKey, b] \<longrightarrow> op_bucket B s [tSetBucketKey]) \<and>
     (\<forall>k. op_bucket B s [tSetBucketKey] \<longrightarrow> op_get B s [tSetBucketKey] k = None) \<and>
     (\<forall>b l. \<not> op_bucket B s [tSetBucketKey, b, l])"

definition tset_fits :: "bytes \<times> bytes \<Rightarrow> bytes \<Rightarrow> bool" where
  "tset_fits bl d \<longleftrightarrow> fst bl \<noteq> [] \<and> bolt_fits (snd bl) d"

lemma tSetBucketKey_nonempty [simp]: "tSetBucketKey \<noteq> []"
  by (simp add: tSetBucketKey_def)

lemma tSetWriter_write_effect:
  assumes doc: "bolt_doc B" and "bolt_commits B" and ok: "tset_ok B s"
    and "b \<noteq> []" and "bolt_fits l d"
  defines "s' \<equiv> tSetWriter_write B s \<lparr>Bucket = b, Label = l, Data = d\<rparr>"
  shows "op_bucket B s' q \<longleftrightarrow> q = [tSetBucketKey] \<or> q = [tSetBucketKey, b] \<or> op_bucket B s q"
    and "tset_ok B s'"
    and "tset_get B s' bl = (if bl = (b, l) then Some d else tset_get B s bl)"
proof -
  let ?r = "[tSetBucketKey]" and ?p = "[tSetBucketKey, b]"
  obtain s1 where c1: "op_create B True s ?r = Inr s1"
    using bolt_create_root [OF doc tSetBucketKey_nonempty] by blast
  note l1 = bolt_create_rw [OF doc c1]
  have r1: "op_bucket B s1 ?r" and g1: "op_get B s1 ?r k = None" for k
    using l1 ok unfolding tset_ok_def by metis+
  obtain s2 where c2: "op_create B True s1 ?p = Inr s2"
    using bolt_create_sub [OF doc r1 assms(4) g1] by auto
  note l2 = bolt_create_rw [OF doc c2]
  have b2: "op_bucket B s2 ?p" and nb: "\<not> op_bucket B s2 (?p @ [l])"
    using l2(1) l1(1) ok by (auto simp: tset_ok_def)
  obtain s3 where p: "op_put B s2 ?p l d = Inr s3"
    using bolt_put_ok [OF doc b2 assms(5) nb] by blast
  note l3 = bolt_put [OF doc p]
  obtain s4 where m: "op_commit B s3 = Inr s4" using assms(2) by (auto simp: bolt_commits_def)
  have s': "s' = s4"
    by (simp add: s'_def tSetWriter_write_def db_update_def tSetWriter_tx_def c1 c2 p m)
  have bucket: "op_bucket B s4 q \<longleftrightarrow> q = ?r \<or> q = ?p \<or> op_bucket B s q" for q
    using bolt_commit(1) [OF doc m] l3(1) l2(1) l1(1) by auto
  have get: "op_get B s4 q k = (if q = ?p \<and> k = l then Some d else op_get B s2 q k)" for q k
    using bolt_commit(2) [OF doc m] l3(2) by simp
  have old: "op_get B s2 q k = op_get B s q k" if "op_bucket B s q" for q k
    using l2(2) [of q k] l1(1) [of q] l1(2) [of q k] that by simp
  show "op_bucket B s' q \<longleftrightarrow> q = ?r \<or> q = ?p \<or> op_bucket B s q"
    unfolding s' by (rule bucket)
  have root: "op_get B s2 ?r k = None" for k
    using l2(2) [OF r1] g1 by simp
  show "tset_ok B s'"
    using ok root unfolding s' tset_ok_def bucket get by auto
  have fresh: "op_get B s2 [tSetBucketKey, b'] k = tset_get B s (b', k)"
    if "op_bucket B s4 [tSetBucketKey, b']" for b' k
  proof (cases "op_bucket B s [tSetBucketKey, b']")
    case True
    moreover from this ok have "op_bucket B s [tSetBucketKey]" unfolding tset_ok_def by blast
    ultimately show ?thesis by (simp add: old tset_get_def)
  next
    case False
    with that bucket have "b' = b" by simp
    with False l1(1) [of ?p] l2(3) [of k] show ?thesis by (simp add: tset_get_def)
  qed
  obtain b' l' where bl: "bl = (b', l')" by fastforce
  show "tset_get B s' bl = (if bl = (b, l) then Some d else tset_get B s bl)"
  proof (cases "op_bucket B s4 [tSetBucketKey, b']")
    case True
    then show ?thesis unfolding s' bl using get bucket fresh [OF True]
      by (simp add: tset_get_def)
  next
    case False
    then show ?thesis using bucket unfolding s' bl by (simp add: tset_get_def)
  qed
qed

lemma kv_tset:
  assumes "bolt_doc B" and "bolt_commits B"
  shows "kv_store (tset_put B) (tset_get B) (tset_ok B) tset_fits"
  by unfold_locales (simp_all add: tset_put_def tset_fits_def tSetWriter_write_effect assms)

interpretation tset: kv_store "tset_put mem_bolt" "tset_get mem_bolt" "tset_ok mem_bolt" tset_fits
  by (rule kv_tset) (simp_all add: bolt_commits_def)

lemma TSetFragment_eta [simp]: "\<lparr>Bucket = Bucket t, Label = Label t, Data = Data t\<rparr> = t"
  by (cases t) simp

text \<open>The database after a sequence of writes.\<close>

definition tset_kv :: "TSetFragment \<Rightarrow> (bytes \<times> bytes) \<times> bytes" where
  "tset_kv t = ((Bucket t, Label t), Data t)"

definition fragment_ok :: "TSetFragment \<Rightarrow> bool" where
  "fragment_ok t \<longleftrightarrow> tset_fits (Bucket t, Label t) (Data t)"

lemma foldl_tset_writes:
  "foldl (tSetWriter_write B) s ts = kv_store.puts (tset_put B) s (map tset_kv ts)"
  if "bolt_doc B" "bolt_commits B"
  using kv_store.puts_def [OF kv_tset [OF that]]
  by (simp add: foldl_map tset_put_def tset_kv_def)

lemma writer_drains:
  "indexDb ((tSetWriter B ^^ length (tWriteReqs e)) e) =
     foldl (tSetWriter_write B) (indexDb e) (tWriteReqs e)"
  by (rule conjunct2 [OF drain_queue [where st = "tSetWriter B", OF _ refl]]) (simp add: tSetWriter_def)

text \<open>The t-set is a store behind a queue, like the document store.\<close>

definition tset_pending :: "('s, 'f) index_searcher \<Rightarrow> ((bytes \<times> bytes) \<times> bytes) list" where
  "tset_pending e = map tset_kv (tWriteReqs e)"

definition tset_enqueue :: "(bytes \<times> bytes) \<times> bytes \<Rightarrow> ('s, 'f) index_searcher \<Rightarrow> ('s, 'f) index_searcher" where
  "tset_enqueue kv = PutTsetFragment (Some \<lparr>Bucket = fst (fst kv), Label = snd (fst kv), Data = snd kv\<rparr>)"

lemma write_behind_tset:
  assumes "bolt_doc B" and "bolt_commits B"
  shows "write_behind (tset_put B) (tset_get B) (tset_ok B) tset_fits indexDb tset_pending tset_enqueue (tSetWriter B)"
  by (intro write_behind.intro write_behind_axioms.intro kv_tset assms)
    (auto simp: tset_pending_def tset_enqueue_def tset_put_def tset_kv_def PutTsetFragment_def tSetWriter_def
      split: list.splits)

interpretation tsetqueue: write_behind "tset_put mem_bolt" "tset_get mem_bolt" "tset_ok mem_bolt" tset_fits
    indexDb tset_pending tset_enqueue "tSetWriter mem_bolt"
  by (rule write_behind_tset) (simp_all add: bolt_commits_def)

lemma tset_buckets_after:
  assumes "bolt_doc B" and "bolt_commits B" and "tset_ok B s" and "\<forall>t \<in> set ts. fragment_ok t"
  shows "op_bucket B (foldl (tSetWriter_write B) s ts) q \<longleftrightarrow>
    (ts \<noteq> [] \<and> q = [tSetBucketKey]) \<or> (\<exists>t \<in> set ts. q = [tSetBucketKey, Bucket t]) \<or> op_bucket B s q"
  using assms(3,4)
proof (induction ts arbitrary: s)
  case Nil
  then show ?case by simp
next
  case (Cons t ts)
  then have f: "Bucket t \<noteq> []" "bolt_fits (Label t) (Data t)"
    by (simp_all add: fragment_ok_def tset_fits_def)
  note eff = tSetWriter_write_effect [OF assms(1,2) Cons.prems(1) f, simplified]
  from Cons.IH [OF eff(2)] Cons.prems(2) eff(1) show ?case by auto
qed

lemma calcTsetTuple_shape:
  assumes "calcTsetTuple L sprf word idx eid y lst = Inr (t, sprf')"
  shows "length (Bucket t) = 1" and "length (Label t) = 16" and "length (Data t) \<le> 33"
    and "fragment_ok t"
proof -
  from assms obtain b l k e d stag
    where v: "CalcTsetVals L stag idx = Inr (b, l, k)" and x: "XorBytes e k = Inr d"
      and t: "t = \<lparr>Bucket = b, Label = l, Data = d\<rparr>"
    by (auto simp: calcTsetTuple_def gbind_Inr_iff Let_def)
  note len = CalcTsetVals_lengths [OF v]
  have "length e \<le> 33"
    using x len(3) XorBytes_short [of k e] by (cases "length k < length e") auto
  then have "length d \<le> 33" using XorBytes_Inr_length [OF x] by simp
  then show "length (Bucket t) = 1" "length (Label t) = 16" "length (Data t) \<le> 33" "fragment_ok t"
    using len by (auto simp: t fragment_ok_def tset_fits_def bolt_fits_def)
qed

lemma decrypt_tuple_padded:
  assumes "length otp = 33" and "length tElement = 33" and "XorBytes tElement otp = Inr d"
  shows "XorBytes otp d = Inr tElement"
  using XorBytes_cancel [of tElement otp] assms by simp

lemma send_batch_full:
  "send_batch (map Some ts) =
     Inr (let rest = dropWhile (\<lambda>t. eId t \<noteq> None \<and> \<not> isLast t) ts
          in (takeWhile (\<lambda>t. eId t \<noteq> None \<and> \<not> isLast t) ts @
              (if rest \<noteq> [] \<and> eId (hd rest) \<noteq> None then [hd rest] else []), rest \<noteq> []))"
  by (induction ts) (auto simp: Let_def)

lemma collect_first_slot:
  "collect i arrivals batch =
     (if i < length batch then Inr (if arrivals = [] then batch else batch[i := Some (last arrivals)])
      else if arrivals = [] then Inr batch else Inl IndexOutOfRange)"
  by (induction arrivals arbitrary: batch) (auto simp: slice_set_def)

text \<open>The fetcher asks for a bucket named by the 16-byte label; the written ones have one-byte names.\<close>

lemma tupleFetcher_after_writes:
  assumes "bolt_doc B" and "bolt_commits B" and "cmac_doc L" and "length stag = 16"
    and "tset_ok B s" and "\<forall>b. \<not> op_bucket B s [tSetBucketKey, b]" and "ts \<noteq> []"
    and frag: "\<forall>t \<in> set ts. fragment_ok t \<and> length (Bucket t) = 1"
  shows "tupleFetcher B L (foldl (tSetWriter_write B) s ts) meta stag index = Inr notFound"
proof -
  obtain b l k where v: "CalcTsetVals L stag index = Inr (b, l, k)" and len: "length l = 16"
    by (rule CalcTsetVals_Inr [OF assms(3), of stag index]) (auto simp: assms(4))
  note after = tset_buckets_after [OF assms(1,2,5), of ts]
  have "op_bucket B (foldl (tSetWriter_write B) s ts) [tSetBucketKey]"
    using after [of "[tSetBucketKey]"] frag assms(7) by auto
  moreover have "\<not> op_bucket B (foldl (tSetWriter_write B) s ts) [tSetBucketKey, l]"
  proof -
    have "l \<noteq> Bucket t" if "t \<in> set ts" for t
      using frag that len by auto
    then show ?thesis using after [of "[tSetBucketKey, l]"] frag assms(6) by auto
  qed
  ultimately show ?thesis by (simp add: tupleFetcher_def v)
qed

text \<open>A restart after the filter was uploaded: \<open>Start\<close> finds the index bucket, asks to create it in a
  read-only transaction and gets the error back.\<close>

lemma restart_after_filter:
  assumes "bolt_doc B" and "bolt_commits B" and "length bloomFilter \<le> 2147483646"
    and "\<forall>k. \<not> op_bucket B (indexDb e) [indexBucketKey, k]"
  shows "op_get B (indexDb (PutXSetFilter B dec bloomFilter e)) [indexBucketKey] xSetKey = Some bloomFilter"
    and "index_Start B dec' n (NewEncryptedIndexSearcher (indexDb (PutXSetFilter B dec bloomFilter e))) =
      (Some BoltError, [],
       (NewEncryptedIndexSearcher (indexDb (PutXSetFilter B dec bloomFilter e)))\<lparr>index_started := 1\<rparr>)"
proof -
  have k: "indexBucketKey \<noteq> []" "bolt_fits xSetKey bloomFilter"
    using assms(3) by (simp_all add: indexBucketKey_def xSetKey_def bolt_fits_def)
  obtain s1 s2 s3 where w: "op_create B True (indexDb e) [indexBucketKey] = Inr s1"
      "op_put B s1 [indexBucketKey] xSetKey bloomFilter = Inr s2" "op_commit B s2 = Inr s3"
    and after: "\<forall>q. op_bucket B s3 q \<longleftrightarrow> q = [indexBucketKey] \<or> op_bucket B (indexDb e) q"
      "\<forall>j. op_get B s3 [indexBucketKey] j =
        (if j = xSetKey then Some bloomFilter else root_get B indexBucketKey (indexDb e) j)"
    using root_write [OF assms(1,2) k(1) assms(4) k(2)] by (elim exE conjE) (rule that)
  have s: "indexDb (PutXSetFilter B dec bloomFilter e) = s3"
    by (simp add: PutXSetFilter_def db_update_def PutXSetFilter_tx_def w)
  show "op_get B (indexDb (PutXSetFilter B dec bloomFilter e)) [indexBucketKey] xSetKey = Some bloomFilter"
    and "index_Start B dec' n (NewEncryptedIndexSearcher (indexDb (PutXSetFilter B dec bloomFilter e))) =
      (Some BoltError, [],
       (NewEncryptedIndexSearcher (indexDb (PutXSetFilter B dec bloomFilter e)))\<lparr>index_started := 1\<rparr>)"
    using assms(1) after by (simp_all add: s index_Start_def loadXSetFilterFromDb_def NewEncryptedIndexSearcher_def)
qed

section \<open>Properties\<close>

text \<open>The t-set writer stores what it is given: after it has drained its queue, the database
  holds for every (bucket, label) the data of the last fragment written there, and what it held
  before for the others, so that fragments with distinct positions are all found.\<close>

theorem tSetWriter_stores_fragments:
  assumes "bolt_doc B" and "bolt_commits B" and "tset_ok B (indexDb e)"
    and "tWriteReqs e = []" and "\<forall>t \<in> set ts. fragment_ok t"
  shows "tset_get B (indexDb ((tSetWriter B ^^ length ts) (fold (\<lambda>t. PutTsetFragment (Some t)) ts e))) (b, l) =
    (case filter (\<lambda>t. Bucket t = b \<and> Label t = l) (rev ts) of
       [] \<Rightarrow> tset_get B (indexDb e) (b, l)
     | t # _ \<Rightarrow> Some (Data t))"
proof -
  have q: "tWriteReqs (fold (\<lambda>t. PutTsetFragment (Some t)) ts e) = tWriteReqs e @ ts"
    for e :: "('x, 'y) index_searcher"
    by (induction ts arbitrary: e) (simp_all add: PutTsetFragment_def)
  have st: "indexDb (fold (\<lambda>t. PutTsetFragment (Some t)) ts e) = indexDb e"
    for e :: "('x, 'y) index_searcher"
    by (induction ts arbitrary: e) (simp_all add: PutTsetFragment_def)
  have last: "map_of (map tset_kv us) (b, l) =
      (case filter (\<lambda>t. Bucket t = b \<and> Label t = l) us of [] \<Rightarrow> None | t # _ \<Rightarrow> Some (Data t))" for us
    by (induction us) (auto simp: tset_kv_def)
  have "indexDb ((tSetWriter B ^^ length ts) (fold (\<lambda>t. PutTsetFragment (Some t)) ts e)) =
      kv_store.puts (tset_put B) (indexDb e) (map tset_kv ts)"
    using writer_drains [where B = B and e = "fold (\<lambda>t. PutTsetFragment (Some t)) ts e"] assms(1,2,4)
    by (simp add: q st foldl_tset_writes)
  moreover have "tset_get B (kv_store.puts (tset_put B) (indexDb e) (map tset_kv ts)) (b, l) =
      (case map_of (rev (map tset_kv ts)) (b, l) of
         None \<Rightarrow> tset_get B (indexDb e) (b, l) | Some v \<Rightarrow> Some v)"
    using assms(5)
    by (intro kv_store.get_puts [OF kv_tset [OF assms(1,2)] assms(3)])
      (auto simp: fragment_ok_def tset_kv_def)
  ultimately show ?thesis by (simp add: rev_map last split: list.splits)
qed

lemma tset_ok_empty [simp]: "tset_ok mem_bolt Map.empty"
  by (simp add: tset_ok_def mem_bucket_def)

lemma bolt_commits_mem [simp]: "bolt_commits mem_bolt"
  by (simp add: bolt_commits_def)

theorem tSetWriter_stores_fragments_witness:
  "let t1 = \<lparr>Bucket = [1], Label = [2], Data = [5]\<rparr>; t2 = \<lparr>Bucket = [1], Label = [3], Data = [6]\<rparr>;
       e = NewEncryptedIndexSearcher Map.empty :: (mem_store, unit) index_searcher
   in tset_get mem_bolt (indexDb ((tSetWriter mem_bolt ^^ 2)
        (fold (\<lambda>t. PutTsetFragment (Some t)) [t1, t2] e))) ([1], [2]) = Some [5]"
proof -
  let ?t1 = "\<lparr>Bucket = [1], Label = [2], Data = [5]\<rparr>" and ?t2 = "\<lparr>Bucket = [1], Label = [3], Data = [6]\<rparr>"
  let ?e = "NewEncryptedIndexSearcher Map.empty :: (mem_store, unit) index_searcher"
  have "\<forall>t \<in> set [?t1, ?t2]. fragment_ok t"
    by (simp add: fragment_ok_def tset_fits_def bolt_fits_def)
  from tSetWriter_stores_fragments [OF bolt_doc_mem bolt_commits_mem _ _ this, of ?e "[1]" "[2]"]
  show ?thesis by (simp add: NewEncryptedIndexSearcher_def numeral_2_eq_2)
qed

text \<open>C29: The two t-set writers need no order.  They take fragments off one channel and commit
  independently, so their transactions may be committed in any order of the fragments sent; as
  long as no two fragments have the same bucket and label the t-set is the same for every order,
  and holds each fragment's data at its position.\<close>

theorem tSetWriters_any_order:
  assumes "bolt_doc B" and "bolt_commits B" and "tset_ok B s" and "\<forall>t \<in> set ts. fragment_ok t"
    and "distinct (map (\<lambda>t. (Bucket t, Label t)) ts)" and "mset ts' = mset ts"
  shows "tset_get B (foldl (tSetWriter_write B) s ts') = tset_get B (foldl (tSetWriter_write B) s ts) \<and>
    (\<forall>t \<in> set ts. tset_get B (foldl (tSetWriter_write B) s ts') (Bucket t, Label t) = Some (Data t))"
proof -
  note kv = kv_tset [OF assms(1,2)]
  have fits: "\<forall>(k, v) \<in> set (map tset_kv ts). tset_fits k v"
    using assms(4) by (auto simp: tset_kv_def fragment_ok_def)
  have dist: "distinct (map fst (map tset_kv ts))"
    using assms(5) by (simp add: tset_kv_def o_def)
  have perm: "mset (map tset_kv ts') = mset (map tset_kv ts)" using assms(6) by simp
  have same: "tset_get B (foldl (tSetWriter_write B) s ts') = tset_get B (foldl (tSetWriter_write B) s ts)"
    unfolding foldl_tset_writes [OF assms(1,2)]
    by (rule ext) (rule kv_store.get_puts_perm [OF kv assms(3) fits dist perm])
  have "tset_get B (foldl (tSetWriter_write B) s ts) (Bucket t, Label t) = Some (Data t)" if "t \<in> set ts" for t
    unfolding foldl_tset_writes [OF assms(1,2)]
    by (rule kv_store.get_puts_distinct [OF kv assms(3) fits dist]) (use that in \<open>force simp: tset_kv_def\<close>)
  with same show ?thesis by simp
qed

theorem tSetWriters_any_order_witness:
  "let t1 = \<lparr>Bucket = [1], Label = [2], Data = [5]\<rparr>; t2 = \<lparr>Bucket = [1], Label = [3], Data = [6]\<rparr>
   in tset_get mem_bolt (foldl (tSetWriter_write mem_bolt) Map.empty [t2, t1]) ([1], [2]) = Some [5]"
proof -
  let ?t1 = "\<lparr>Bucket = [1], Label = [2], Data = [5]\<rparr>" and ?t2 = "\<lparr>Bucket = [1], Label = [3], Data = [6]\<rparr>"
  have "\<forall>t \<in> set [?t1, ?t2]. fragment_ok t"
    by (simp add: fragment_ok_def tset_fits_def bolt_fits_def)
  from tSetWriters_any_order [OF bolt_doc_mem bolt_commits_mem tset_ok_empty this, of "[?t2, ?t1]", THEN conjunct2]
  show ?thesis by (simp add: add_mset_commute del: foldl.simps)
qed

text \<open>C31: What the server reads out of a tuple the client encrypted.  Cut at 5 and 33 bytes it
  is the client's posting: the last-flag, the four-byte document ID and the blinded value.  At the
  4 and 28 bytes the client announces, the document ID loses its last byte, which becomes the
  first byte of a blinding value of 24 bytes.  A blinded value with a leading zero byte (the
  client does not pad it) makes the fetcher panic.\<close>

theorem decrypt_client_tuple:
  assumes "length otp = 33" and "length y \<le> 28"
    and "XorBytes ((if lst then [0x01] else [0x00]) @ PermuteDocId word h did @ y) otp = Inr d"
  shows "if length y = 28
     then decrypt_tuple (Some \<lparr>NumEidBytes = 5, NumBlindBytes = 33\<rparr>) otp idx d =
        Inr \<lparr>eId = Some (PermuteDocId word h did), blindingVal = Some y, workerIndex = idx, isLast = lst\<rparr> \<and>
      decrypt_tuple (Some \<lparr>NumEidBytes = 4, NumBlindBytes = 28\<rparr>) otp idx d =
        Inr \<lparr>eId = Some (take 3 (PermuteDocId word h did)),
             blindingVal = Some (drop 3 (PermuteDocId word h did) @ take 23 y),
             workerIndex = idx, isLast = lst\<rparr>
     else decrypt_tuple meta otp idx d = Inl IndexOutOfRange"
proof -
  let ?x = "(if lst then [0x01] else [0x00]) @ PermuteDocId word h did @ y"
  have lp: "length (PermuteDocId word h did) = 4" by (simp add: PermuteDocId_def)
  have dec: "XorBytes otp d = Inr ?x" if "length y = 28"
    using decrypt_tuple_padded [OF assms(1) _ assms(3)] that lp by simp
  have short: "decrypt_tuple meta otp idx d = Inl IndexOutOfRange" if "length y < 28"
    using that lp XorBytes_Inr_length [OF assms(3)] assms(1)
    by (simp add: decrypt_tuple_def XorBytes_short)
  show ?thesis
    using dec short lp assms(2) by (simp add: decrypt_tuple_def int32_slice_def)
qed

theorem decrypt_client_tuple_witness:
  "\<exists>d. XorBytes ([0x01] @ PermuteDocId ''w'' None 7 @ replicate 28 9) (replicate 33 255) = Inr d \<and>
     decrypt_tuple (Some \<lparr>NumEidBytes = 4, NumBlindBytes = 28\<rparr>) (replicate 33 255) 1 d =
       Inr \<lparr>eId = Some [0, 0, 0], blindingVal = Some (7 # replicate 23 9), workerIndex = 1, isLast = True\<rparr>"
proof -
  let ?x = "(if True then [0x01] else [0x00]) @ PermuteDocId ''w'' None 7 @ replicate 28 9"
  have p: "PermuteDocId ''w'' None 7 = [0, 0, 0, 7]" by (simp add: PermuteDocId_def be32_def)
  obtain d where d: "XorBytes ?x (replicate 33 255) = Inr d"
    using XorBytes_map2 [of ?x "replicate 33 255"] by (simp add: p)
  from decrypt_client_tuple [OF _ _ d, of 1] d show ?thesis
    by (simp add: p)
qed

text \<open>No search finds anything in an index the client built.  Whatever fragments
  \<open>calcTsetTuple\<close> produced are in the database, the fetcher looks for a bucket named by the
  16-byte label, and there are only buckets named by one byte: for every search tag and index it
  reports that there is no tuple.\<close>

theorem tupleFetcher_finds_nothing:
  assumes "bolt_doc B" and "bolt_commits B" and "cmac_doc L" and "length stag = 16"
    and "tset_ok B s" and "\<forall>b. \<not> op_bucket B s [tSetBucketKey, b]" and "ts \<noteq> []"
    and "\<forall>t \<in> set ts. \<exists>sprf word i eid y lst sprf'. calcTsetTuple L sprf word i eid y lst = Inr (t, sprf')"
  shows "tupleFetcher B L (foldl (tSetWriter_write B) s ts) meta stag index = Inr notFound"
proof (rule tupleFetcher_after_writes [OF assms(1-7)], rule ballI)
  fix t
  assume "t \<in> set ts"
  with assms(8) obtain sprf word i eid y lst sprf'
    where "calcTsetTuple L sprf word i eid y lst = Inr (t, sprf')" by blast
  then show "fragment_ok t \<and> length (Bucket t) = 1" by (simp add: calcTsetTuple_shape(1,4))
qed

theorem tupleFetcher_finds_nothing_witness:
  "\<exists>t. oxt_cell demo_prf demo_keys ''ab'' 0 7 False = Inr t \<and>
     tupleFetcher mem_bolt demo_prf (foldl (tSetWriter_write mem_bolt) Map.empty [t]) None
       (mac demo_prf (key_of demo_keys STagKey) (str_bytes ''ab'')) 1 = Inr notFound"
proof -
  obtain t where c: "oxt_cell demo_prf demo_keys ''ab'' 0 7 False = Inr t"
    using tset_cell_ok [OF cmac_doc_demo blinds_ok_demo] unfolding oxt_cell_def by blast
  let ?h = "Some \<lparr>hkey = key_of demo_keys STagKey, hbuf = []\<rparr>"
  from c have "\<exists>sprf y. calcTsetTuple demo_prf ?h ''ab'' 1 (be32 7) y False = Inr (t, sprf)"
    by (auto simp: oxt_cell_def tset_cell_def calcTsetTuple_def gbind_Inr_iff Let_def)
  then have "\<forall>u \<in> set [t]. \<exists>sprf word i eid y lst sprf'.
      calcTsetTuple demo_prf sprf word i eid y lst = Inr (u, sprf')" by simp blast
  from tupleFetcher_finds_nothing [OF bolt_doc_mem bolt_commits_mem cmac_doc_demo _ tset_ok_empty _ _ this] c
  show ?thesis by (simp add: mem_bucket_def)
qed

text \<open>C32: The reader panics on the first batch of the first request that is not cancelled: the
  twenty results all go to slot 0 of the batch, and sorting dereferences the nil pointers in the
  others.\<close>

theorem tSetReader_first_batch_panics:
  assumes "length arrivals = unat searchChunkSize"
  shows "tSetReader srt ((False, arrivals) # rounds) = Inl NilDereference \<and>
     tSetReader srt ((True, arrivals) # rounds) = Inr ([], False)"
proof -
  have n: "unat searchChunkSize = 20" by (simp add: searchChunkSize_def)
  have "arrivals \<noteq> []" using assms n by auto
  then have c: "collect 0 arrivals (replicate 20 None) = Inr (Some (last arrivals) # replicate 19 None)"
    by (simp add: collect_first_slot) (simp add: numeral_eq_Suc)
  show ?thesis by (simp add: tSetReader_def n c sort_batch_def)
qed

theorem tSetReader_first_batch_panics_witness:
  "tSetReader (sort_key workerIndex) [(False, map (\<lambda>i. notFound\<lparr>workerIndex := of_nat i\<rparr>) [0..<20])] =
     Inl NilDereference"
  using tSetReader_first_batch_panics [of "map (\<lambda>i. notFound\<lparr>workerIndex := of_nat i\<rparr>) [0..<20]" "sort_key workerIndex" "[]"]
  by (simp add: searchChunkSize_def)

text \<open>A missing tuple ends the answer before it starts.  Even for a batch collected into its
  proper slots, a tuple that was not found carries index 0 and sorts before every tuple found at
  a positive index (the client counts from 1, the server from 0): nothing is sent and the response
  channel is closed, whenever a list has fewer than a full batch of tuples.\<close>

theorem batch_with_gap_sends_nothing:
  assumes "sort_doc srt" and "notFound \<in> set ts" and "2 \<le> length ts"
    and "\<forall>t \<in> set ts. eId t \<noteq> None \<longrightarrow> workerIndex t \<noteq> 0"
  shows "gbind (sort_batch srt (map Some ts)) send_batch = Inr ([], True)"
proof -
  have m: "mset (srt ts) = mset ts" and so: "sorted (map workerIndex (srt ts))"
    using assms(1) by (auto simp: sort_doc_def)
  have st: "set (srt ts) = set ts" using m by (metis set_mset_mset)
  with assms(2) obtain u us where srt: "srt ts = u # us" by (cases "srt ts") auto
  have "workerIndex u \<le> workerIndex notFound"
    using so assms(2) st unfolding srt by auto
  then have "workerIndex u = 0" by (simp add: notFound_def)
  with assms(4) st srt have "eId u = None" by force
  then have "send_batch (map Some (srt ts)) = Inr ([], True)" by (simp add: srt)
  moreover have "sort_batch srt (map Some ts) = Inr (map Some (srt ts))"
    using assms(3) by (auto simp: sort_batch_def o_def)
  ultimately show ?thesis by simp
qed

theorem batch_with_gap_sends_nothing_witness:
  "gbind (sort_batch (sort_key workerIndex)
      (map Some [\<lparr>eId = Some [1], blindingVal = Some [], workerIndex = 1, isLast = True\<rparr>, notFound])) send_batch =
     Inr ([], True)"
proof -
  have "sort_doc (sort_key workerIndex)" by (simp add: sort_doc_def)
  from batch_with_gap_sends_nothing [OF this, of "[\<lparr>eId = Some [1], blindingVal = Some [], workerIndex = 1, isLast = True\<rparr>, notFound]"]
  show ?thesis by (simp add: notFound_def)
qed

text \<open>A complete batch in its proper order is answered up to and including its last tuple: the
  responses are the tuples before the first that is missing or flagged last, then the flagged one,
  and the channel is closed exactly if there is such a tuple.\<close>

theorem send_batch_answers:
  "send_batch (map Some ts) =
     Inr (let more = (\<lambda>t. eId t \<noteq> None \<and> \<not> isLast t); rest = dropWhile more ts
          in (takeWhile more ts @ (if rest \<noteq> [] \<and> eId (hd rest) \<noteq> None then [hd rest] else []),
              rest \<noteq> []))"
  by (simp add: send_batch_full Let_def)



end
