(* ===== verification/SharedStore.thy ===== *)
theory SharedStore
  imports DocDatabase IndexSearcher
begin

text \<open>
  The server opens one bolt file and hands it to both of its components (\<open>main\<close> of
  \<open>server/server.go\<close>).  Their goroutines run their transactions on it one at a time, in any order:
  the write handler of \<open>doc_db.go\<close>, the t-set writers and \<open>PutXSetFilter\<close> of
  \<open>encrypted_searcher.go\<close>.  Each component nevertheless sees the store it would have alone.
\<close>

section \<open>Transactions below different root buckets\<close>

text \<open>Nothing below the root bucket \<open>n\<close> differs.\<close>

definition same_below :: "'s bolt_ops \<Rightarrow> bytes \<Rightarrow> 's \<Rightarrow> 's \<Rightarrow> bool" where
  "same_below B n s s' \<longleftrightarrow>
     (\<forall>q. op_bucket B s' (n # q) = op_bucket B s (n # q)) \<and>
     (\<forall>q k. op_bucket B s (n # q) \<longrightarrow> op_get B s' (n # q) k = op_get B s (n # q) k)"

lemma same_below_refl [simp]: "same_below B n s s"
  by (simp add: same_below_def)

lemma same_below_trans: "same_below B n s t \<Longrightarrow> same_below B n t u \<Longrightarrow> same_below B n s u"
  by (simp add: same_below_def)

lemma same_below_create:
  "bolt_doc B \<Longrightarrow> op_create B True s (m # p) = Inr s' \<Longrightarrow> m \<noteq> n \<Longrightarrow> same_below B n s s'"
  using bolt_create_rw(1,2) [of B s "m # p" s'] by (simp add: same_below_def)

lemma same_below_put:
  "bolt_doc B \<Longrightarrow> op_put B s (m # p) k v = Inr s' \<Longrightarrow> m \<noteq> n \<Longrightarrow> same_below B n s s'"
  using bolt_put [of B s "m # p" k v s'] by (simp add: same_below_def)

lemma same_below_update:
  assumes "bolt_doc B" and "\<And>s'. f s = Inr s' \<Longrightarrow> same_below B n s s'"
  shows "same_below B n s (snd (db_update B f s))"
  using assms bolt_commit [OF assms(1)]
  by (auto simp: db_update_def same_below_def split: sum.split)

text \<open>The three transactions.\<close>

definition xset_write :: "'s bolt_ops \<Rightarrow> 's \<Rightarrow> bytes \<Rightarrow> 's" where
  "xset_write B s bloomFilter = snd (db_update B (PutXSetFilter_tx B bloomFilter) s)"

lemma bucket_keys_distinct [simp]:
  "docBucketKey \<noteq> tSetBucketKey" "docBucketKey \<noteq> indexBucketKey" "tSetBucketKey \<noteq> indexBucketKey"
  "tSetBucketKey \<noteq> docBucketKey" "indexBucketKey \<noteq> docBucketKey" "indexBucketKey \<noteq> tSetBucketKey"
  by (simp_all add: docBucketKey_def tSetBucketKey_def indexBucketKey_def)

lemma same_below_writeHandler:
  assumes "bolt_doc B" and "n \<noteq> docBucketKey"
  shows "same_below B n s (writeHandler B doc s)"
  unfolding writeHandler_def
proof (rule same_below_update [OF assms(1)])
  fix s'
  assume "writeHandler_tx B doc s = Inr s'"
  then consider "s' = s" | "op_create B True s [docBucketKey] = Inr s'"
    | s1 where "op_create B True s [docBucketKey] = Inr s1" "op_put B s1 [docBucketKey] (le32 (DocId doc)) (EncryptedDoc doc) = Inr s'"
    by (auto simp: writeHandler_tx_def split: sum.splits)
  then show "same_below B n s s'"
  proof cases
    case 2
    then show ?thesis using same_below_create [OF assms(1)] assms(2) by metis
  next
    case 3
    then show ?thesis
      using same_below_create [OF assms(1)] same_below_put [OF assms(1)] assms(2) by (metis same_below_trans)
  qed simp
qed

lemma same_below_tSetWriter:
  assumes "bolt_doc B" and "n \<noteq> tSetBucketKey"
  shows "same_below B n s (tSetWriter_write B s t)"
  unfolding tSetWriter_write_def
proof (rule same_below_update [OF assms(1)])
  fix s'
  assume "tSetWriter_tx B t s = Inr s'"
  then obtain s1 s2 where "op_create B True s [tSetBucketKey] = Inr s1"
    "op_create B True s1 [tSetBucketKey, Bucket t] = Inr s2"
    "op_put B s2 [tSetBucketKey, Bucket t] (Label t) (Data t) = Inr s'"
    by (auto simp: tSetWriter_tx_def split: sum.splits)
  then show "same_below B n s s'"
    using same_below_create [OF assms(1)] same_below_put [OF assms(1)] assms(2) by (metis same_below_trans)
qed

lemma same_below_xset:
  assumes "bolt_doc B" and "n \<noteq> indexBucketKey"
  shows "same_below B n s (xset_write B s bf)"
  unfolding xset_write_def
proof (rule same_below_update [OF assms(1)])
  fix s'
  assume "PutXSetFilter_tx B bf s = Inr s'"
  then obtain s1 where "op_create B True s [indexBucketKey] = Inr s1" "op_put B s1 [indexBucketKey] xSetKey bf = Inr s'"
    by (auto simp: PutXSetFilter_tx_def split: sum.splits)
  then show "same_below B n s s'"
    using same_below_create [OF assms(1)] same_below_put [OF assms(1)] assms(2) by (metis same_below_trans)
qed

section \<open>What each component sees\<close>

lemma docs_same:
  assumes "same_below B docBucketKey s s'"
  shows "stored_doc B s' i = stored_doc B s i" and "docs_ok B s' = docs_ok B s"
  using assms by (simp_all add: same_below_def stored_doc_def root_get_def docs_ok_def)

lemma tset_same:
  assumes "same_below B tSetBucketKey s s'"
  shows "tset_get B s' bl = tset_get B s bl" and "tset_ok B s' = tset_ok B s"
proof -
  have "op_bucket B s' [tSetBucketKey] = op_bucket B s [tSetBucketKey]"
    "op_bucket B s' [tSetBucketKey, b] = op_bucket B s [tSetBucketKey, b]"
    "op_bucket B s' [tSetBucketKey, b, l] = op_bucket B s [tSetBucketKey, b, l]"
    "op_bucket B s [tSetBucketKey] \<Longrightarrow> op_get B s' [tSetBucketKey] k = op_get B s [tSetBucketKey] k"
    "op_bucket B s [tSetBucketKey, b] \<Longrightarrow> op_get B s' [tSetBucketKey, b] k = op_get B s [tSetBucketKey, b] k" for b l k
    using assms by (simp_all add: same_below_def)
  then show "tset_get B s' bl = tset_get B s bl" "tset_ok B s' = tset_ok B s"
    by (simp_all add: tset_get_def tset_ok_def)
qed

text \<open>The filter as the next start reads it.\<close>

definition stored_xset :: "'s bolt_ops \<Rightarrow> 's \<Rightarrow> bytes option" where
  "stored_xset B s = root_get B indexBucketKey s xSetKey"

definition index_ok :: "'s bolt_ops \<Rightarrow> 's \<Rightarrow> bool" where
  "index_ok B s \<longleftrightarrow> (\<forall>k. \<not> op_bucket B s [indexBucketKey, k])"

lemma xset_same:
  assumes "same_below B indexBucketKey s s'"
  shows "stored_xset B s' = stored_xset B s" and "index_ok B s' = index_ok B s"
  using assms by (simp_all add: same_below_def stored_xset_def root_get_def index_ok_def)

lemma xset_write_effect:
  assumes "bolt_doc B" and "bolt_commits B" and "index_ok B s" and "length bf \<le> 2147483646"
  shows "index_ok B (xset_write B s bf)" and "stored_xset B (xset_write B s bf) = Some bf"
proof -
  have n: "indexBucketKey \<noteq> []" "bolt_fits xSetKey bf"
    using assms(4) by (simp_all add: indexBucketKey_def xSetKey_def bolt_fits_def)
  have "\<forall>k. \<not> op_bucket B s [indexBucketKey, k]" using assms(3) by (simp add: index_ok_def)
  from root_write [OF assms(1,2) n(1) this n(2)]
  obtain s1 s2 s3 where w: "op_create B True s [indexBucketKey] = Inr s1" "op_put B s1 [indexBucketKey] xSetKey bf = Inr s2"
    "op_commit B s2 = Inr s3" "\<forall>q. op_bucket B s3 q \<longleftrightarrow> q = [indexBucketKey] \<or> op_bucket B s q"
    "\<forall>j. op_get B s3 [indexBucketKey] j = (if j = xSetKey then Some bf else root_get B indexBucketKey s j)"
    by (elim exE conjE) (rule that)
  have "xset_write B s bf = s3" by (simp add: xset_write_def db_update_def PutXSetFilter_tx_def w(1-3))
  with w(4,5) assms(3) show "index_ok B (xset_write B s bf)" "stored_xset B (xset_write B s bf) = Some bf"
    by (simp_all add: index_ok_def stored_xset_def root_get_def)
qed

section \<open>A view with strangers\<close>

text \<open>A store whose client shares it with others: their writes keep the invariant and do not show.\<close>

locale framed_store = kv_store put get ok fits
  for put :: "'s \<Rightarrow> 'k \<Rightarrow> 'v \<Rightarrow> 's" and get :: "'s \<Rightarrow> 'k \<Rightarrow> 'v option"
    and ok :: "'s \<Rightarrow> bool" and fits :: "'k \<Rightarrow> 'v \<Rightarrow> bool" +
  fixes apply_write :: "'w \<Rightarrow> 's \<Rightarrow> 's" and own :: "'w \<Rightarrow> ('k \<times> 'v) option"
  assumes own_write: "own w = Some (k, v) \<Longrightarrow> apply_write w s = put s k v"
    and strange_ok: "own w = None \<Longrightarrow> ok s \<Longrightarrow> ok (apply_write w s)"
    and strange_get: "own w = None \<Longrightarrow> ok s \<Longrightarrow> get (apply_write w s) = get s"
begin

lemma shared_run:
  assumes "ok s" and "\<forall>w \<in> set ws. \<forall>k v. own w = Some (k, v) \<longrightarrow> fits k v"
  shows "ok (fold apply_write ws s) \<and> get (fold apply_write ws s) = get (puts s (List.map_filter own ws))"
  using assms
proof (induction ws rule: rev_induct)
  case Nil
  then show ?case by (simp add: puts_def)
next
  case (snoc w ws)
  then have IH: "ok (fold apply_write ws s)" "get (fold apply_write ws s) = get (puts s (List.map_filter own ws))" by simp_all
  show ?case
  proof (cases "own w")
    case None
    with IH show ?thesis by (simp add: strange_ok strange_get List.map_filter_def)
  next
    case (Some kv)
    obtain k v where kv: "kv = (k, v)" by fastforce
    have fits: "fits k v" using snoc.prems(2) Some kv by simp
    have "\<forall>(k, v) \<in> set (List.map_filter own ws). fits k v"
      using snoc.prems(2) by (fastforce simp: List.map_filter_def)
    then have "ok (puts s (List.map_filter own ws))" by (rule ok_puts [OF assms(1)])
    then have "get (put (puts s (List.map_filter own ws)) k v) j = get (put (fold apply_write ws s) k v) j" for j
      using IH fits by (simp add: get_put)
    moreover have "puts s (List.map_filter own (ws @ [w])) = put (puts s (List.map_filter own ws)) k v"
      using Some kv by (simp add: puts_def List.map_filter_def)
    ultimately show ?thesis using Some kv IH(1) fits by (simp add: own_write ok_put fun_eq_iff)
  qed
qed

end

text \<open>The writes of the server's goroutines.\<close>

datatype server_write = WriteDoc CipherDoc | WriteTuple TSetFragment | WriteFilter bytes

fun server_tx :: "'s bolt_ops \<Rightarrow> server_write \<Rightarrow> 's \<Rightarrow> 's" where
  "server_tx B (WriteDoc doc) s = writeHandler B doc s"
| "server_tx B (WriteTuple t) s = tSetWriter_write B s t"
| "server_tx B (WriteFilter bf) s = xset_write B s bf"

fun doc_of :: "server_write \<Rightarrow> (u32 \<times> bytes) option" where
  "doc_of (WriteDoc doc) = Some (DocId doc, EncryptedDoc doc)"
| "doc_of _ = None"

fun tuple_of :: "server_write \<Rightarrow> ((bytes \<times> bytes) \<times> bytes) option" where
  "tuple_of (WriteTuple t) = Some (tset_kv t)"
| "tuple_of _ = None"

fun filter_of :: "server_write \<Rightarrow> (unit \<times> bytes) option" where
  "filter_of (WriteFilter bf) = Some ((), bf)"
| "filter_of _ = None"

lemma framed_docs:
  assumes "bolt_doc B" and "bolt_commits B"
  shows "framed_store (doc_put B) (stored_doc B) (docs_ok B) (\<lambda>i d. length d \<le> 2147483646) (server_tx B) doc_of"
proof (intro framed_store.intro framed_store_axioms.intro kv_docs assms)
  show "server_tx B w s = doc_put B s k v" if "doc_of w = Some (k, v)" for w k v s
    using that by (cases w) (auto simp: doc_put_def)
  have same: "same_below B docBucketKey s (server_tx B w s)" if "doc_of w = None" for w s
    using that by (cases w) (simp_all add: same_below_tSetWriter same_below_xset assms)
  show "docs_ok B (server_tx B w s)" "stored_doc B (server_tx B w s) = stored_doc B s"
    if "doc_of w = None" "docs_ok B s" for w s
    using docs_same [OF same [OF that(1)]] that(2) by (simp_all add: fun_eq_iff)
qed

lemma framed_tset:
  assumes "bolt_doc B" and "bolt_commits B"
  shows "framed_store (tset_put B) (tset_get B) (tset_ok B) tset_fits (server_tx B) tuple_of"
proof (intro framed_store.intro framed_store_axioms.intro kv_tset assms)
  show "server_tx B w s = tset_put B s k v" if "tuple_of w = Some (k, v)" for w k v s
    using that by (cases w) (auto simp: tset_put_def tset_kv_def)
  have same: "same_below B tSetBucketKey s (server_tx B w s)" if "tuple_of w = None" for w s
    using that by (cases w) (simp_all add: same_below_writeHandler same_below_xset assms)
  show "tset_ok B (server_tx B w s)" "tset_get B (server_tx B w s) = tset_get B s"
    if "tuple_of w = None" "tset_ok B s" for w s
    using tset_same [OF same [OF that(1)]] that(2) by (simp_all add: fun_eq_iff)
qed

lemma framed_xset:
  assumes "bolt_doc B" and "bolt_commits B"
  shows "framed_store (\<lambda>s (_ :: unit) bf. xset_write B s bf) (\<lambda>s _. stored_xset B s) (index_ok B)
    (\<lambda>_ bf. length bf \<le> 2147483646) (server_tx B) filter_of"
proof
  show "server_tx B w s = xset_write B s bf" if "filter_of w = Some (u, bf)" for w s u bf
    using that by (cases w) auto
  have same: "same_below B indexBucketKey s (server_tx B w s)" if "filter_of w = None" for w s
    using that by (cases w) (simp_all add: same_below_writeHandler same_below_tSetWriter assms)
  show "index_ok B (server_tx B w s)" "(\<lambda>_ :: unit. stored_xset B (server_tx B w s)) = (\<lambda>_. stored_xset B s)"
    if "filter_of w = None" "index_ok B s" for w s
    using xset_same [OF same [OF that(1)]] that(2) by (simp_all add: fun_eq_iff)
qed (simp_all add: xset_write_effect assms)

interpretation shared_docs: framed_store "doc_put mem_bolt" "stored_doc mem_bolt" "docs_ok mem_bolt"
    "\<lambda>i d. length d \<le> 2147483646" "server_tx mem_bolt" doc_of
  by (rule framed_docs) (simp_all add: bolt_commits_def)

interpretation shared_tset: framed_store "tset_put mem_bolt" "tset_get mem_bolt" "tset_ok mem_bolt" tset_fits
    "server_tx mem_bolt" tuple_of
  by (rule framed_tset) (simp_all add: bolt_commits_def)

interpretation shared_xset: framed_store "\<lambda>s (_ :: unit) bf. xset_write mem_bolt s bf" "\<lambda>s _. stored_xset mem_bolt s"
    "index_ok mem_bolt" "\<lambda>_ bf. length bf \<le> 2147483646" "server_tx mem_bolt" filter_of
  by (rule framed_xset) (simp_all add: bolt_commits_def)

section \<open>Properties\<close>

text \<open>C28: The components of the server share the database without disturbing each other.  Whatever
  transactions their goroutines run on the one store, in whatever order, afterwards the document
  store holds what the documents written last alone would have left, the t-set what the tuples
  alone would have left, and a filter is there exactly if one was uploaded or stored before, the
  last one.\<close>

theorem components_share_store:
  assumes "bolt_doc B" and "bolt_commits B" and "docs_ok B s" and "tset_ok B s" and "index_ok B s"
    and "\<forall>doc. WriteDoc doc \<in> set ws \<longrightarrow> length (EncryptedDoc doc) \<le> 2147483646"
    and "\<forall>t. WriteTuple t \<in> set ws \<longrightarrow> fragment_ok t"
    and "\<forall>bf. WriteFilter bf \<in> set ws \<longrightarrow> length bf \<le> 2147483646"
  shows "stored_doc B (fold (server_tx B) ws s) i =
      stored_doc B (foldl (\<lambda>s doc. writeHandler B doc s) s [doc. WriteDoc doc \<leftarrow> ws]) i \<and>
    tset_get B (fold (server_tx B) ws s) bl = tset_get B (foldl (tSetWriter_write B) s [t. WriteTuple t \<leftarrow> ws]) bl \<and>
    stored_xset B (fold (server_tx B) ws s) = (case rev [bf. WriteFilter bf \<leftarrow> ws] of [] \<Rightarrow> stored_xset B s | bf # _ \<Rightarrow> Some bf)"
proof (intro conjI)
  have ds: "List.map_filter doc_of ws = map (\<lambda>d. (DocId d, EncryptedDoc d)) [doc. WriteDoc doc \<leftarrow> ws]"
    by (induction ws) (auto simp: List.map_filter_def split: server_write.split)
  have "\<forall>w \<in> set ws. \<forall>k v. doc_of w = Some (k, v) \<longrightarrow> length v \<le> 2147483646"
    using assms(6) by (auto elim!: doc_of.elims)
  from framed_store.shared_run [OF framed_docs [OF assms(1,2)] assms(3) this]
  show "stored_doc B (fold (server_tx B) ws s) i =
      stored_doc B (foldl (\<lambda>s doc. writeHandler B doc s) s [doc. WriteDoc doc \<leftarrow> ws]) i"
    by (simp add: foldl_writes [OF assms(1,2)] ds)
next
  have ts: "List.map_filter tuple_of ws = map tset_kv [t. WriteTuple t \<leftarrow> ws]"
    by (induction ws) (auto simp: List.map_filter_def tset_kv_def split: server_write.split)
  have "\<forall>w \<in> set ws. \<forall>k v. tuple_of w = Some (k, v) \<longrightarrow> tset_fits k v"
    using assms(7) by (auto elim!: tuple_of.elims simp: fragment_ok_def tset_kv_def)
  from framed_store.shared_run [OF framed_tset [OF assms(1,2)] assms(4) this]
  show "tset_get B (fold (server_tx B) ws s) bl = tset_get B (foldl (tSetWriter_write B) s [t. WriteTuple t \<leftarrow> ws]) bl"
    by (simp add: foldl_tset_writes [OF assms(1,2)] ts)
next
  have fs: "List.map_filter filter_of ws = map (Pair ()) [bf. WriteFilter bf \<leftarrow> ws]"
    by (induction ws) (auto simp: List.map_filter_def split: server_write.split)
  have fits: "\<forall>w \<in> set ws. \<forall>k v. filter_of w = Some (k, v) \<longrightarrow> length v \<le> 2147483646"
    using assms(8) by (auto elim!: filter_of.elims)
  have last_write: "(case map_of (rev (map (Pair ()) xs)) () of None \<Rightarrow> stored_xset B s | Some v \<Rightarrow> Some v) =
      (case rev xs of [] \<Rightarrow> stored_xset B s | bf # _ \<Rightarrow> Some bf)" for xs
    by (cases xs rule: rev_cases) simp_all
  note xset = framed_xset [OF assms(1,2)]
  note kv = framed_store.axioms(1) [OF xset]
  let ?bfs = "[bf. WriteFilter bf \<leftarrow> ws]"
  have "stored_xset B (fold (server_tx B) ws s) =
      stored_xset B (kv_store.puts (\<lambda>s (_ :: unit) bf. xset_write B s bf) s (map (Pair ()) ?bfs))"
    using framed_store.shared_run [OF xset assms(5) fits] by (simp add: fs fun_eq_iff)
  also have "\<dots> = (case map_of (rev (map (Pair ()) ?bfs)) () of None \<Rightarrow> stored_xset B s | Some v \<Rightarrow> Some v)"
    by (rule kv_store.get_puts [OF kv assms(5)]) (use fits in \<open>force simp: filter_of.simps split: server_write.splits\<close>)
  also have "\<dots> = (case rev ?bfs of [] \<Rightarrow> stored_xset B s | bf # _ \<Rightarrow> Some bf)"
    by (rule last_write)
  finally show "stored_xset B (fold (server_tx B) ws s) = (case rev ?bfs of [] \<Rightarrow> stored_xset B s | bf # _ \<Rightarrow> Some bf)" .
qed

theorem components_share_store_witness:
  "stored_doc mem_bolt (fold (server_tx mem_bolt)
      [WriteDoc \<lparr>DocId = 1, EncryptedDoc = [7]\<rparr>, WriteTuple \<lparr>Bucket = [1], Label = [2], Data = [3]\<rparr>, WriteFilter [9]] Map.empty) 1 =
    stored_doc mem_bolt (writeHandler mem_bolt \<lparr>DocId = 1, EncryptedDoc = [7]\<rparr> Map.empty) 1 \<and>
   stored_xset mem_bolt (fold (server_tx mem_bolt)
      [WriteDoc \<lparr>DocId = 1, EncryptedDoc = [7]\<rparr>, WriteTuple \<lparr>Bucket = [1], Label = [2], Data = [3]\<rparr>, WriteFilter [9]] Map.empty) = Some [9]"
proof -
  let ?ws = "[WriteDoc \<lparr>DocId = 1, EncryptedDoc = [7]\<rparr>, WriteTuple \<lparr>Bucket = [1], Label = [2], Data = [3]\<rparr>, WriteFilter [9]]"
  have c: "bolt_commits mem_bolt" by (simp add: bolt_commits_def)
  have ok: "docs_ok mem_bolt Map.empty" "tset_ok mem_bolt Map.empty" "index_ok mem_bolt Map.empty"
    by (simp_all add: docs_ok_def tset_ok_def index_ok_def mem_bucket_def)
  have fits: "\<forall>doc. WriteDoc doc \<in> set ?ws \<longrightarrow> length (EncryptedDoc doc) \<le> 2147483646"
    "\<forall>t. WriteTuple t \<in> set ?ws \<longrightarrow> fragment_ok t"
    "\<forall>bf. WriteFilter bf \<in> set ?ws \<longrightarrow> length bf \<le> 2147483646"
    by (simp_all add: fragment_ok_def tset_fits_def bolt_fits_def)
  show ?thesis using components_share_store [OF bolt_doc_mem c ok fits, of 1] by simp
qed

end
