(* ===== verification/Fanout.thy ===== *)
theory Fanout
  imports Prelude
begin

text \<open>
  A goroutine that copies what it receives onto several bounded channels, as \<open>partitionStreams\<close> and
  \<open>chanSplitter\<close> do: a loop that selects between its input and the quit channel, a body of sends
  in a fixed order, and at the end the closing of every channel.  The consumers run at their own
  pace; all interleavings are runs of one step relation.
\<close>

section \<open>The protocol\<close>

text \<open>The code of such a goroutine: the events of one iteration, the channel an event sends on (none
  for an event without a send), the capacities, and the order in which the channels are closed.\<close>

record ('d, 'e, 'c) fan_code =
  fc_body :: "'d \<Rightarrow> 'e list"
  fc_chan :: "'e \<Rightarrow> 'c option"
  fc_cap :: "'c \<Rightarrow> nat"
  fc_order :: "'c list"

text \<open>Where the goroutine stands: what is left of the iteration, or of the closing.\<close>

datatype ('e, 'c) fan_ctl = Body "'e list" | Leaving "'c list"

text \<open>The documents still to come on the input (closed behind the last one), whether a call of \<open>Stop\<close>
  is still to come and whether one has closed \<open>quit\<close>, the contents of the channels, which are
  closed, and what the consumer of each has received.\<close>

record ('d, 'e, 'c) fan =
  fn_input :: "'d list"
  fn_stop :: bool
  fn_quit :: bool
  fn_ctl :: "('e, 'c) fan_ctl"
  fn_buf :: "'c \<Rightarrow> 'e list"
  fn_closed :: "'c \<Rightarrow> bool"
  fn_got :: "'c \<Rightarrow> 'e list"

definition fan_init :: "bool \<Rightarrow> 'd list \<Rightarrow> ('d, 'e, 'c) fan" where
  "fan_init stop docs =
     \<lparr>fn_input = docs, fn_stop = stop, fn_quit = False, fn_ctl = Body [], fn_buf = (\<lambda>_. []),
      fn_closed = (\<lambda>_. False), fn_got = (\<lambda>_. [])\<rparr>"

text \<open>\<open>live c n\<close>: the consumer of \<open>c\<close> receives again after it has received \<open>n\<close> values.  A channel
  without a buffer hands a value over only to a consumer that receives.\<close>

inductive fan_step :: "('d, 'e, 'c) fan_code \<Rightarrow> ('c \<Rightarrow> nat \<Rightarrow> bool) \<Rightarrow> ('d, 'e, 'c) fan \<Rightarrow> ('d, 'e, 'c) fan \<Rightarrow> bool"
  for N live where
  next_doc: "fn_ctl s = Body [] \<Longrightarrow> fn_input s = d # ds \<Longrightarrow>
    fan_step N live s (s\<lparr>fn_input := ds, fn_ctl := Body (fc_body N d)\<rparr>)"
| input_closed: "fn_ctl s = Body [] \<Longrightarrow> fn_input s = [] \<Longrightarrow>
    fan_step N live s (s\<lparr>fn_ctl := Leaving (fc_order N)\<rparr>)"
| quit: "fn_ctl s = Body [] \<Longrightarrow> fn_quit s \<Longrightarrow>
    fan_step N live s (s\<lparr>fn_ctl := Leaving (fc_order N)\<rparr>)"
| no_send: "fn_ctl s = Body (e # es) \<Longrightarrow> fc_chan N e = None \<Longrightarrow>
    fan_step N live s (s\<lparr>fn_ctl := Body es\<rparr>)"
| buffered: "fn_ctl s = Body (e # es) \<Longrightarrow> fc_chan N e = Some c \<Longrightarrow> length (fn_buf s c) < fc_cap N c \<Longrightarrow>
    fan_step N live s (s\<lparr>fn_ctl := Body es, fn_buf := (fn_buf s)(c := fn_buf s c @ [e])\<rparr>)"
| hand_over: "fn_ctl s = Body (e # es) \<Longrightarrow> fc_chan N e = Some c \<Longrightarrow> fc_cap N c = 0 \<Longrightarrow> live c (length (fn_got s c)) \<Longrightarrow>
    fan_step N live s (s\<lparr>fn_ctl := Body es, fn_got := (fn_got s)(c := fn_got s c @ [e])\<rparr>)"
| receive: "fn_buf s c = e # es \<Longrightarrow> live c (length (fn_got s c)) \<Longrightarrow>
    fan_step N live s (s\<lparr>fn_buf := (fn_buf s)(c := es), fn_got := (fn_got s)(c := fn_got s c @ [e])\<rparr>)"
| close: "fn_ctl s = Leaving (c # cs) \<Longrightarrow> close_chan (fn_closed s c) = Inr b \<Longrightarrow>
    fan_step N live s (s\<lparr>fn_ctl := Leaving cs, fn_closed := (fn_closed s)(c := b)\<rparr>)"
| stop_call: "fn_stop s \<Longrightarrow>
    fan_step N live s (s\<lparr>fn_stop := False, fn_quit := True\<rparr>)"

inductive_cases fan_stepE: "fan_step N live s t"

abbreviation fan_steps where
  "fan_steps N live \<equiv> (fan_step N live)\<^sup>*\<^sup>*"

section \<open>Every run ends\<close>

definition fan_measure :: "('d, 'e, 'c :: finite) fan_code \<Rightarrow> ('d, 'e, 'c) fan \<Rightarrow> nat" where
  "fan_measure N s =
     sum_list (map (\<lambda>d. 1 + 2 * length (fc_body N d)) (fn_input s)) +
     (case fn_ctl s of Body es \<Rightarrow> 2 * length es + length (fc_order N) + 1 | Leaving cs \<Rightarrow> length cs) +
     (\<Sum>c\<in>UNIV. length (fn_buf s c)) + (if fn_stop s then 1 else 0)"

lemma sum_length_upd:
  "(\<Sum>x\<in>UNIV. length ((f(c := xs)) x)) + length (f c) = (\<Sum>x\<in>UNIV. length (f (x :: 'c :: finite))) + length xs"
proof -
  have "(\<Sum>x\<in>UNIV. length ((f(c := xs)) x)) = length xs + (\<Sum>x\<in>UNIV - {c}. length (f x))"
    by (subst sum.remove [of UNIV c]) auto
  moreover have "(\<Sum>x\<in>UNIV. length (f x)) = length (f c) + (\<Sum>x\<in>UNIV - {c}. length (f x))"
    by (subst sum.remove [of UNIV c]) auto
  ultimately show ?thesis by simp
qed

lemma fan_decreases: "fan_step N live s t \<Longrightarrow> fan_measure N t < fan_measure N s"
proof (induction rule: fan_step.induct)
  case (buffered s e es c)
  then show ?case using sum_length_upd [of "fn_buf s" c "fn_buf s c @ [e]"] by (simp add: fan_measure_def)
next
  case (receive s c e es)
  then show ?case using sum_length_upd [of "fn_buf s" c es] by (simp add: fan_measure_def)
qed (auto simp: fan_measure_def)

lemma fan_wf: "wf {(t, s). fan_step (N :: ('d, 'e, 'c :: finite) fan_code) live s t}"
  by (rule wf_subset [OF wf_measure [of "fan_measure N"]]) (auto simp: fan_decreases)

lemma fan_ends: "\<exists>t. fan_steps (N :: ('d, 'e, 'c :: finite) fan_code) live s t \<and> (\<nexists>u. fan_step N live t u)"
  by (rule wf_steps_end [OF fan_wf])

section \<open>What the consumers receive\<close>

text \<open>The events of a list that send on a channel.\<close>

definition sends_on :: "('d, 'e, 'c) fan_code \<Rightarrow> 'c \<Rightarrow> 'e list \<Rightarrow> 'e list" where
  "sends_on N c es = filter (\<lambda>e. fc_chan N e = Some c) es"

lemma sends_on_simps [simp]:
  "sends_on N c [] = []"
  "sends_on N c (e # es) = (if fc_chan N e = Some c then e # sends_on N c es else sends_on N c es)"
  "sends_on N c (es @ fs) = sends_on N c es @ sends_on N c fs"
  by (simp_all add: sends_on_def)

fun ctl_rest :: "('e, 'c) fan_ctl \<Rightarrow> 'e list" where
  "ctl_rest (Body es) = es"
| "ctl_rest (Leaving cs) = []"

text \<open>What a channel carries: received, buffered, or about to be sent in this iteration.\<close>

definition carried :: "('d, 'e, 'c) fan_code \<Rightarrow> ('d, 'e, 'c) fan \<Rightarrow> 'c \<Rightarrow> 'e list" where
  "carried N s c = fn_got s c @ fn_buf s c @ sends_on N c (ctl_rest (fn_ctl s))"

text \<open>The first \<open>k\<close> documents were taken; no channel is over its capacity; a channel is closed once,
  and only after the loop.\<close>

definition fan_flow :: "('d, 'e, 'c) fan_code \<Rightarrow> 'd list \<Rightarrow> nat \<Rightarrow> ('d, 'e, 'c) fan \<Rightarrow> bool" where
  "fan_flow N docs k s \<longleftrightarrow> k \<le> length docs \<and> fn_input s = drop k docs \<and>
     (\<forall>c. carried N s c = sends_on N c (concat (map (fc_body N) (take k docs))))"

definition fan_shape :: "('d, 'e, 'c) fan_code \<Rightarrow> ('d, 'e, 'c) fan \<Rightarrow> bool" where
  "fan_shape N s \<longleftrightarrow> (\<forall>c. length (fn_buf s c) \<le> fc_cap N c) \<and>
     (case fn_ctl s of
        Body es \<Rightarrow> \<forall>c. \<not> fn_closed s c
      | Leaving cs \<Rightarrow> (\<forall>c. fn_closed s c \<longleftrightarrow> c \<in> set (fc_order N) - set cs) \<and> distinct cs \<and> set cs \<subseteq> set (fc_order N) \<and>
          (fn_input s = [] \<or> fn_quit s))"

lemma carried_step:
  "fan_step N live s t \<Longrightarrow> fan_shape N s \<Longrightarrow>
     fn_input t = fn_input s \<and> carried N t = carried N s \<or>
     (\<exists>d. fn_input s = d # fn_input t \<and> (\<forall>c. carried N t c = carried N s c @ sends_on N c (fc_body N d)))"
proof (induction rule: fan_step.induct)
  case (hand_over s e es c)
  then have "fn_buf s c = []" by (auto simp: fan_shape_def dest: spec [of _ c])
  with hand_over show ?case by (auto simp: carried_def)
qed (auto simp: carried_def)

lemma fan_flow_step:
  assumes "fan_step N live s t" and "fan_shape N s" and "fan_flow N docs k s"
  shows "\<exists>k'. fan_flow N docs k' t"
  using carried_step [OF assms(1,2)]
proof
  assume "fn_input t = fn_input s \<and> carried N t = carried N s"
  then show ?thesis using assms(3) by (intro exI [of _ k]) (simp add: fan_flow_def)
next
  assume "\<exists>d. fn_input s = d # fn_input t \<and> (\<forall>c. carried N t c = carried N s c @ sends_on N c (fc_body N d))"
  then obtain d where d: "fn_input s = d # fn_input t"
    and c: "\<forall>c. carried N t c = carried N s c @ sends_on N c (fc_body N d)" by blast
  from d assms(3) have "drop k docs = d # fn_input t" by (simp add: fan_flow_def)
  then have k: "k < length docs" "docs ! k = d" "drop (Suc k) docs = fn_input t"
    by (metis drop_eq_Nil linorder_not_le list.distinct(1), metis hd_drop_conv_nth drop_eq_Nil linorder_not_le list.distinct(1) list.sel(1),
        metis drop_Suc tl_drop list.sel(3))
  have "take (Suc k) docs = take k docs @ [d]" using k by (simp add: take_Suc_conv_app_nth)
  then show ?thesis using assms(3) k c by (intro exI [of _ "Suc k"]) (simp add: fan_flow_def)
qed

lemma fan_shape_step:
  "fan_step N live s t \<Longrightarrow> distinct (fc_order N) \<Longrightarrow> fan_shape N s \<Longrightarrow> fan_shape N t"
proof (induction rule: fan_step.induct)
  case (receive s c e es)
  then have "length es \<le> fc_cap N c" by (auto simp: fan_shape_def dest: spec [of _ c])
  with receive show ?case by (auto simp: fan_shape_def split: fan_ctl.splits)
next
  case (close s c cs b)
  then have "b" by (auto simp: close_chan_def split: if_splits)
  with close show ?case by (auto simp: fan_shape_def)
qed (auto simp: fan_shape_def split: fan_ctl.splits)

text \<open>Without a call of \<open>Stop\<close> nothing closes \<open>quit\<close>.\<close>

lemma fan_no_quit: "fan_steps N live s t \<Longrightarrow> \<not> fn_stop s \<and> \<not> fn_quit s \<Longrightarrow> \<not> fn_stop t \<and> \<not> fn_quit t"
proof (induction rule: rtranclp_induct)
  case (step t u)
  then show ?case by (auto elim!: fan_stepE)
qed

section \<open>The contract\<close>

text \<open>A goroutine that closes each of its channels once.\<close>

locale fan_out =
  fixes N :: "('d, 'e, 'c :: finite) fan_code"
  assumes closes_once: "distinct (fc_order N)"
    and closes_all: "c \<in> set (fc_order N)"
begin

lemma reach_inv:
  assumes "fan_steps N live (fan_init stop docs) s"
  obtains k where "fan_flow N docs k s" and "fan_shape N s"
proof -
  from assms have "\<exists>k. fan_flow N docs k s \<and> fan_shape N s"
  proof (induction rule: rtranclp_induct)
    case base
    show ?case by (intro exI [of _ 0]) (simp add: fan_flow_def fan_shape_def fan_init_def carried_def)
  next
    case (step s t)
    then show ?case using fan_flow_step fan_shape_step [OF _ closes_once] by blast
  qed
  then show thesis using that by blast
qed

text \<open>At every moment a consumer has received a prefix of what all documents send it.\<close>

lemma received_prefix:
  assumes "fan_steps N live (fan_init stop docs) s"
  shows "\<exists>rest. fn_got s c @ rest = sends_on N c (concat (map (fc_body N) docs))"
proof -
  obtain k where k: "fan_flow N docs k s" "fan_shape N s" using reach_inv [OF assms] .
  have "concat (map (fc_body N) docs) = concat (map (fc_body N) (take k docs)) @ concat (map (fc_body N) (drop k docs))"
    by (simp flip: map_append concat_append)
  then have "fn_got s c @ fn_buf s c @ sends_on N c (ctl_rest (fn_ctl s)) @ sends_on N c (concat (map (fc_body N) (drop k docs))) =
      sends_on N c (concat (map (fc_body N) docs))"
    using k(1) by (metis (no_types, lifting) append.assoc carried_def fan_flow_def sends_on_simps(3))
  then show ?thesis by blast
qed

text \<open>A run with consumers that always receive only stops when every channel is closed and drained.\<close>

lemma stuck_done:
  assumes "fan_steps N (\<lambda>_ _. True) (fan_init stop docs) s" and "\<nexists>t. fan_step N (\<lambda>_ _. True) s t"
  shows "fn_ctl s = Leaving [] \<and> fn_buf s = (\<lambda>_. []) \<and> fn_closed s = (\<lambda>_. True) \<and> \<not> fn_stop s"
proof -
  obtain k where k: "fan_flow N docs k s" "fan_shape N s" using reach_inv [OF assms(1)] .
  note no = assms(2) [unfolded not_ex, rule_format]
  have buf: "fn_buf s c = []" for c
  proof (rule ccontr)
    assume "fn_buf s c \<noteq> []"
    then obtain e es where "fn_buf s c = e # es" by (cases "fn_buf s c") auto
    from fan_step.receive [where live = "\<lambda>_ _. True", OF this] no show False by blast
  qed
  have ctl: "fn_ctl s = Leaving []"
  proof (cases "fn_ctl s")
    case (Body es)
    show ?thesis
    proof (cases es)
      case Nil
      with Body have b: "fn_ctl s = Body []" by simp
      show ?thesis
        using no fan_step.next_doc [OF b] fan_step.input_closed [OF b] by (cases "fn_input s") blast+
    next
      case (Cons e es')
      with Body have b: "fn_ctl s = Body (e # es')" by simp
      show ?thesis
      proof (cases "fc_chan N e")
        case None
        from fan_step.no_send [OF b this] no show ?thesis by blast
      next
        case (Some c)
        note hand = fan_step.hand_over [where live = "\<lambda>_ _. True", OF b Some _ TrueI]
        note push = fan_step.buffered [where live = "\<lambda>_ _. True", OF b Some]
        show ?thesis using hand push no by (cases "fc_cap N c = 0") (auto simp: buf)
      qed
    qed
  next
    case (Leaving cs)
    then show ?thesis
    proof (cases cs)
      case (Cons c cs')
      with Leaving have l: "fn_ctl s = Leaving (c # cs')" by simp
      then have "close_chan (fn_closed s c) = Inr True" using k(2) by (simp add: fan_shape_def)
      from fan_step.close [OF l this] no show ?thesis by blast
    qed simp
  qed
  moreover have "fn_closed s = (\<lambda>_. True)" using k(2) ctl closes_all by (auto simp: fan_shape_def)
  moreover have "\<not> fn_stop s" using no fan_step.stop_call [of s] by blast
  ultimately show ?thesis using buf by blast
qed

text \<open>Unless it was stopped, it has then delivered everything.\<close>

lemma complete_run:
  assumes "fan_steps N (\<lambda>_ _. True) (fan_init False docs) s" and "\<nexists>t. fan_step N (\<lambda>_ _. True) s t"
  shows "fn_got s c = sends_on N c (concat (map (fc_body N) docs))"
proof -
  obtain k where k: "fan_flow N docs k s" "fan_shape N s" using reach_inv [OF assms(1)] .
  note d = stuck_done [OF assms]
  have "\<not> fn_quit s" using fan_no_quit [OF assms(1)] by (simp add: fan_init_def)
  then have "fn_input s = []" using k(2) d by (simp add: fan_shape_def)
  then have "take k docs = docs" using k(1) by (auto simp: fan_flow_def)
  then show ?thesis using k(1) d by (simp add: fan_flow_def carried_def)
qed

text \<open>A stopped run has delivered the same documents on every channel.\<close>

lemma stopped_run:
  assumes "fan_steps N (\<lambda>_ _. True) (fan_init stop docs) s" and "\<nexists>t. fan_step N (\<lambda>_ _. True) s t"
  shows "\<exists>k. \<forall>c. fn_got s c = sends_on N c (concat (map (fc_body N) (take k docs)))"
proof -
  obtain k where k: "fan_flow N docs k s" "fan_shape N s" using reach_inv [OF assms(1)] .
  with stuck_done [OF assms] show ?thesis by (auto simp: fan_flow_def carried_def intro!: exI [of _ k])
qed

end

text \<open>A consumer that receives \<open>n\<close> values and no more; all others always receive.\<close>

definition stalls :: "'c \<Rightarrow> nat \<Rightarrow> 'c \<Rightarrow> nat \<Rightarrow> bool" where
  "stalls c n c' m \<longleftrightarrow> c' \<noteq> c \<or> m < n"

lemma stalls_received:
  "fan_steps N (stalls c n) s t \<Longrightarrow> length (fn_got s c) \<le> n \<Longrightarrow> length (fn_got t c) \<le> n"
proof (induction rule: rtranclp_induct)
  case (step t u)
  then have "length (fn_got t c) \<le> n" by blast
  with step(2) show ?case by (cases rule: fan_step.cases) (auto simp: stalls_def)
qed

text \<open>What is left of an iteration is the end of some document's events.\<close>

lemma ctl_suffix:
  "fan_steps N live s t \<Longrightarrow> ctl_rest (fn_ctl s) = [] \<Longrightarrow> ctl_rest (fn_ctl t) = [] \<or> (\<exists>d es. fc_body N d = es @ ctl_rest (fn_ctl t))"
proof (induction rule: rtranclp_induct)
  case (step t u)
  from step(2) step.IH [OF step.prems] show ?case
  proof (induction rule: fan_step.induct)
    case (next_doc s d ds)
    then show ?case by (auto intro!: exI [of _ d])
  next
    case (no_send s e es)
    then show ?case by (auto, metis append.assoc append_Cons append_Nil)
  next
    case (buffered s e es c)
    then show ?case by (auto, metis append.assoc append_Cons append_Nil)
  next
    case (hand_over s e es c)
    then show ?case by (auto, metis append.assoc append_Cons append_Nil)
  qed auto
qed simp

text \<open>A goroutine that sends every document once on each of its channels.\<close>

locale fan_each = fan_out +
  assumes one_each: "length (sends_on N c (fc_body N d)) = 1"
begin

lemma length_sent: "length (sends_on N c (concat (map (fc_body N) ds))) = length ds"
  by (induction ds) (simp_all add: one_each)

lemma rest_one:
  assumes "fan_steps N live (fan_init stop docs) s"
  shows "length (sends_on N c (ctl_rest (fn_ctl s))) \<le> 1"
proof (cases "ctl_rest (fn_ctl s) = []")
  case False
  with ctl_suffix [OF assms] obtain d es where "fc_body N d = es @ ctl_rest (fn_ctl s)"
    by (auto simp: fan_init_def)
  with one_each [of c d] show ?thesis by simp
qed simp

text \<open>The consumers stay together: none is ahead of another by more than the other's channel holds and
  the document in hand.\<close>

lemma bounded_skew:
  assumes "fan_steps N live (fan_init stop docs) s"
  shows "length (fn_got s c') \<le> length (fn_got s c) + fc_cap N c + 1"
proof -
  obtain k where k: "fan_flow N docs k s" "fan_shape N s" using reach_inv [OF assms] .
  then have "length (carried N s x) = k" for x by (simp add: fan_flow_def length_sent)
  from this [of c] this [of c'] have
    "length (fn_got s c) + length (fn_buf s c) + length (sends_on N c (ctl_rest (fn_ctl s))) = k"
    "length (fn_got s c') \<le> k" by (simp_all add: carried_def)
  moreover have "length (fn_buf s c) \<le> fc_cap N c" using k(2) by (simp add: fan_shape_def)
  ultimately show ?thesis using rest_one [OF assms, of c] by linarith
qed

text \<open>If a consumer stalls and more documents come than its channel holds, no channel is ever closed;
  a run that cannot go on stands before a send to that consumer, and a call of \<open>Stop\<close> does not
  change that.\<close>

lemma stalled_open:
  assumes "fan_steps N (stalls c n) (fan_init False docs) s" and "n + fc_cap N c < length docs"
  shows "fn_closed s = (\<lambda>_. False) \<and> (\<exists>es. fn_ctl s = Body es)"
proof (cases "fn_ctl s")
  case (Body es)
  obtain k where "fan_shape N s" using reach_inv [OF assms(1)] .
  with Body show ?thesis by (auto simp: fan_shape_def)
next
  case (Leaving cs)
  obtain k where k: "fan_flow N docs k s" "fan_shape N s" using reach_inv [OF assms(1)] .
  have "\<not> fn_quit s" using fan_no_quit [OF assms(1)] by (simp add: fan_init_def)
  then have "k = length docs" using k Leaving by (auto simp: fan_shape_def fan_flow_def)
  then have "length (carried N s c) = length docs" using k(1) by (simp add: fan_flow_def length_sent)
  moreover have "length (fn_got s c) \<le> n" using stalls_received [OF assms(1)] by (simp add: fan_init_def)
  moreover have "length (fn_buf s c) \<le> fc_cap N c" using k(2) by (simp add: fan_shape_def)
  ultimately show ?thesis using Leaving assms(2) by (simp add: carried_def)
qed

lemma stalled_stuck:
  assumes "fan_steps N (stalls c n) (fan_init False docs) s" and "n + fc_cap N c < length docs"
    and "\<nexists>t. fan_step N (stalls c n) s t"
  shows "(\<exists>e es. fn_ctl s = Body (e # es) \<and> fc_chan N e = Some c) \<and>
    (\<nexists>t. fan_step N (stalls c n) (s\<lparr>fn_quit := True\<rparr>) t)"
proof -
  note no = assms(3) [unfolded not_ex, rule_format]
  have buf: "fn_buf s x = []" if "x \<noteq> c" for x
  proof (rule ccontr)
    assume "fn_buf s x \<noteq> []"
    then obtain e es where "fn_buf s x = e # es" by (cases "fn_buf s x") auto
    from fan_step.receive [where live = "stalls c n" and N = N, OF this] no that show False by (simp add: stalls_def)
  qed
  obtain es where es: "fn_ctl s = Body es" using stalled_open [OF assms(1,2)] by blast
  have "es \<noteq> []"
  proof
    assume "es = []"
    with es have b: "fn_ctl s = Body []" by simp
    show False using no fan_step.next_doc [OF b] fan_step.input_closed [OF b] by (cases "fn_input s") blast+
  qed
  then obtain e es' where b: "fn_ctl s = Body (e # es')" using es by (cases es) auto
  obtain x where x: "fc_chan N e = Some x" using fan_step.no_send [OF b] no by blast
  have "x = c"
  proof (rule ccontr)
    assume "x \<noteq> c"
    then show False
      using fan_step.hand_over [where live = "stalls c n" and N = N, OF b x] fan_step.buffered [where live = "stalls c n" and N = N, OF b x] no
      by (cases "fc_cap N x = 0") (auto simp: buf stalls_def)
  qed
  moreover have "\<not> fan_step N (stalls c n) (s\<lparr>fn_quit := True\<rparr>) t" for t
  proof
    assume "fan_step N (stalls c n) (s\<lparr>fn_quit := True\<rparr>) t"
    then show False
    proof (cases rule: fan_step.cases)
      case (buffered e es y)
      then show ?thesis using fan_step.buffered [of s e es N y "stalls c n"] no by simp
    next
      case (hand_over e es y)
      then show ?thesis using fan_step.hand_over [of s e es N y "stalls c n"] no by simp
    next
      case (receive y e es)
      then show ?thesis using fan_step.receive [of s y e es "stalls c n" N] no by simp
    next
      case stop_call
      then show ?thesis using fan_step.stop_call [of s N "stalls c n"] no by simp
    qed (use b x in auto)
  qed
  ultimately show ?thesis using b x by blast
qed

end

end
