(* ===== verification/Utf8.thy ===== *)
theory Utf8
  imports Prelude
begin

text \<open>
  Strings as Go has them: sequences of bytes, read as UTF-8 where a function works on runes
  (unicode/utf8 of the standard library).  A byte that starts no valid encoding reads as the
  replacement rune 0xFFFD, one byte wide.  On top of it the two functions of package strings the
  tokenizer calls; the letter tables of package unicode are a parameter.
\<close>

section \<open>Runes\<close>

definition RuneError :: nat where
  "RuneError = 65533"

definition valid_rune :: "nat \<Rightarrow> bool" where
  "valid_rune r \<longleftrightarrow> r < 55296 \<or> 57343 < r \<and> r < 1114112"

text \<open>\<open>utf8.EncodeRune\<close>; a rune that has no encoding is encoded as \<open>RuneError\<close>.\<close>

definition encode_valid :: "nat \<Rightarrow> nat list" where
  "encode_valid r =
     (if r < 128 then [r]
      else if r < 2048 then [192 + r div 64, 128 + r mod 64]
      else if r < 65536 then [224 + r div 4096, 128 + r div 64 mod 64, 128 + r mod 64]
      else [240 + r div 262144, 128 + r div 4096 mod 64, 128 + r div 64 mod 64, 128 + r mod 64])"

definition EncodeRune :: "nat \<Rightarrow> nat list" where
  "EncodeRune r = encode_valid (if valid_rune r then r else RuneError)"

text \<open>\<open>utf8.DecodeRune\<close>: the rune and its width.\<close>

definition cont :: "nat \<Rightarrow> bool" where
  "cont b \<longleftrightarrow> 128 \<le> b \<and> b < 192"

definition decode2 :: "nat \<Rightarrow> nat list \<Rightarrow> nat \<times> nat" where
  "decode2 b0 bs =
     (case bs of
        b1 # _ \<Rightarrow> if cont b1 then ((b0 - 192) * 64 + (b1 - 128), 2) else (RuneError, 1)
      | _ \<Rightarrow> (RuneError, 1))"

definition decode3 :: "nat \<Rightarrow> nat list \<Rightarrow> nat \<times> nat" where
  "decode3 b0 bs =
     (case bs of
        b1 # b2 # _ \<Rightarrow>
          if cont b1 \<and> cont b2 \<and> (b0 = 224 \<longrightarrow> 160 \<le> b1) \<and> (b0 = 237 \<longrightarrow> b1 < 160)
          then ((b0 - 224) * 4096 + (b1 - 128) * 64 + (b2 - 128), 3) else (RuneError, 1)
      | _ \<Rightarrow> (RuneError, 1))"

definition decode4 :: "nat \<Rightarrow> nat list \<Rightarrow> nat \<times> nat" where
  "decode4 b0 bs =
     (case bs of
        b1 # b2 # b3 # _ \<Rightarrow>
          if cont b1 \<and> cont b2 \<and> cont b3 \<and> (b0 = 240 \<longrightarrow> 144 \<le> b1) \<and> (b0 = 244 \<longrightarrow> b1 < 144)
          then ((b0 - 240) * 262144 + (b1 - 128) * 4096 + (b2 - 128) * 64 + (b3 - 128), 4) else (RuneError, 1)
      | _ \<Rightarrow> (RuneError, 1))"

definition DecodeRune :: "nat \<Rightarrow> nat list \<Rightarrow> nat \<times> nat" where
  "DecodeRune b0 bs =
     (if b0 < 128 then (b0, 1)
      else if 194 \<le> b0 \<and> b0 < 224 then decode2 b0 bs
      else if 224 \<le> b0 \<and> b0 < 240 then decode3 b0 bs
      else if 240 \<le> b0 \<and> b0 < 245 then decode4 b0 bs
      else (RuneError, 1))"

lemmas decode_defs = decode2_def decode3_def decode4_def

lemma DecodeRune_width: "1 \<le> snd (DecodeRune b0 bs)"
  by (auto simp: DecodeRune_def decode_defs split: list.split)

lemma valid_rune_RuneError [simp]: "valid_rune RuneError"
  by (simp add: valid_rune_def RuneError_def)

lemma decode2_valid: "b0 < 224 \<Longrightarrow> valid_rune (fst (decode2 b0 bs))"
  by (auto simp: decode2_def cont_def valid_rune_def RuneError_def split: list.split)

lemma decode3_valid: "b0 < 240 \<Longrightarrow> valid_rune (fst (decode3 b0 bs))"
proof -
  have "valid_rune (a * 4096 + b * 64 + c)"
    if "a < 16" "b < 64" "c < 64" "a = 13 \<longrightarrow> b < 32" for a b c :: nat
  proof -
    consider "a \<le> 12" | "a = 13" | "14 \<le> a" by force
    then show ?thesis unfolding valid_rune_def by cases (use that in linarith)+
  qed
  note v = this [of "b0 - 224"]
  assume "b0 < 240"
  then show ?thesis by (auto simp: decode3_def cont_def intro!: v split: list.split simp del: Nat.add_diff_assoc Nat.add_diff_assoc2)
qed

lemma decode4_valid: "240 \<le> b0 \<Longrightarrow> b0 < 245 \<Longrightarrow> valid_rune (fst (decode4 b0 bs))"
proof -
  have "valid_rune (a * 262144 + b * 4096 + c * 64 + d)"
    if five: "a < 5" and "b < 64" "c < 64" "d < 64" "a = 4 \<longrightarrow> b < 16" "a = 0 \<longrightarrow> 16 \<le> b" for a b c d :: nat
  proof -
    consider "a = 0" | "1 \<le> a" "a \<le> 3" | "a = 4" using five by force
    then show ?thesis unfolding valid_rune_def by cases (use that in linarith)+
  qed
  note v = this [of "b0 - 240"]
  assume "240 \<le> b0" "b0 < 245"
  then show ?thesis by (auto simp: decode4_def cont_def intro!: v split: list.split simp del: Nat.add_diff_assoc Nat.add_diff_assoc2)
qed

lemma DecodeRune_valid: "valid_rune (fst (DecodeRune b0 bs))"
  by (simp add: DecodeRune_def decode2_valid decode3_valid decode4_valid) (simp add: valid_rune_def)

text \<open>Decoding undoes encoding.\<close>

lemma DecodeRune_3:
  assumes "a < 16" and "b < 64" and "c < 64" and "a = 0 \<longrightarrow> 32 \<le> b" and "a = 13 \<longrightarrow> b < 32"
  shows "DecodeRune (224 + a) ((128 + b) # (128 + c) # t) = (a * 4096 + b * 64 + c, 3)"
  using assms by (simp add: DecodeRune_def decode3_def cont_def)

lemma DecodeRune_4:
  assumes "a < 5" and "b < 64" and "c < 64" and "d < 64" and "a = 0 \<longrightarrow> 16 \<le> b" and "a = 4 \<longrightarrow> b < 16"
  shows "DecodeRune (240 + a) ((128 + b) # (128 + c) # (128 + d) # t) = (a * 262144 + b * 4096 + c * 64 + d, 4)"
  using assms by (simp add: DecodeRune_def decode4_def cont_def)

lemma DecodeRune_encode:
  assumes "valid_rune r"
  shows "DecodeRune (hd (EncodeRune r)) (tl (EncodeRune r) @ t) = (r, length (EncodeRune r))"
proof -
  consider "r < 128" | "128 \<le> r" "r < 2048" | "2048 \<le> r" "r < 65536" | "65536 \<le> r" "r < 1114112"
    using assms unfolding valid_rune_def by linarith
  then show ?thesis
  proof cases
    case 1
    then show ?thesis using assms by (simp add: EncodeRune_def encode_valid_def DecodeRune_def)
  next
    case 2
    then have "2 \<le> r div 64" "r div 64 < 32" by auto
    with 2 assms show ?thesis by (simp add: EncodeRune_def encode_valid_def DecodeRune_def decode2_def cont_def)
  next
    case 3
    let ?a = "r div 4096" and ?b = "r div 64 mod 64"
    have q: "r = r div 64 * 64 + r mod 64" "r div 64 = ?a * 64 + ?b"
      using div_mult_mod_eq [of "r div 64" 64] by (simp_all flip: div_mult2_eq)
    have b: "?b < 64" "r mod 64 < 64" by simp_all
    have a: "?a < 16" using 3 q b by linarith
    have split: "?a * 4096 + ?b * 64 + r mod 64 = r" using q by linarith
    have low: "?a = 0 \<Longrightarrow> 32 \<le> ?b" using 3 q b by linarith
    have sur: "?a = 13 \<Longrightarrow> ?b < 32" using assms q b unfolding valid_rune_def by linarith
    have "DecodeRune (224 + ?a) ((128 + ?b) # (128 + r mod 64) # t) = (r, 3)"
      using DecodeRune_3 [OF a b impI [OF low] impI [OF sur], of t] by (simp only: split)
    with 3 assms show ?thesis by (simp add: EncodeRune_def encode_valid_def)
  next
    case 4
    let ?a = "r div 262144" and ?b = "r div 4096 mod 64" and ?c = "r div 64 mod 64"
    have q: "r = r div 64 * 64 + r mod 64" "r div 64 = r div 4096 * 64 + ?c" "r div 4096 = ?a * 64 + ?b"
      using div_mult_mod_eq [of "r div 64" 64] div_mult_mod_eq [of "r div 4096" 64]
      by (simp_all flip: div_mult2_eq)
    have b: "?b < 64" "?c < 64" "r mod 64 < 64" by simp_all
    have a: "?a < 5" using 4 q b by linarith
    have split: "?a * 262144 + ?b * 4096 + ?c * 64 + r mod 64 = r" using q by linarith
    have low: "?a = 0 \<Longrightarrow> 16 \<le> ?b" using 4 q b by linarith
    have high: "?a = 4 \<Longrightarrow> ?b < 16" using 4 q b by linarith
    have "DecodeRune (240 + ?a) ((128 + ?b) # (128 + ?c) # (128 + r mod 64) # t) = (r, 4)"
      using DecodeRune_4 [OF a b impI [OF low] impI [OF high], of t] by (simp only: split)
    with 4 assms show ?thesis by (simp add: EncodeRune_def encode_valid_def)
  qed
qed

lemma EncodeRune_bytes: "EncodeRune r \<noteq> []" "\<forall>b \<in> set (EncodeRune r). b < 256"
  by (auto simp: EncodeRune_def encode_valid_def valid_rune_def RuneError_def)

section \<open>Strings\<close>

text \<open>The runes of a string, each with the bytes it was read from: \<open>for i, r := range s\<close>.\<close>

function segments :: "string \<Rightarrow> (nat \<times> string) list" where
  "segments [] = []"
| "segments (c # cs) =
     (let (r, width) = DecodeRune (of_char c) (map of_char cs)
      in (r, take width (c # cs)) # segments (drop width (c # cs)))"
  by pat_completeness auto
termination
proof (relation "measure length")
  fix c :: char and cs r and x y :: nat
  assume "r = DecodeRune (of_char c) (map of_char cs)" "(x, y) = r"
  then have "1 \<le> y" using DecodeRune_width [of "of_char c" "map of_char cs"] by (metis snd_conv)
  then show "(drop y (c # cs), c # cs) \<in> measure length" by simp
qed simp

definition runes :: "string \<Rightarrow> nat list" where
  "runes s = map fst (segments s)"

text \<open>The string of a sequence of runes.\<close>

definition rune_string :: "nat \<Rightarrow> string" where
  "rune_string r = map char_of (EncodeRune r)"

definition utf8 :: "nat list \<Rightarrow> string" where
  "utf8 rs = concat (map rune_string rs)"

lemma rune_string_nonempty [simp]: "rune_string r \<noteq> []"
  by (simp add: rune_string_def EncodeRune_bytes(1))

lemma utf8_simps [simp]: "utf8 [] = []" "utf8 (r # rs) = rune_string r @ utf8 rs" "utf8 (rs @ rs') = utf8 rs @ utf8 rs'"
  by (simp_all add: utf8_def)

lemma utf8_eq_Nil [simp]: "utf8 rs = [] \<longleftrightarrow> rs = []"
  by (cases rs) simp_all

lemma segments_rune:
  assumes "valid_rune r"
  shows "segments (rune_string r @ t) = (r, rune_string r) # segments t"
proof -
  obtain b bs where e: "EncodeRune r = b # bs" using EncodeRune_bytes(1) by (cases "EncodeRune r") auto
  have "\<forall>x \<in> set (b # bs). x mod 256 = x" using EncodeRune_bytes(2) [of r] by (simp add: e)
  then have bytes: "b mod 256 = b" "map (of_char \<circ> (char_of :: nat \<Rightarrow> char)) bs = bs"
    by (auto intro!: map_idI)
  have "DecodeRune b (bs @ map of_char t) = (r, Suc (length bs))"
    using DecodeRune_encode [OF assms, of "map of_char t"] by (simp add: e)
  then show ?thesis by (simp add: rune_string_def e bytes)
qed

lemma segments_utf8: "\<forall>r \<in> set rs. valid_rune r \<Longrightarrow> segments (utf8 rs) = map (\<lambda>r. (r, rune_string r)) rs"
  by (induction rs) (simp_all add: segments_rune)

lemma runes_utf8 [simp]: "\<forall>r \<in> set rs. valid_rune r \<Longrightarrow> runes (utf8 rs) = rs"
  by (simp add: runes_def segments_utf8 o_def)

lemma runes_valid: "\<forall>r \<in> set (runes s). valid_rune r"
proof (induction s rule: segments.induct)
  case 1
  show ?case by (simp add: runes_def)
next
  case (2 c cs)
  obtain r w where d: "DecodeRune (of_char c) (map of_char cs) = (r, w)" by fastforce
  with 2 [OF d [symmetric] refl] DecodeRune_valid [of "of_char c" "map of_char cs"]
  show ?case by (simp add: runes_def)
qed

lemma runes_eq_Nil [simp]: "runes s = [] \<longleftrightarrow> s = []"
  by (cases s) (simp_all add: runes_def split: prod.split)

lemma segments_bytes: "concat (map snd (segments s)) = s"
proof (induction s rule: segments.induct)
  case 1
  show ?case by simp
next
  case (2 c cs)
  obtain r w where d: "DecodeRune (of_char c) (map of_char cs) = (r, w)" by fastforce
  with 2 [OF d [symmetric] refl] show ?case by simp
qed

section \<open>Functions of package strings\<close>

record unicode =
  unicode_ToLower :: "nat \<Rightarrow> nat"
  IsLetter :: "nat \<Rightarrow> bool"
  IsNumber :: "nat \<Rightarrow> bool"

text \<open>Documented: the tables map runes to runes.\<close>

definition unicode_doc :: "unicode \<Rightarrow> bool" where
  "unicode_doc U \<longleftrightarrow> (\<forall>r. valid_rune r \<longrightarrow> valid_rune (unicode_ToLower U r))"

text \<open>\<open>strings.ToLower\<close>: the runes mapped one by one and encoded again.\<close>

definition ToLower :: "unicode \<Rightarrow> string \<Rightarrow> string" where
  "ToLower U s = utf8 (map (unicode_ToLower U) (runes s))"

text \<open>\<open>strings.FieldsFunc\<close>: \<open>cur\<close> is the field being read, in runes with their bytes.\<close>

fun fields_from :: "('c \<Rightarrow> bool) \<Rightarrow> 'c list \<Rightarrow> 'c list \<Rightarrow> 'c list list" where
  "fields_from sep cur [] = (if cur = [] then [] else [cur])"
| "fields_from sep cur (c # cs) =
     (if sep c then (if cur = [] then fields_from sep [] cs else cur # fields_from sep [] cs)
      else fields_from sep (cur @ [c]) cs)"

definition FieldsFunc :: "(nat \<Rightarrow> bool) \<Rightarrow> string \<Rightarrow> string list" where
  "FieldsFunc sep s = map (\<lambda>field. concat (map snd field)) (fields_from (\<lambda>p. sep (fst p)) [] (segments s))"

lemma fields_from_chars: "concat (fields_from sep cur s) = cur @ filter (\<lambda>c. \<not> sep c) s"
  by (induction sep cur s rule: fields_from.induct) auto

lemma fields_from_nonempty: "[] \<notin> set (fields_from sep cur s)"
  by (induction sep cur s rule: fields_from.induct) auto

lemma fields_from_split:
  "sep c \<Longrightarrow> fields_from sep cur (s @ c # t) = fields_from sep cur s @ fields_from sep [] t"
  by (induction sep cur s rule: fields_from.induct) auto

lemma fields_from_word: "\<forall>c \<in> set w. \<not> sep c \<Longrightarrow> fields_from sep cur w = (if cur @ w = [] then [] else [cur @ w])"
  by (induction w arbitrary: cur) auto

lemma fields_from_map:
  "fields_from sep (map f cur) (map f s) = map (map f) (fields_from (\<lambda>c. sep (f c)) cur s)"
proof (induction s arbitrary: cur)
  case Nil
  show ?case by simp
next
  case (Cons c s)
  have "map f cur @ [f c] = map f (cur @ [c])" by simp
  with Cons show ?case using Cons [of "[]"] by (simp del: map_append)
qed

text \<open>On a valid string the fields are the encodings of the runs of runes.\<close>

lemma FieldsFunc_utf8:
  assumes "\<forall>r \<in> set rs. valid_rune r"
  shows "FieldsFunc sep (utf8 rs) = map utf8 (fields_from sep [] rs)"
  using fields_from_map [of "\<lambda>p. sep (fst p)" "\<lambda>r. (r, rune_string r)" "[]" rs]
  by (simp add: FieldsFunc_def segments_utf8 [OF assms] o_def) (simp add: utf8_def)

end
