(* ===== verification/Corpus.thy ===== *)
theory Corpus
  imports Utf8
begin

text \<open>
  The front of the indexing pipeline: \<open>client_proxy/corpus_reader.go\<close> (the directory walk, the
  document reader and its IDs) and \<open>client_proxy/doc_preprocesser.go\<close> (tokens, and the partition of
  every document onto the four downstream channels).  Text is read as UTF-8; the letter tables and
  the lower-case mapping of package unicode are a parameter.
\<close>

section \<open>The corpus reader\<close>

text \<open>What \<open>filepath.Walk\<close> visits, in its order: a path and whether it is a directory, or no file
  info at all (a nil \<open>os.FileInfo\<close>, whose method call panics).\<close>

fun DirectoryWalker :: "(string \<times> bool option) list \<Rightarrow> string list go" where
  "DirectoryWalker [] = Inr []"
| "DirectoryWalker ((path, info) # visits) =
     (case info of
        None \<Rightarrow> Inl NilDereference
      | Some isDir \<Rightarrow> gbind (DirectoryWalker visits) (\<lambda>outPaths.
          Inr (if isDir then outPaths else path # outPaths)))"

text \<open>An open file is its contents and read offset; a failed open leaves a nil file.\<close>

record document =
  doc_file :: "(bytes \<times> nat) option"
  doc_id :: u32

definition NextDocId :: "u32 \<Rightarrow> u32 \<times> u32" where
  "NextDocId nextDocId = (nextDocId + 1, nextDocId + 1)"

text \<open>The documents sent, the number of aborts, and the ID counter; an open error is reported and
  the document sent all the same.\<close>

fun DocumentReader :: "(string \<Rightarrow> bytes option) \<Rightarrow> u32 \<Rightarrow> string list \<Rightarrow> document list \<times> nat \<times> u32" where
  "DocumentReader openFile nextDocId [] = ([], 0, nextDocId)"
| "DocumentReader openFile nextDocId (filePath # paths) =
     (let f = openFile filePath;
          (docId, nextDocId') = NextDocId nextDocId;
          d = \<lparr>doc_file = map_option (\<lambda>c. (c, 0)) f, doc_id = docId\<rparr>;
          (docs, aborts, n) = DocumentReader openFile nextDocId' paths
      in (d # docs, (if f = None then 1 else 0) + aborts, n))"

section \<open>Tokens\<close>

definition ParseTokens :: "unicode \<Rightarrow> string \<Rightarrow> string list" where
  "ParseTokens U s =
     (let a = ToLower U s; f = (\<lambda>c. \<not> IsLetter U c \<and> \<not> IsNumber U c) in FieldsFunc f a)"

section \<open>The preprocessor\<close>

record InvIndexDocument =
  Words :: "string set"
  inv_DocId :: u32

datatype preproc_event =
    TfOut "string list"
  | InvIndexOut InvIndexDocument
  | KeyWordSummerOut InvIndexDocument
  | DocEncryptOut document
  | CloseTf | CloseInvIndex | CloseDocEncrypt | CloseKeyWordSummer
  | PreAbort

text \<open>The string of a byte buffer: the same bytes.\<close>

definition text_of :: "bytes \<Rightarrow> string" where
  "text_of bs = map (\<lambda>b. char_of (unat b)) bs"

text \<open>\<open>io.Copy\<close> reads from the file's offset to its end, and leaves it there; reading a nil file is
  an error.\<close>

definition copy_file :: "document \<Rightarrow> bytes option \<times> document" where
  "copy_file doc =
     (case doc_file doc of
        None \<Rightarrow> (None, doc)
      | Some (c, off) \<Rightarrow> (Some (drop off c), doc\<lparr>doc_file := Some (c, max off (length c))\<rparr>))"

definition partition_doc :: "unicode \<Rightarrow> document \<Rightarrow> preproc_event list" where
  "partition_doc U doc =
     (let (bs, doc') = copy_file doc;
          parsedTFWords = ParseTokens U (text_of (case bs of None \<Rightarrow> [] | Some b \<Rightarrow> b));
          invIndDoc = \<lparr>Words = set parsedTFWords, inv_DocId = doc_id doc\<rparr>
      in (if bs = None then [PreAbort] else []) @
         [TfOut parsedTFWords, InvIndexOut invIndDoc, KeyWordSummerOut invIndDoc, DocEncryptOut doc'])"

fun partitionStreams :: "unicode \<Rightarrow> document list \<Rightarrow> preproc_event list" where
  "partitionStreams U [] = [CloseTf, CloseInvIndex, CloseDocEncrypt, CloseKeyWordSummer]"
| "partitionStreams U (doc # docs) = partition_doc U doc @ partitionStreams U docs"

section \<open>Lemmas\<close>

lemma DocumentReader_result:
  "DocumentReader openFile n paths =
     (map (\<lambda>i. \<lparr>doc_file = map_option (\<lambda>c. (c, 0)) (openFile (paths ! i)), doc_id = n + 1 + of_nat i\<rparr>) [0..<length paths],
      length (filter (\<lambda>p. openFile p = None) paths), n + of_nat (length paths))"
proof (induction paths arbitrary: n)
  case Nil
  show ?case by simp
next
  case (Cons p paths)
  have "[0..<length (p # paths)] = 0 # map Suc [0..<length paths]"
    by (simp add: upt_conv_Cons map_Suc_upt del: upt_Suc)
  with Cons [of "n + 1"] show ?case
    by (auto simp: NextDocId_def Let_def algebra_simps simp del: upt_Suc)
qed

text \<open>The tokens of a string are those of its runes, mapped to lower case.\<close>

definition token_runes :: "unicode \<Rightarrow> nat list \<Rightarrow> nat list list" where
  "token_runes U rs =
     fields_from (\<lambda>r. \<not> IsLetter U r \<and> \<not> IsNumber U r) [] (map (unicode_ToLower U) rs)"

lemma ParseTokens_runes: "unicode_doc U \<Longrightarrow> ParseTokens U s = map utf8 (token_runes U (runes s))"
  unfolding ParseTokens_def Let_def ToLower_def token_runes_def
  by (rule FieldsFunc_utf8) (use runes_valid in \<open>auto simp: unicode_doc_def\<close>)

lemma ParseTokens_utf8:
  "unicode_doc U \<Longrightarrow> \<forall>r \<in> set rs. valid_rune r \<Longrightarrow> ParseTokens U (utf8 rs) = map utf8 (token_runes U rs)"
  by (simp add: ParseTokens_runes)

text \<open>The events of one kind, in order.\<close>

fun tf_outs :: "preproc_event list \<Rightarrow> string list list" where
  "tf_outs [] = []" | "tf_outs (TfOut ws # es) = ws # tf_outs es" | "tf_outs (_ # es) = tf_outs es"

fun inv_outs :: "preproc_event list \<Rightarrow> InvIndexDocument list" where
  "inv_outs [] = []" | "inv_outs (InvIndexOut d # es) = d # inv_outs es" | "inv_outs (_ # es) = inv_outs es"

fun kw_outs :: "preproc_event list \<Rightarrow> InvIndexDocument list" where
  "kw_outs [] = []" | "kw_outs (KeyWordSummerOut d # es) = d # kw_outs es" | "kw_outs (_ # es) = kw_outs es"

fun enc_outs :: "preproc_event list \<Rightarrow> document list" where
  "enc_outs [] = []" | "enc_outs (DocEncryptOut d # es) = d # enc_outs es" | "enc_outs (_ # es) = enc_outs es"

text \<open>What the document contributes downstream.\<close>

definition doc_tokens :: "unicode \<Rightarrow> document \<Rightarrow> string list" where
  "doc_tokens U doc = ParseTokens U (text_of (case doc_file doc of None \<Rightarrow> [] | Some (c, off) \<Rightarrow> drop off c))"

definition inv_doc :: "unicode \<Rightarrow> document \<Rightarrow> InvIndexDocument" where
  "inv_doc U doc = \<lparr>Words = set (doc_tokens U doc), inv_DocId = doc_id doc\<rparr>"

lemma partition_doc_outs:
  "tf_outs (partition_doc U doc @ es) = doc_tokens U doc # tf_outs es"
  "inv_outs (partition_doc U doc @ es) = inv_doc U doc # inv_outs es"
  "kw_outs (partition_doc U doc @ es) = inv_doc U doc # kw_outs es"
  "enc_outs (partition_doc U doc @ es) = snd (copy_file doc) # enc_outs es"
  by (auto simp: partition_doc_def copy_file_def doc_tokens_def inv_doc_def Let_def split: option.split)

lemma partitionStreams_outs:
  "tf_outs (partitionStreams U docs) = map (doc_tokens U) docs"
  "inv_outs (partitionStreams U docs) = map (inv_doc U) docs"
  "kw_outs (partitionStreams U docs) = map (inv_doc U) docs"
  "enc_outs (partitionStreams U docs) = map (snd \<circ> copy_file) docs"
  by (induction docs) (simp_all add: partition_doc_outs)

section \<open>Properties\<close>

text \<open>C21: \<open>ParseTokens\<close> cuts the lower-cased text into its maximal runs of letters and numbers: its
  tokens are the UTF-8 encodings of non-empty sequences of runes that together are the letters and
  numbers of the text in order; a separator always ends a token, whatever stands around it; and a
  text without separators is one token.  Bytes that are not valid UTF-8 are separators.\<close>

theorem ParseTokens_maximal_runs:
  fixes U :: unicode
  defines "sep \<equiv> \<lambda>r. \<not> IsLetter U (unicode_ToLower U r) \<and> \<not> IsNumber U (unicode_ToLower U r)"
  assumes "unicode_doc U"
  shows "(\<exists>toks. ParseTokens U s = map utf8 toks \<and> [] \<notin> set toks \<and>
      concat toks = map (unicode_ToLower U) (filter (\<lambda>r. \<not> sep r) (runes s))) \<and>
    (\<forall>xs r ys. runes s = xs @ r # ys \<and> sep r \<longrightarrow>
       ParseTokens U s = ParseTokens U (utf8 xs) @ ParseTokens U (utf8 ys)) \<and>
    ((\<forall>r \<in> set (runes s). \<not> sep r) \<longrightarrow>
       ParseTokens U s = (if s = [] then [] else [utf8 (map (unicode_ToLower U) (runes s))]))"
proof -
  have "filter (\<lambda>c. IsLetter U c \<or> IsNumber U c) (map (unicode_ToLower U) rs) =
      map (unicode_ToLower U) (filter (\<lambda>r. \<not> sep r) rs)" for rs
    by (induction rs) (auto simp: sep_def)
  then have "concat (token_runes U (runes s)) = map (unicode_ToLower U) (filter (\<lambda>r. \<not> sep r) (runes s))"
    by (simp add: token_runes_def fields_from_chars)
  moreover have "[] \<notin> set (token_runes U (runes s))" by (simp add: token_runes_def fields_from_nonempty)
  moreover have "ParseTokens U s = ParseTokens U (utf8 xs) @ ParseTokens U (utf8 ys)"
    if "runes s = xs @ r # ys" "sep r" for xs r ys
    using that runes_valid [of s] ParseTokens_runes [OF assms(2), of s] ParseTokens_utf8 [OF assms(2)]
    by (auto simp: token_runes_def fields_from_split sep_def)
  moreover have "ParseTokens U s = (if s = [] then [] else [utf8 (map (unicode_ToLower U) (runes s))])"
    if "\<forall>r \<in> set (runes s). \<not> sep r"
    using that ParseTokens_runes [OF assms(2), of s] by (auto simp: token_runes_def fields_from_word sep_def)
  ultimately show ?thesis using ParseTokens_runes [OF assms(2), of s] by blast
qed

text \<open>A concrete character classification for the witnesses: the Latin letters.\<close>

definition demo_unicode :: unicode where
  "demo_unicode =
     \<lparr>unicode_ToLower = (\<lambda>r. if 65 \<le> r \<and> r \<le> 90 then r + 32 else r),
      IsLetter = (\<lambda>r. 65 \<le> r \<and> r \<le> 90 \<or> 97 \<le> r \<and> r \<le> 122), IsNumber = (\<lambda>_. False)\<rparr>"

lemma unicode_doc_demo [simp]: "unicode_doc demo_unicode"
  by (auto simp: unicode_doc_def demo_unicode_def valid_rune_def)

theorem ParseTokens_maximal_runs_witness:
  "ParseTokens demo_unicode ''aB C'' = [''ab'', ''c'']"
proof -
  let ?sep = "\<lambda>r. \<not> IsLetter demo_unicode (unicode_ToLower demo_unicode r) \<and>
    \<not> IsNumber demo_unicode (unicode_ToLower demo_unicode r)"
  have r: "runes ''aB C'' = [97, 66] @ 32 # [67]" by (simp add: runes_def DecodeRune_def)
  have s: "?sep 32" and n: "\<forall>r \<in> {97, 66, 67}. \<not> ?sep r" by (simp_all add: demo_unicode_def)
  have v: "runes (utf8 [97, 66]) = [97, 66]" "runes (utf8 [67]) = [67]"
    by (subst runes_utf8; simp add: valid_rune_def)+
  have u: "utf8 [97, 98] = ''ab''" "utf8 [99] = ''c''"
    by (simp_all add: rune_string_def EncodeRune_def encode_valid_def valid_rune_def char_of_def bit_0)
  have "ParseTokens demo_unicode ''aB C'' =
      ParseTokens demo_unicode (utf8 [97, 66]) @ ParseTokens demo_unicode (utf8 [67])"
    using ParseTokens_maximal_runs [OF unicode_doc_demo, of "''aB C''"] r s by blast
  moreover have "ParseTokens demo_unicode (utf8 [97, 66]) = [utf8 [97, 98]]"
    using ParseTokens_maximal_runs [OF unicode_doc_demo, of "utf8 [97, 66]"] n
    unfolding v by (simp add: demo_unicode_def)
  moreover have "ParseTokens demo_unicode (utf8 [67]) = [utf8 [99]]"
    using ParseTokens_maximal_runs [OF unicode_doc_demo, of "utf8 [67]"] n
    unfolding v by (simp add: demo_unicode_def)
  ultimately show ?thesis unfolding u by simp
qed



end
