(* ===== verification/Service.thy ===== *)
theory Service
  imports Prelude
begin

text \<open>
  What the services of both programs share: the \<open>Start\<close>/\<open>Stop\<close> pair guarded by atomic counters,
  and the error handler of \<open>client_proxy/error_handler.go\<close> that collects their \<open>Stop\<close> functions.
\<close>

section \<open>Start and Stop\<close>

text \<open>The goroutines the \<open>Start\<close> methods launch; of these the summer is launched by \<open>Index\<close> itself.\<close>

datatype goroutine =
    DirWalker | DocReader | StreamPartitioner | KeyRequestHandler | DocEncrypterG | DocUploaderG
  | ReadHandler | WriteHandler | KeyWordSummer
  | XFilterUploader | BloomWorker | FreqBloomSaver | QueryHandler
  | Mapper | Shuffler | Reducer | Populate | FilterInit
  | ChanSplitter | XSetWorker | TSetWorker | BloomStreamer | TSetJanitor

text \<open>A \<open>go\<close> statement with the \<open>Add\<close> calls in front of it: the goroutine, what is added to the
  component's wait group and to the main one.\<close>

type_synonym launch = "goroutine \<times> nat \<times> nat"

text \<open>A service: its two counters, the goroutines launched so far, its wait group, what it has added
  to the main group, and whether \<open>quit\<close> is closed.\<close>

record service =
  sv_started :: u32
  sv_shutdown :: u32
  sv_launched :: "goroutine list"
  sv_wg :: nat
  sv_mainAdds :: nat
  sv_quitClosed :: bool

definition newService :: service where
  "newService = \<lparr>sv_started = 0, sv_shutdown = 0, sv_launched = [], sv_wg = 0, sv_mainAdds = 0, sv_quitClosed = False\<rparr>"

definition go_stmt :: "launch \<Rightarrow> service \<Rightarrow> service" where
  "go_stmt l s =
     (let (g, n, m) = l
      in s\<lparr>sv_launched := sv_launched s @ [g], sv_wg := wg_add (sv_wg s) n, sv_mainAdds := wg_add (sv_mainAdds s) m\<rparr>)"

definition service_Start :: "launch list \<Rightarrow> service \<Rightarrow> service go" where
  "service_Start ls s =
     (let s = s\<lparr>sv_started := sv_started s + 1\<rparr>
      in if sv_started s \<noteq> 1 then Inr s else Inr (fold go_stmt ls s))"

text \<open>\<open>Stop\<close> goes on to wait for the component's group, see \<open>stop_returns\<close>.\<close>

definition service_Stop :: "service \<Rightarrow> service go" where
  "service_Stop s =
     (let s = s\<lparr>sv_shutdown := sv_shutdown s + 1\<rparr>
      in if sv_shutdown s \<noteq> 1 then Inr s
         else gbind (close_chan (sv_quitClosed s)) (\<lambda>c. Inr (s\<lparr>sv_quitClosed := c\<rparr>)))"

text \<open>\<open>Stop\<close> of the corpus reader and of the term frequency calculator tests \<open>started\<close>.\<close>

definition service_Stop_started :: "service \<Rightarrow> service go" where
  "service_Stop_started s =
     (let s = s\<lparr>sv_started := sv_started s + 1\<rparr>
      in if sv_started s \<noteq> 1 then Inr s
         else gbind (close_chan (sv_quitClosed s)) (\<lambda>c. Inr (s\<lparr>sv_quitClosed := c\<rparr>)))"

text \<open>A goroutine that ends with \<open>wg.Done()\<close>, and \<open>wg.Wait()\<close>.\<close>

definition service_leave :: "service \<Rightarrow> service go" where
  "service_leave s = gbind (wg_done (sv_wg s)) (\<lambda>n. Inr (s\<lparr>sv_wg := n\<rparr>))"

definition stop_returns :: "service \<Rightarrow> bool" where
  "stop_returns s \<longleftrightarrow> sv_wg s = 0"

section \<open>The components' Start and Stop\<close>

definition CorpusReader_Start :: "service \<Rightarrow> service go" where
  "CorpusReader_Start = service_Start [(DirWalker, 2, 0), (DocReader, 0, 0)]"
definition CorpusReader_Stop :: "service \<Rightarrow> service go" where
  "CorpusReader_Stop = service_Stop_started"

definition DocPreprocessor_Start :: "service \<Rightarrow> service go" where
  "DocPreprocessor_Start = service_Start [(StreamPartitioner, 1, 0)]"
definition DocPreprocessor_Stop :: "service \<Rightarrow> service go" where
  "DocPreprocessor_Stop = service_Stop"

definition KeyManager_Start :: "service \<Rightarrow> service go" where
  "KeyManager_Start = service_Start [(KeyRequestHandler, 1, 0)]"
definition KeyManager_Stop :: "service \<Rightarrow> service go" where
  "KeyManager_Stop = service_Stop"

definition initMappers :: "nat \<Rightarrow> launch list" where
  "initMappers numWorkers = replicate numWorkers (Mapper, 1, 1)"
definition initShufflers :: "nat \<Rightarrow> launch list" where
  "initShufflers numReds = replicate numReds (Shuffler, 1, 1)"
definition initReducers :: "nat \<Rightarrow> launch list" where
  "initReducers numReds = replicate numReds (Reducer, 1, 1)"
definition TermFrequency_Start :: "nat \<Rightarrow> service \<Rightarrow> service go" where
  "TermFrequency_Start numWorkers =
     service_Start (initMappers numWorkers @ initShufflers 26 @ initReducers 26 @ [(Populate, 2, 2), (FilterInit, 0, 0)])"
definition TermFrequency_Stop :: "service \<Rightarrow> service go" where
  "TermFrequency_Stop = service_Stop_started"

definition EncryptedDocStreamer_Start :: "nat \<Rightarrow> service \<Rightarrow> service go" where
  "EncryptedDocStreamer_Start numWorkers =
     service_Start (replicate numWorkers (DocEncrypterG, 1, 0) @ [(DocUploaderG, 1, 0)])"
definition EncryptedDocStreamer_Stop :: "service \<Rightarrow> service go" where
  "EncryptedDocStreamer_Stop = service_Stop"

text \<open>A t-set worker also adds one to the janitor's group and once more to the main one.\<close>

definition EncryptedIndexGenerator_Start :: "nat \<Rightarrow> service \<Rightarrow> service go" where
  "EncryptedIndexGenerator_Start numWorkers =
     service_Start ([(ChanSplitter, 1, 1)] @ replicate numWorkers (XSetWorker, 1, 1) @
       replicate numWorkers (TSetWorker, 1, 2) @ [(BloomStreamer, 1, 1), (TSetJanitor, 1, 1)])"
definition EncryptedIndexGenerator_Stop :: "service \<Rightarrow> service go" where
  "EncryptedIndexGenerator_Stop = service_Stop"

text \<open>The bloom master: on the first run the workers, otherwise (the filters loaded) only the query
  handler; when loading fails \<open>Start\<close> returns the error and launches nothing.\<close>

definition bloomMaster_launches :: "bool \<Rightarrow> bool \<Rightarrow> nat \<Rightarrow> launch list" where
  "bloomMaster_launches isFirstTime loadOk numWorkers =
     (if isFirstTime then
        (XFilterUploader, 1, 1) # replicate numWorkers (BloomWorker, 1, 0) @
          [(FreqBloomSaver, 1, 1), (QueryHandler, 1, 0)]
      else if loadOk then [(QueryHandler, 1, 0)] else [])"
definition bloomMaster_Start :: "bool \<Rightarrow> bool \<Rightarrow> nat \<Rightarrow> service \<Rightarrow> service go" where
  "bloomMaster_Start isFirstTime loadOk numWorkers = service_Start (bloomMaster_launches isFirstTime loadOk numWorkers)"
definition bloomMaster_Stop :: "service \<Rightarrow> service go" where
  "bloomMaster_Stop = service_Stop"

definition documentDatabase_Start :: "nat \<Rightarrow> service \<Rightarrow> service go" where
  "documentDatabase_Start numReaders = service_Start (replicate numReaders (ReadHandler, 1, 0) @ [(WriteHandler, 1, 0)])"
definition documentDatabase_Stop :: "service \<Rightarrow> service go" where
  "documentDatabase_Stop = service_Stop"

lemmas service_defs =
  CorpusReader_Start_def CorpusReader_Stop_def TermFrequency_Start_def TermFrequency_Stop_def
  DocPreprocessor_Start_def DocPreprocessor_Stop_def KeyManager_Start_def KeyManager_Stop_def
  EncryptedDocStreamer_Start_def EncryptedDocStreamer_Stop_def
  EncryptedIndexGenerator_Start_def EncryptedIndexGenerator_Stop_def
  bloomMaster_Start_def bloomMaster_launches_def bloomMaster_Stop_def documentDatabase_Start_def documentDatabase_Stop_def
  initMappers_def initShufflers_def initReducers_def

datatype service_call = CallStart | CallStop

text \<open>A sequence of calls, as the atomic counters order them.\<close>

fun run_service ::
    "(service \<Rightarrow> service go) \<Rightarrow> (service \<Rightarrow> service go) \<Rightarrow> service_call list \<Rightarrow> service \<Rightarrow> service go" where
  "run_service start stop [] s = Inr s"
| "run_service start stop (c # cs) s =
     gbind (case c of CallStart \<Rightarrow> start s | CallStop \<Rightarrow> stop s) (run_service start stop cs)"

text \<open>A fresh service after its first \<open>Start\<close>.\<close>

definition started :: "(service \<Rightarrow> service go) \<Rightarrow> service" where
  "started start = (case start newService of Inl _ \<Rightarrow> newService | Inr s \<Rightarrow> s)"

section \<open>The error handler\<close>

text \<open>A stop function is a name; nil is \<open>None\<close>.\<close>

record 'f errorHandler =
  stopFuncs :: "'f option list"

definition NewErrorHandler :: "'f errorHandler" where
  "NewErrorHandler = \<lparr>stopFuncs = replicate 10 None\<rparr>"

definition collectStopFuncs :: "'f \<Rightarrow> 'f errorHandler \<Rightarrow> 'f errorHandler" where
  "collectStopFuncs a e = e\<lparr>stopFuncs := stopFuncs e @ [Some a]\<rparr>"

text \<open>Handling one message: the functions called, in order; calling nil panics.  The first
  component collects what was called before a panic.\<close>

fun call_all :: "'f option list \<Rightarrow> 'f list \<times> unit go" where
  "call_all [] = ([], Inr ())"
| "call_all (None # fs) = ([], Inl NilDereference)"
| "call_all (Some f # fs) = (let (called, r) = call_all fs in (f # called, r))"

definition handleErrors :: "'f errorHandler \<Rightarrow> 'f list \<times> unit go" where
  "handleErrors e = call_all (stopFuncs e)"

text \<open>\<open>Start\<close> launches the three goroutines; the one for signals waits for the first and sends its name as
  the error.\<close>

datatype handler_goroutine = HandleErrors | HandleOSCalls | CollectStopFuncs

definition errorHandler_Start :: "handler_goroutine list" where
  "errorHandler_Start = [HandleErrors, HandleOSCalls, CollectStopFuncs]"

definition handleOSCalls :: "string list \<Rightarrow> string option" where
  "handleOSCalls signals = (case signals of [] \<Rightarrow> None | s # _ \<Rightarrow> Some s)"

text \<open>The abort function: it returns when \<open>quit\<close> is closed or the message is delivered, and both may
  be possible; \<open>room\<close> says whether the message channel can take one.  Its possible ends: delivered
  (\<open>True\<close>) or dropped.\<close>

definition abort_ends :: "bool \<Rightarrow> bool \<Rightarrow> bool set" where
  "abort_ends quitClosed room = (if quitClosed then {False} else {}) \<union> (if room then {True} else {})"

section \<open>Lemmas\<close>

lemma go_stmts:
  "sv_launched (fold go_stmt ls s) = sv_launched s @ map fst ls"
  "sv_wg (fold go_stmt ls s) = sv_wg s + sum_list (map (fst \<circ> snd) ls)"
  "sv_mainAdds (fold go_stmt ls s) = sv_mainAdds s + sum_list (map (snd \<circ> snd) ls)"
  "sv_quitClosed (fold go_stmt ls s) = sv_quitClosed s"
  "sv_started (fold go_stmt ls s) = sv_started s"
  "sv_shutdown (fold go_stmt ls s) = sv_shutdown s"
  by (induction ls arbitrary: s) (simp_all add: go_stmt_def wg_add_def split: prod.splits)

lemma counter_zero: "k < 2 ^ 32 \<Longrightarrow> (of_nat k :: u32) = 0 \<longleftrightarrow> k = 0"
proof -
  assume "k < 2 ^ 32"
  then have "(of_nat k :: u32) = of_nat 0 \<longleftrightarrow> k = 0"
    unfolding word_of_nat_eq_iff by (simp add: take_bit_nat_eq_self)
  then show ?thesis by simp
qed

text \<open>Goroutines leaving one after the other.\<close>

fun leave_n :: "nat \<Rightarrow> service \<Rightarrow> service go" where
  "leave_n 0 s = Inr s"
| "leave_n (Suc n) s = gbind (service_leave s) (leave_n n)"

lemma leave_n_wg: "n \<le> sv_wg s \<Longrightarrow> leave_n n s = Inr (s\<lparr>sv_wg := sv_wg s - n\<rparr>)"
proof (induction n arbitrary: s)
  case 0
  show ?case by simp
next
  case (Suc n)
  then show ?case by (cases "sv_wg s") (simp_all add: service_leave_def)
qed

section \<open>The service interface\<close>

text \<open>What a component with guarded \<open>Start\<close> and \<open>Stop\<close> methods promises: the first \<open>Start\<close> launches
  its goroutines, the first \<open>Stop\<close> closes \<open>quit\<close>, later calls only count; the wait group counts the
  launched goroutines.\<close>

locale managed_service =
  fixes start :: "service \<Rightarrow> service go" and stop :: "service \<Rightarrow> service go" and ls :: "launch list"
  assumes start_first: "sv_started s = 0 \<Longrightarrow> start s = Inr (fold go_stmt ls (s\<lparr>sv_started := 1\<rparr>))"
    and start_again: "sv_started s \<noteq> 0 \<Longrightarrow> start s = Inr (s\<lparr>sv_started := sv_started s + 1\<rparr>)"
    and stop_first: "sv_shutdown s = 0 \<Longrightarrow> \<not> sv_quitClosed s \<Longrightarrow>
      stop s = Inr (s\<lparr>sv_shutdown := 1, sv_quitClosed := True\<rparr>)"
    and stop_again: "sv_shutdown s \<noteq> 0 \<Longrightarrow> stop s = Inr (s\<lparr>sv_shutdown := sv_shutdown s + 1\<rparr>)"
    and balanced: "sum_list (map (fst \<circ> snd) ls) = length ls"
begin

lemma run_service_from:
  assumes "a + length cs < 2 ^ 32" and "b + length cs < 2 ^ 32"
    and "sv_started s = of_nat a" and "sv_shutdown s = of_nat b" and "sv_quitClosed s \<longleftrightarrow> b > 0"
  shows "\<exists>t. run_service start stop cs s = Inr t \<and>
    sv_launched t = sv_launched s @ (if a = 0 \<and> CallStart \<in> set cs then map fst ls else []) \<and>
    sv_wg t = sv_wg s + (if a = 0 \<and> CallStart \<in> set cs then length ls else 0) \<and>
    (sv_quitClosed t \<longleftrightarrow> b > 0 \<or> CallStop \<in> set cs)"
  using assms
proof (induction cs arbitrary: s a b)
  case Nil
  then show ?case by simp
next
  case (Cons c cs)
  show ?case
  proof (cases c)
    case CallStart
    let ?s = "(if a = 0 then fold go_stmt ls else id) (s\<lparr>sv_started := of_nat (Suc a)\<rparr>)"
    have "start s = Inr ?s"
      using Cons.prems(1,3) counter_zero [of a] start_first [of s] start_again [of s]
      by (auto simp: add.commute)
    with CallStart Cons.IH [of "Suc a" b ?s] Cons.prems balanced show ?thesis by (auto simp: go_stmts)
  next
    case CallStop
    let ?s = "s\<lparr>sv_shutdown := of_nat (Suc b), sv_quitClosed := True\<rparr>"
    have "stop s = Inr ?s"
      using Cons.prems(2,4,5) counter_zero [of b] stop_first [of s] stop_again [of s]
      by (cases "b = 0") (auto simp: add.commute)
    with CallStop Cons.IH [of a "Suc b" ?s] Cons.prems show ?thesis by auto
  qed
qed

lemma lifecycle:
  assumes "length calls < 2 ^ 32"
  shows "\<exists>s. run_service start stop calls newService = Inr s \<and>
    sv_launched s = (if CallStart \<in> set calls then map fst ls else []) \<and>
    (sv_quitClosed s \<longleftrightarrow> CallStop \<in> set calls) \<and>
    (\<forall>k \<le> length (sv_launched s). \<exists>t. leave_n k s = Inr t \<and> (stop_returns t \<longleftrightarrow> k = length (sv_launched s)))"
  using run_service_from [of 0 calls 0 newService] assms
  by (auto simp: newService_def leave_n_wg stop_returns_def split: if_splits)

end

text \<open>A component whose \<open>Stop\<close> tests the counter of \<open>Start\<close>.\<close>

locale shared_counter_service =
  fixes start :: "service \<Rightarrow> service go" and stop :: "service \<Rightarrow> service go" and ls :: "launch list"
  assumes start_first: "sv_started s = 0 \<Longrightarrow> start s = Inr (fold go_stmt ls (s\<lparr>sv_started := 1\<rparr>))"
    and start_again: "sv_started s \<noteq> 0 \<Longrightarrow> start s = Inr (s\<lparr>sv_started := sv_started s + 1\<rparr>)"
    and stop_first: "sv_started s = 0 \<Longrightarrow> \<not> sv_quitClosed s \<Longrightarrow>
      stop s = Inr (s\<lparr>sv_started := 1, sv_quitClosed := True\<rparr>)"
    and stop_again: "sv_started s \<noteq> 0 \<Longrightarrow> stop s = Inr (s\<lparr>sv_started := sv_started s + 1\<rparr>)"
begin

lemma run_service_late:
  assumes "a > 0" and "a + length cs < 2 ^ 32" and "sv_started s = of_nat a"
  shows "\<exists>t. run_service start stop cs s = Inr t \<and> sv_launched t = sv_launched s \<and> sv_quitClosed t = sv_quitClosed s"
  using assms
proof (induction cs arbitrary: s a)
  case Nil
  then show ?case by simp
next
  case (Cons c cs)
  have "start s = Inr (s\<lparr>sv_started := of_nat (Suc a)\<rparr>)" "stop s = Inr (s\<lparr>sv_started := of_nat (Suc a)\<rparr>)"
    using Cons.prems counter_zero [of a] start_again [of s] stop_again [of s] by (auto simp: add.commute)
  with Cons.IH [of "Suc a" "s\<lparr>sv_started := of_nat (Suc a)\<rparr>"] Cons.prems show ?case by (cases c) auto
qed

lemma only_first_call_counts:
  assumes "length calls + 1 < 2 ^ 32"
  shows "(\<exists>s. run_service start stop (CallStart # calls) newService = Inr s \<and>
      sv_launched s = map fst ls \<and> \<not> sv_quitClosed s) \<and>
    (\<exists>s. run_service start stop (CallStop # calls) newService = Inr s \<and> sv_launched s = [] \<and> sv_quitClosed s)"
  using start_first [of newService] stop_first [of newService] assms
    run_service_late [of 1 calls "fold go_stmt ls (newService\<lparr>sv_started := 1\<rparr>)"]
    run_service_late [of 1 calls "newService\<lparr>sv_started := 1, sv_quitClosed := True\<rparr>"]
  by (simp add: go_stmts) (simp add: newService_def)

end

lemma service_Start_laws:
  "sv_started s = 0 \<Longrightarrow> service_Start ls s = Inr (fold go_stmt ls (s\<lparr>sv_started := 1\<rparr>))"
  "sv_started s \<noteq> 0 \<Longrightarrow> service_Start ls s = Inr (s\<lparr>sv_started := sv_started s + 1\<rparr>)"
  by (simp_all add: service_Start_def)

lemma service_Stop_laws:
  "sv_shutdown s = 0 \<Longrightarrow> \<not> sv_quitClosed s \<Longrightarrow> service_Stop s = Inr (s\<lparr>sv_shutdown := 1, sv_quitClosed := True\<rparr>)"
  "sv_shutdown s \<noteq> 0 \<Longrightarrow> service_Stop s = Inr (s\<lparr>sv_shutdown := sv_shutdown s + 1\<rparr>)"
  by (simp_all add: service_Stop_def)

lemma service_Stop_started_laws:
  "sv_started s = 0 \<Longrightarrow> \<not> sv_quitClosed s \<Longrightarrow>
     service_Stop_started s = Inr (s\<lparr>sv_started := 1, sv_quitClosed := True\<rparr>)"
  "sv_started s \<noteq> 0 \<Longrightarrow> service_Stop_started s = Inr (s\<lparr>sv_started := sv_started s + 1\<rparr>)"
  by (simp_all add: service_Stop_started_def)

lemma started_service_Start:
  "sv_launched (started (service_Start ls)) = map fst ls"
  "sv_mainAdds (started (service_Start ls)) = sum_list (map (snd \<circ> snd) ls)"
  by (simp_all add: started_def service_Start_laws newService_def go_stmts)

lemmas service_laws = service_Start_laws service_Stop_laws service_Stop_started_laws

interpretation preprocessor: managed_service DocPreprocessor_Start DocPreprocessor_Stop "[(StreamPartitioner, 1, 0)]"
  by unfold_locales (simp_all add: service_defs service_laws)

interpretation keymanager: managed_service KeyManager_Start KeyManager_Stop "[(KeyRequestHandler, 1, 0)]"
  by unfold_locales (simp_all add: service_defs service_laws)

interpretation docstreamer: managed_service "EncryptedDocStreamer_Start n" EncryptedDocStreamer_Stop
    "replicate n (DocEncrypterG, 1, 0) @ [(DocUploaderG, 1, 0)]" for n
  by unfold_locales (simp_all add: service_defs service_laws sum_list_replicate)

interpretation indexgenerator: managed_service "EncryptedIndexGenerator_Start n" EncryptedIndexGenerator_Stop
    "[(ChanSplitter, 1, 1)] @ replicate n (XSetWorker, 1, 1) @ replicate n (TSetWorker, 1, 2) @
       [(BloomStreamer, 1, 1), (TSetJanitor, 1, 1)]" for n
  by unfold_locales (simp_all add: service_defs service_laws sum_list_replicate)

interpretation bloommaster: managed_service "bloomMaster_Start first ok n" bloomMaster_Stop
    "bloomMaster_launches first ok n" for first ok n
  by unfold_locales (simp_all add: service_defs service_laws sum_list_replicate)

interpretation docdatabase: managed_service "documentDatabase_Start n" documentDatabase_Stop
    "replicate n (ReadHandler, 1, 0) @ [(WriteHandler, 1, 0)]" for n
  by unfold_locales (simp_all add: service_defs service_laws sum_list_replicate)

interpretation corpusreader: shared_counter_service CorpusReader_Start CorpusReader_Stop
    "[(DirWalker, 2, 0), (DocReader, 0, 0)]"
  by unfold_locales (simp_all add: service_defs service_laws)

interpretation termfrequency: shared_counter_service "TermFrequency_Start n" TermFrequency_Stop
    "initMappers n @ initShufflers 26 @ initReducers 26 @ [(Populate, 2, 2), (FilterInit, 0, 0)]" for n
  by unfold_locales (simp_all add: service_defs service_laws)

lemmas launched_names = list.map map_append map_replicate fst_conv append_Cons append_Nil

section \<open>Properties\<close>

text \<open>C38: The service protocol.  For every sequence of fewer than 2^32 calls of \<open>Start\<close> and \<open>Stop\<close>,
  in any order and number, nothing panics, the goroutines of the component are launched once if
  \<open>Start\<close> was called and never otherwise, \<open>quit\<close> is closed exactly if \<open>Stop\<close> was called, and the
  wait group counts the launched goroutines: the \<open>Wait\<close> of \<open>Stop\<close> returns exactly when all of them
  have called \<open>Done\<close>.\<close>

theorem service_lifecycle:
  assumes "length calls < 2 ^ 32"
  shows "\<forall>(start, stop, gs) \<in>
     {(DocPreprocessor_Start, DocPreprocessor_Stop, [StreamPartitioner]),
      (KeyManager_Start, KeyManager_Stop, [KeyRequestHandler]),
      (EncryptedDocStreamer_Start n, EncryptedDocStreamer_Stop, replicate n DocEncrypterG @ [DocUploaderG]),
      (EncryptedIndexGenerator_Start n, EncryptedIndexGenerator_Stop,
         ChanSplitter # replicate n XSetWorker @ replicate n TSetWorker @ [BloomStreamer, TSetJanitor]),
      (bloomMaster_Start True ok n, bloomMaster_Stop,
         XFilterUploader # replicate n BloomWorker @ [FreqBloomSaver, QueryHandler]),
      (bloomMaster_Start False True n, bloomMaster_Stop, [QueryHandler]),
      (documentDatabase_Start n, documentDatabase_Stop, replicate n ReadHandler @ [WriteHandler])}.
    \<exists>s. run_service start stop calls newService = Inr s \<and>
      sv_launched s = (if CallStart \<in> set calls then gs else []) \<and>
      (sv_quitClosed s \<longleftrightarrow> CallStop \<in> set calls) \<and>
      (\<forall>k \<le> length (sv_launched s). \<exists>t. leave_n k s = Inr t \<and> (stop_returns t \<longleftrightarrow> k = length (sv_launched s)))"
  using preprocessor.lifecycle [OF assms] keymanager.lifecycle [OF assms] docstreamer.lifecycle [OF assms, of n]
    indexgenerator.lifecycle [OF assms, of n] bloommaster.lifecycle [OF assms, of True ok n]
    bloommaster.lifecycle [OF assms, of False True n] docdatabase.lifecycle [OF assms, of n]
  by (simp only: launched_names ball_simps(5,7) prod.case if_True if_False simp_thms bloomMaster_launches_def)

theorem service_lifecycle_witness:
  "\<exists>s. run_service KeyManager_Start KeyManager_Stop [CallStart, CallStop, CallStart, CallStop] newService = Inr s \<and>
     sv_launched s = [KeyRequestHandler] \<and> sv_quitClosed s"
  using service_lifecycle [of "[CallStart, CallStop, CallStart, CallStop]" 1 True] by auto

text \<open>The corpus reader and the term frequency calculator cannot be stopped.  Their \<open>Stop\<close> counts
  \<open>started\<close>, so only the very first call has an effect: if it is \<open>Start\<close>, no later \<open>Stop\<close> closes
  \<open>quit\<close>; if it is \<open>Stop\<close>, no later \<open>Start\<close> launches anything.\<close>

theorem stop_counts_started:
  assumes "length calls + 1 < 2 ^ 32"
  shows "\<forall>(start, stop, gs) \<in> {(CorpusReader_Start, CorpusReader_Stop, [DirWalker, DocReader]),
      (TermFrequency_Start n, TermFrequency_Stop,
        replicate n Mapper @ replicate 26 Shuffler @ replicate 26 Reducer @ [Populate, FilterInit])}.
    (\<exists>s. run_service start stop (CallStart # calls) newService = Inr s \<and> sv_launched s = gs \<and> \<not> sv_quitClosed s) \<and>
    (\<exists>s. run_service start stop (CallStop # calls) newService = Inr s \<and> sv_launched s = [] \<and> sv_quitClosed s)"
  using corpusreader.only_first_call_counts [OF assms] termfrequency.only_first_call_counts [OF assms, of n]
  by (simp only: launched_names ball_simps(5,7) prod.case initMappers_def initShufflers_def initReducers_def simp_thms)

theorem stop_counts_started_witness:
  "\<exists>s. run_service CorpusReader_Start CorpusReader_Stop [CallStart, CallStop] newService = Inr s \<and> \<not> sv_quitClosed s"
  using stop_counts_started [of "[CallStop]" 1] by auto

text \<open>The first error crashes the process instead of stopping it: the list of stop functions
  starts with ten nil entries, so that whatever functions were registered, none is called before
  the panic.\<close>

theorem handleErrors_panics:
  "handleErrors (fold collectStopFuncs fs NewErrorHandler) = ([], Inl NilDereference)"
proof -
  have "stopFuncs (fold collectStopFuncs fs e) = stopFuncs e @ map Some fs" for e :: "'a errorHandler"
    by (induction fs arbitrary: e) (simp_all add: collectStopFuncs_def)
  then show ?thesis by (simp add: handleErrors_def NewErrorHandler_def numeral_eq_Suc)
qed

end
