(* ===== verification/BloomMaster.thy ===== *)
theory BloomMaster
  imports Bolt Service
begin

text \<open>
  The bloom filter manager of \<open>client_proxy/bloom_master.go\<close>: its messages and their handlers, the
  worker that dispatches them, the x-set and bucket signals, queries, and saving and loading the
  frequency filters.  The filters of github.com/willf/bloom are a parameter (\<open>bloom_lib\<close>) with the
  documented absence of false negatives.
\<close>

datatype BloomFrequencyBucket = Below100 | Below1000 | Below10000 | Below100000 | BucketUnknown

definition numBuckets :: nat where
  "numBuckets = 4"

definition bloomBucketKey :: bytes where
  "bloomBucketKey = str_bytes ''blooms''"

fun bucketToKey :: "BloomFrequencyBucket \<Rightarrow> bytes" where
  "bucketToKey Below100 = str_bytes ''b_100''"
| "bucketToKey Below1000 = str_bytes ''b_1000''"
| "bucketToKey Below10000 = str_bytes ''b_10000''"
| "bucketToKey Below100000 = str_bytes ''b_100000''"
| "bucketToKey BucketUnknown = []"

definition bucket_of :: "nat \<Rightarrow> BloomFrequencyBucket" where
  "bucket_of i = (if i = 0 then Below100 else if i = 1 then Below1000 else if i = 2 then Below10000
     else if i = 3 then Below100000 else BucketUnknown)"

section \<open>The filter library\<close>

record 'f bloom_lib =
  NewWithEstimates :: "u64 \<Rightarrow> 'f"
  bf_add :: "'f \<Rightarrow> bytes \<Rightarrow> 'f"
  bf_test :: "'f \<Rightarrow> bytes \<Rightarrow> bool"
  GobEncode :: "'f \<Rightarrow> bytes option"
  GobDecode :: "bytes \<Rightarrow> 'f option"

definition bloom_doc :: "'f bloom_lib \<Rightarrow> bool" where
  "bloom_doc L \<longleftrightarrow>
     (\<forall>f x. bf_test L (bf_add L f x) x) \<and>
     (\<forall>f x y. bf_test L f y \<longrightarrow> bf_test L (bf_add L f x) y) \<and>
     (\<forall>f bs. GobEncode L f = Some bs \<longrightarrow> GobDecode L bs = Some f)"

text \<open>The contract of a filter, for its clients.\<close>

locale membership =
  fixes add :: "'s \<Rightarrow> 'x \<Rightarrow> 's" and mem :: "'s \<Rightarrow> 'x \<Rightarrow> bool"
  assumes mem_add: "mem (add s x) x"
    and mem_keep: "mem s y \<Longrightarrow> mem (add s x) y"
begin

lemma mem_keep_all: "mem s y \<Longrightarrow> mem (foldl add s xs) y"
  by (induction xs arbitrary: s) (simp_all add: mem_keep)

lemma mem_add_all: "x \<in> set xs \<Longrightarrow> mem (foldl add s xs) x"
  by (induction xs arbitrary: s) (auto simp: mem_add mem_keep_all)

end

section \<open>State and messages\<close>

record 'f bloomMaster =
  bm_xSetReady :: bool
  bm_freqBucketsReady :: bool
  bm_xFilterFinished :: bool
  bm_finished :: "BloomFrequencyBucket list"
  bm_xSetFilter :: "'f option"
  bm_xFinalSize :: u64
  bm_xNumAdded :: "32 word"
  bm_buckets :: "BloomFrequencyBucket \<rightharpoonup> 'f"
  bm_fullSize :: "BloomFrequencyBucket \<Rightarrow> u64"
  bm_currentSize :: "BloomFrequencyBucket \<Rightarrow> u64"

datatype bloom_msg =
    XSetSizeInit u64
  | XSetAdd "bytes list"
  | FreqBucketInit "(BloomFrequencyBucket \<times> u64) list"
  | FreqBucketAdd BloomFrequencyBucket "string list"

definition newBloomMaster :: "'f bloomMaster" where
  "newBloomMaster =
     \<lparr>bm_xSetReady = False, bm_freqBucketsReady = False, bm_xFilterFinished = False, bm_finished = [],
      bm_xSetFilter = None, bm_xFinalSize = 0, bm_xNumAdded = 0, bm_buckets = Map.empty,
      bm_fullSize = (\<lambda>_. 0), bm_currentSize = (\<lambda>_. 0)\<rparr>"

text \<open>The client side of the message channel: after \<open>shutdown\<close> a message is refused.\<close>

definition queue_msg :: "nat \<Rightarrow> bloom_msg \<Rightarrow> bloom_msg list \<Rightarrow> bool \<times> bloom_msg list" where
  "queue_msg shutdown msg msgChan = (if shutdown \<noteq> 0 then (False, msgChan) else (True, msgChan @ [msg]))"

definition InitXSet :: "nat \<Rightarrow> u64 \<Rightarrow> bloom_msg list \<Rightarrow> bool \<times> bloom_msg list" where
  "InitXSet shutdown numElements = queue_msg shutdown (XSetSizeInit numElements)"

definition QueueXSetAdd :: "nat \<Rightarrow> bytes list \<Rightarrow> bloom_msg list \<Rightarrow> bool \<times> bloom_msg list" where
  "QueueXSetAdd shutdown newXtags = queue_msg shutdown (XSetAdd newXtags)"

definition InitFreqBuckets ::
    "nat \<Rightarrow> (BloomFrequencyBucket \<times> u64) list \<Rightarrow> bloom_msg list \<Rightarrow> bool \<times> bloom_msg list" where
  "InitFreqBuckets shutdown freqs = queue_msg shutdown (FreqBucketInit freqs)"

definition QueueFreqBucketAdd ::
    "nat \<Rightarrow> BloomFrequencyBucket \<Rightarrow> string list \<Rightarrow> bloom_msg list \<Rightarrow> bool \<times> bloom_msg list" where
  "QueueFreqBucketAdd shutdown targetBucket words = queue_msg shutdown (FreqBucketAdd targetBucket words)"

section \<open>Handlers\<close>

definition handleXSetInit :: "'f bloom_lib \<Rightarrow> u64 \<Rightarrow> 'f bloomMaster \<Rightarrow> 'f bloomMaster go" where
  "handleXSetInit L numElements b =
     gbind (close_chan (bm_xSetReady b)) (\<lambda>c.
       Inr (b\<lparr>bm_xSetFilter := Some (NewWithEstimates L numElements), bm_xFinalSize := numElements,
              bm_xSetReady := c\<rparr>))"

text \<open>Adding to a nil filter panics.\<close>

fun add_tags :: "'f bloom_lib \<Rightarrow> bytes list \<Rightarrow> 'f bloomMaster \<Rightarrow> 'f bloomMaster go" where
  "add_tags L [] b = Inr b"
| "add_tags L (xTag # tags) b =
     (case bm_xSetFilter b of
        None \<Rightarrow> Inl NilDereference
      | Some f \<Rightarrow>
          add_tags L tags (b\<lparr>bm_xSetFilter := Some (bf_add L f xTag), bm_xNumAdded := bm_xNumAdded b + 1\<rparr>))"

definition handleXSetAdd :: "'f bloom_lib \<Rightarrow> bytes list \<Rightarrow> 'f bloomMaster \<Rightarrow> 'f bloomMaster go" where
  "handleXSetAdd L xTags b =
     gbind (add_tags L xTags b) (\<lambda>b.
       if bm_xNumAdded b = ucast (bm_xFinalSize b)
       then gbind (close_chan (bm_xFilterFinished b)) (\<lambda>c. Inr (b\<lparr>bm_xFilterFinished := c\<rparr>))
       else Inr b)"

definition init_bucket ::
    "'f bloom_lib \<Rightarrow> 'f bloomMaster \<Rightarrow> BloomFrequencyBucket \<times> u64 \<Rightarrow> 'f bloomMaster" where
  "init_bucket L b e =
     b\<lparr>bm_buckets := (bm_buckets b)(fst e \<mapsto> NewWithEstimates L (snd e)),
       bm_fullSize := (bm_fullSize b)(fst e := snd e)\<rparr>"

definition handleFreqBucketInit ::
    "'f bloom_lib \<Rightarrow> (BloomFrequencyBucket \<times> u64) list \<Rightarrow> 'f bloomMaster \<Rightarrow> 'f bloomMaster go" where
  "handleFreqBucketInit L frequencyMap b =
     (let b' = foldl (init_bucket L) b frequencyMap
      in gbind (close_chan (bm_freqBucketsReady b')) (\<lambda>c. Inr (b'\<lparr>bm_freqBucketsReady := c\<rparr>)))"

text \<open>The finished filter is sent by reference, so the queue names its bucket.\<close>

definition handleFreqBucketAdd ::
    "'f bloom_lib \<Rightarrow> BloomFrequencyBucket \<Rightarrow> string list \<Rightarrow> 'f bloomMaster \<Rightarrow> 'f bloomMaster" where
  "handleFreqBucketAdd L targetBucket terms b =
     (case bm_buckets b targetBucket of
        None \<Rightarrow> b
      | Some bucket \<Rightarrow>
          let bucket' = foldl (\<lambda>f t. bf_add L f (str_bytes t)) bucket terms;
              cur = bm_currentSize b targetBucket + of_nat (length terms);
              b' = b\<lparr>bm_buckets := (bm_buckets b)(targetBucket \<mapsto> bucket'),
                     bm_currentSize := (bm_currentSize b)(targetBucket := cur)\<rparr>
          in if bm_fullSize b targetBucket = cur
             then b'\<lparr>bm_finished := bm_finished b @ [targetBucket]\<rparr> else b')"

fun handle_msg :: "'f bloom_lib \<Rightarrow> bloom_msg \<Rightarrow> 'f bloomMaster \<Rightarrow> 'f bloomMaster go" where
  "handle_msg L (XSetSizeInit n) b = handleXSetInit L n b"
| "handle_msg L (XSetAdd tags) b = handleXSetAdd L tags b"
| "handle_msg L (FreqBucketInit freqs) b = handleFreqBucketInit L freqs b"
| "handle_msg L (FreqBucketAdd k terms) b = Inr (handleFreqBucketAdd L k terms b)"

text \<open>One worker, over the messages it takes off the channel.\<close>

fun bloomWorker :: "'f bloom_lib \<Rightarrow> bloom_msg list \<Rightarrow> 'f bloomMaster \<Rightarrow> 'f bloomMaster go" where
  "bloomWorker L [] b = Inr b"
| "bloomWorker L (m # ms) b = gbind (handle_msg L m b) (bloomWorker L ms)"

text \<open>A query walks the filters in the order of the map iteration.\<close>

fun queryHandler :: "'f bloom_lib \<Rightarrow> (BloomFrequencyBucket \<times> 'f) list \<Rightarrow> string \<Rightarrow> BloomFrequencyBucket" where
  "queryHandler L [] query = BucketUnknown"
| "queryHandler L ((bucketRange, flt) # rest) query =
     (if bf_test L flt (str_bytes query) then bucketRange else queryHandler L rest query)"

text \<open>\<open>WaitForXSetInit\<close> returns once the size of the x-set was announced.\<close>

definition WaitForXSetInit :: "'f bloomMaster \<Rightarrow> bool" where
  "WaitForXSetInit b = bm_xSetReady b"

text \<open>A word query, given the order in which the handler ranges over the filters.\<close>

definition QueryWordFrequency ::
    "'f bloom_lib \<Rightarrow> (BloomFrequencyBucket \<times> 'f) list \<Rightarrow> string \<Rightarrow> BloomFrequencyBucket" where
  "QueryWordFrequency L bloomFreqBuckets word = queryHandler L bloomFreqBuckets word"

section \<open>Saving and loading the frequency filters\<close>

text \<open>One Update of the saver: the number of aborts, and the database.\<close>

definition save_filter ::
    "'s bolt_ops \<Rightarrow> 'f bloom_lib \<Rightarrow> 'f bloomMaster \<Rightarrow> BloomFrequencyBucket \<Rightarrow> 's \<Rightarrow> (nat \<times> 's) go" where
  "save_filter B L b whichBucket s =
     (case op_create B True s [bloomBucketKey] of
        Inl e \<Rightarrow> Inl NilDereference
      | Inr s1 \<Rightarrow>
          (case bm_buckets b whichBucket of
             None \<Rightarrow> Inl NilDereference
           | Some flt \<Rightarrow>
               let serializedFilter = (case GobEncode L flt of None \<Rightarrow> [] | Some bs \<Rightarrow> bs);
                   aborts = (if GobEncode L flt = None then 1 else 0);
                   (err, s2) = db_update B (\<lambda>_. op_put B s1 [bloomBucketKey] (bucketToKey whichBucket) serializedFilter) s
               in Inr (aborts + (if err = None then 0 else 1), s2)))"

text \<open>The saver ends after \<open>numBuckets\<close> saves; the flag says whether it got there.\<close>

fun saver_run ::
    "'s bolt_ops \<Rightarrow> 'f bloom_lib \<Rightarrow> 'f bloomMaster \<Rightarrow> nat \<Rightarrow> BloomFrequencyBucket list \<Rightarrow> nat \<Rightarrow> 's
       \<Rightarrow> (bool \<times> nat \<times> 's) go" where
  "saver_run B L b numSaved [] aborts s = Inr (numBuckets \<le> numSaved, aborts, s)"
| "saver_run B L b numSaved (whichBucket # finished) aborts s =
     (if numSaved < numBuckets then
        gbind (save_filter B L b whichBucket s) (\<lambda>(a, s').
          saver_run B L b (numSaved + 1) finished (aborts + a) s')
      else Inr (True, aborts, s))"

definition freqBloomSaver ::
    "'s bolt_ops \<Rightarrow> 'f bloom_lib \<Rightarrow> 'f bloomMaster \<Rightarrow> BloomFrequencyBucket list \<Rightarrow> 's \<Rightarrow> (bool \<times> nat \<times> 's) go" where
  "freqBloomSaver B L b finished s = saver_run B L b 0 finished 0 s"

datatype load_error = FilterNotFound nat | FilterUndecodable nat

fun load_filters ::
    "'s bolt_ops \<Rightarrow> 'f bloom_lib \<Rightarrow> 's \<Rightarrow> nat list \<Rightarrow> 'f bloomMaster \<Rightarrow> load_error option \<times> 'f bloomMaster" where
  "load_filters B L s [] b = (None, b)"
| "load_filters B L s (i # is) b =
     (case op_get B s [bloomBucketKey] (bucketToKey (bucket_of i)) of
        None \<Rightarrow> (Some (FilterNotFound i), b)
      | Some serializedFilter \<Rightarrow>
          (case GobDecode L serializedFilter of
             None \<Rightarrow> (Some (FilterUndecodable i), b)
           | Some flt \<Rightarrow> load_filters B L s is (b\<lparr>bm_buckets := (bm_buckets b)(bucket_of i \<mapsto> flt)\<rparr>)))"

definition loadFiltersFromDb ::
    "'s bolt_ops \<Rightarrow> 'f bloom_lib \<Rightarrow> 's \<Rightarrow> 'f bloomMaster \<Rightarrow> load_error option \<times> 'f bloomMaster" where
  "loadFiltersFromDb B L s b = load_filters B L s [0..<numBuckets] b"

text \<open>\<open>newBloomMaster\<close> looks for the bucket of the filters.\<close>

definition bloom_firstTime :: "'s bolt_ops \<Rightarrow> 's \<Rightarrow> bool" where
  "bloom_firstTime B s = (\<not> op_bucket B s [bloomBucketKey])"

text \<open>The first \<open>Start\<close>: its error, and the goroutines it launches.\<close>

definition bloom_Start ::
    "'s bolt_ops \<Rightarrow> 'f bloom_lib \<Rightarrow> nat \<Rightarrow> 's \<Rightarrow> load_error option \<times> goroutine list \<times> 'f bloomMaster" where
  "bloom_Start B L numWorkers s =
     (let isFirstTime = bloom_firstTime B s; b = newBloomMaster
      in if isFirstTime then
           (None, map fst (bloomMaster_launches True False numWorkers), b)
         else (case loadFiltersFromDb B L s b of
             (Some err, b') \<Rightarrow> (Some err, [], b')
           | (None, b') \<Rightarrow> (None, map fst (bloomMaster_launches False True numWorkers), b')))"

text \<open>The uploader, once the x-set is finished: the bytes sent, and the number of aborts.\<close>

definition xFilterUploader :: "'f bloom_lib \<Rightarrow> (bytes \<Rightarrow> bool) \<Rightarrow> 'f bloomMaster \<Rightarrow> (bytes \<times> nat) go" where
  "xFilterUploader L uploadOk b =
     (case bm_xSetFilter b of
        None \<Rightarrow> Inl NilDereference
      | Some f \<Rightarrow>
          let xFilterBytes = (case GobEncode L f of None \<Rightarrow> [] | Some bs \<Rightarrow> bs)
          in Inr (xFilterBytes,
               (if GobEncode L f = None then 1 else 0) + (if uploadOk xFilterBytes then 0 else 1)))"

section \<open>Lemmas: filters\<close>

lemma membership_lib: "bloom_doc L \<Longrightarrow> membership (bf_add L) (bf_test L)"
  by unfold_locales (simp_all add: bloom_doc_def)

lemma membership_words:
  "bloom_doc L \<Longrightarrow> membership (\<lambda>f t. bf_add L f (str_bytes t)) (\<lambda>f t. bf_test L f (str_bytes t))"
  by unfold_locales (simp_all add: bloom_doc_def)

text \<open>An exact filter with the documented behaviour, for the witnesses: the list of what was added,
  one byte per entry (its length), encoded as that list.\<close>

definition demo_bloom :: "bytes bloom_lib" where
  "demo_bloom =
     \<lparr>NewWithEstimates = (\<lambda>n. []), bf_add = (\<lambda>f x. of_nat (length x) # f),
      bf_test = (\<lambda>f x. of_nat (length x) \<in> set f), GobEncode = Some, GobDecode = Some\<rparr>"

lemma bloom_doc_demo [simp]: "bloom_doc demo_bloom"
  by (simp add: bloom_doc_def demo_bloom_def)

interpretation demo_filter: membership "bf_add demo_bloom" "bf_test demo_bloom"
  by (rule membership_lib) simp

lemma bloomWorker_append:
  "bloomWorker L (ms @ ms') b = gbind (bloomWorker L ms b) (bloomWorker L ms')"
  by (induction ms arbitrary: b) (simp_all add: gbind_def split: sum.split)

lemma add_tags_filter:
  "bm_xSetFilter b = Some f \<Longrightarrow> add_tags L tags b =
     Inr (b\<lparr>bm_xSetFilter := Some (foldl (bf_add L) f tags),
            bm_xNumAdded := bm_xNumAdded b + of_nat (length tags)\<rparr>)"
  by (induction tags arbitrary: b f) (simp_all add: add.assoc)

text \<open>The manager's own sets keep the contract: the x-set under \<open>handleXSetAdd\<close>'s loop, a frequency
  bucket under \<open>handleFreqBucketAdd\<close>.\<close>

definition xset_add :: "'f bloom_lib \<Rightarrow> 'f bloomMaster \<Rightarrow> bytes \<Rightarrow> 'f bloomMaster" where
  "xset_add L b t = (case add_tags L [t] b of Inl _ \<Rightarrow> b | Inr b' \<Rightarrow> b')"

definition xset_mem :: "'f bloom_lib \<Rightarrow> 'f bloomMaster \<Rightarrow> bytes \<Rightarrow> bool" where
  "xset_mem L b t \<longleftrightarrow> (\<forall>f. bm_xSetFilter b = Some f \<longrightarrow> bf_test L f t)"

lemma membership_xset: "bloom_doc L \<Longrightarrow> membership (xset_add L) (xset_mem L)"
  by unfold_locales (auto simp: xset_add_def xset_mem_def bloom_doc_def split: option.splits)

definition bucket_mem :: "'f bloom_lib \<Rightarrow> BloomFrequencyBucket \<Rightarrow> 'f bloomMaster \<Rightarrow> string \<Rightarrow> bool" where
  "bucket_mem L k b w \<longleftrightarrow> (\<forall>f. bm_buckets b k = Some f \<longrightarrow> bf_test L f (str_bytes w))"

lemma membership_bucket: "bloom_doc L \<Longrightarrow> membership (\<lambda>b w. handleFreqBucketAdd L k [w] b) (bucket_mem L k)"
  by unfold_locales (auto simp: handleFreqBucketAdd_def bucket_mem_def bloom_doc_def Let_def split: option.splits if_splits)

interpretation xset: membership "xset_add demo_bloom" "xset_mem demo_bloom"
  by (rule membership_xset) simp

interpretation freq: membership "\<lambda>b w. handleFreqBucketAdd demo_bloom k [w] b" "bucket_mem demo_bloom k" for k
  by (rule membership_bucket) simp

section \<open>Lemmas: the x-set signal\<close>

lemma xset_adds:
  assumes "bm_xSetFilter b = Some f" and "\<not> bm_xFilterFinished b"
    and "bm_xNumAdded b = of_nat c" and "bm_xFinalSize b = of_nat n" and "n < 2 ^ 32"
    and "\<forall>ts \<in> set tss. ts \<noteq> []" and "c + length (concat tss) \<le> n"
  shows "bloomWorker L (map XSetAdd tss) b =
    Inr (b\<lparr>bm_xSetFilter := Some (foldl (bf_add L) f (concat tss)),
           bm_xNumAdded := of_nat (c + length (concat tss)),
           bm_xFilterFinished := (tss \<noteq> [] \<and> c + length (concat tss) = n)\<rparr>)"
  using assms
proof (induction tss arbitrary: b f c)
  case Nil
  then show ?case by simp
next
  case (Cons ts tss)
  let ?c = "c + length ts"
  have u: "(ucast (of_nat n :: u64) :: 32 word) = of_nat n" 
    using Cons.prems(5) by (simp add: unsigned_of_nat take_bit_nat_eq_self)
  have eq: "(of_nat ?c :: 32 word) = of_nat n \<longleftrightarrow> ?c = n"
    using Cons.prems(5,7) unfolding word_of_nat_eq_iff
    by (simp add: take_bit_nat_eq_self del: of_nat_add)
  let ?b = "b\<lparr>bm_xSetFilter := Some (foldl (bf_add L) f ts), bm_xNumAdded := of_nat ?c,
              bm_xFilterFinished := (?c = n)\<rparr>"
  have h: "handle_msg L (XSetAdd ts) b = Inr ?b"
    using Cons.prems(2,3,4) eq u
    by (simp add: handleXSetAdd_def add_tags_filter [OF Cons.prems(1)])
  show ?case
  proof (cases "tss = []")
    case True
    with h show ?thesis by simp
  next
    case False
    with Cons.prems(6) obtain a tss' where "tss = a # tss'" "0 < length a"
      by (cases tss) auto
    with Cons.prems(7) have "?c < n" by (simp del: length_greater_0_conv)
    with Cons.IH [of ?b "foldl (bf_add L) f ts" ?c] Cons.prems h False show ?thesis
      by (simp add: add.assoc)
  qed
qed

text \<open>From the announced size on, for any part of the tags.\<close>

lemma xset_run:
  assumes "\<forall>ts \<in> set uss. ts \<noteq> []" and "n < 2 ^ 32" and "length (concat uss) \<le> n"
  shows "bloomWorker L (XSetSizeInit (of_nat n) # map XSetAdd uss) newBloomMaster =
    Inr (newBloomMaster\<lparr>bm_xFinalSize := of_nat n, bm_xSetReady := True,
      bm_xSetFilter := Some (foldl (bf_add L) (NewWithEstimates L (of_nat n)) (concat uss)),
      bm_xNumAdded := of_nat (length (concat uss)),
      bm_xFilterFinished := (uss \<noteq> [] \<and> length (concat uss) = n)\<rparr>)"
proof -
  let ?b0 = "newBloomMaster\<lparr>bm_xSetFilter := Some (NewWithEstimates L (of_nat n)), bm_xFinalSize := of_nat n,
               bm_xSetReady := True\<rparr>"
  have "handleXSetInit L (of_nat n) newBloomMaster = Inr ?b0"
    by (simp add: handleXSetInit_def newBloomMaster_def)
  then show ?thesis
    using xset_adds [of ?b0 "NewWithEstimates L (of_nat n)" 0 n uss L] assms
    by (simp add: newBloomMaster_def)
qed

section \<open>Several workers on the x-set\<close>

text \<open>
  Workers in the middle of \<open>handleXSetAdd\<close>: per worker the tags it has left, or \<open>None\<close> when it is
  done; adding and counting a tag is a step, and so is the comparison with the final size (and
  the close that follows it).
\<close>

record xadd =
  xa_workers :: "nat option list"
  xa_count :: nat
  xa_closed :: bool
  xa_panicked :: bool

inductive xadd_step :: "nat \<Rightarrow> xadd \<Rightarrow> xadd \<Rightarrow> bool" for finalSize where
  add_tag: "\<not> xa_panicked s \<Longrightarrow> i < length (xa_workers s) \<Longrightarrow> xa_workers s ! i = Some (Suc k) \<Longrightarrow>
    xadd_step finalSize s (s\<lparr>xa_workers := (xa_workers s)[i := Some k], xa_count := xa_count s + 1\<rparr>)"
| not_final: "\<not> xa_panicked s \<Longrightarrow> i < length (xa_workers s) \<Longrightarrow> xa_workers s ! i = Some 0 \<Longrightarrow>
    xa_count s \<noteq> finalSize \<Longrightarrow> xadd_step finalSize s (s\<lparr>xa_workers := (xa_workers s)[i := None]\<rparr>)"
| final: "\<not> xa_panicked s \<Longrightarrow> i < length (xa_workers s) \<Longrightarrow> xa_workers s ! i = Some 0 \<Longrightarrow>
    xa_count s = finalSize \<Longrightarrow> close_chan (xa_closed s) = Inr c \<Longrightarrow>
    xadd_step finalSize s (s\<lparr>xa_workers := (xa_workers s)[i := None], xa_closed := c\<rparr>)"
| final_again: "\<not> xa_panicked s \<Longrightarrow> i < length (xa_workers s) \<Longrightarrow> xa_workers s ! i = Some 0 \<Longrightarrow>
    xa_count s = finalSize \<Longrightarrow> close_chan (xa_closed s) = Inl p \<Longrightarrow>
    xadd_step finalSize s (s\<lparr>xa_panicked := True\<rparr>)"

lemma drain_worker:
  assumes "i < length ws" and "ws ! i = Some k"
  shows "(xadd_step n)\<^sup>*\<^sup>* \<lparr>xa_workers = ws, xa_count = c, xa_closed = False, xa_panicked = False\<rparr>
     \<lparr>xa_workers = ws[i := Some 0], xa_count = c + k, xa_closed = False, xa_panicked = False\<rparr>"
  using assms
proof (induction k arbitrary: ws c)
  case 0
  then have "ws[i := Some 0] = ws" by (metis list_update_id)
  then show ?case by simp
next
  case (Suc k)
  let ?s = "\<lparr>xa_workers = ws, xa_count = c, xa_closed = False, xa_panicked = False\<rparr>"
  have "xadd_step n ?s (?s\<lparr>xa_workers := (xa_workers ?s)[i := Some k], xa_count := xa_count ?s + 1\<rparr>)"
    using Suc.prems by (intro xadd_step.add_tag) simp_all
  moreover have "(xadd_step n)\<^sup>*\<^sup>*
      \<lparr>xa_workers = ws[i := Some k], xa_count = c + 1, xa_closed = False, xa_panicked = False\<rparr>
      \<lparr>xa_workers = ws[i := Some 0], xa_count = c + 1 + k, xa_closed = False, xa_panicked = False\<rparr>"
    using Suc.IH [of "ws[i := Some k]" "c + 1"] Suc.prems by simp
  ultimately show ?case by (simp add: converse_rtranclp_into_rtranclp)
qed

section \<open>Lemmas: frequency buckets\<close>

definition freq_adds ::
    "'f bloom_lib \<Rightarrow> (BloomFrequencyBucket \<times> string list) list \<Rightarrow> 'f bloomMaster \<Rightarrow> 'f bloomMaster" where
  "freq_adds L adds b = foldl (\<lambda>b a. handleFreqBucketAdd L (fst a) (snd a) b) b adds"

definition words_for :: "BloomFrequencyBucket \<Rightarrow> (BloomFrequencyBucket \<times> string list) list \<Rightarrow> string list" where
  "words_for k adds = concat (map snd (filter (\<lambda>a. fst a = k) adds))"

lemma bloomWorker_freq_adds:
  "bloomWorker L (map (\<lambda>a. FreqBucketAdd (fst a) (snd a)) adds) b = Inr (freq_adds L adds b)"
  by (induction adds arbitrary: b) (simp_all add: freq_adds_def)

lemma freq_adds_buckets:
  "bm_buckets (freq_adds L adds b) k =
     map_option (\<lambda>f. foldl (\<lambda>f t. bf_add L f (str_bytes t)) f (words_for k adds)) (bm_buckets b k)"
proof (induction adds arbitrary: b)
  case Nil
  show ?case by (cases "bm_buckets b k") (simp_all add: freq_adds_def words_for_def)
next
  case (Cons a adds)
  have "bm_buckets (handleFreqBucketAdd L (fst a) (snd a) b) k =
      (if fst a = k then map_option (\<lambda>f. foldl (\<lambda>f t. bf_add L f (str_bytes t)) f (snd a)) (bm_buckets b k)
       else bm_buckets b k)"
    by (simp add: handleFreqBucketAdd_def Let_def split: option.split)
  with Cons [of "handleFreqBucketAdd L (fst a) (snd a) b"] show ?case
    by (cases "bm_buckets b k") (simp_all add: freq_adds_def words_for_def)
qed

lemma init_buckets:
  assumes "distinct (map fst kvs)"
  shows "bm_buckets (foldl (init_bucket L) b kvs) k =
      (case map_of kvs k of None \<Rightarrow> bm_buckets b k | Some n \<Rightarrow> Some (NewWithEstimates L n))"
    and "bm_fullSize (foldl (init_bucket L) b kvs) k =
      (case map_of kvs k of None \<Rightarrow> bm_fullSize b k | Some n \<Rightarrow> n)"
    and "bm_currentSize (foldl (init_bucket L) b kvs) = bm_currentSize b"
    and "bm_finished (foldl (init_bucket L) b kvs) = bm_finished b"
    and "bm_freqBucketsReady (foldl (init_bucket L) b kvs) = bm_freqBucketsReady b"
  using assms
proof (induction kvs arbitrary: b)
  case Nil
  {
    case 1 then show ?case by simp
  next
    case 2 then show ?case by simp
  next
    case 3 then show ?case by simp
  next
    case 4 then show ?case by simp
  next
    case 5 then show ?case by simp
  }
next
  case (Cons e kvs)
  have m: "fst e \<notin> set (map fst kvs) \<Longrightarrow> map_of kvs (fst e) = None"
    by (simp add: map_of_eq_None_iff)
  {
    case 1
    with Cons(1) [of "init_bucket L b e"] m show ?case
      by (cases e) (auto simp: init_bucket_def split: option.splits)
  next
    case 2
    with Cons(2) [of "init_bucket L b e"] m show ?case
      by (cases e) (auto simp: init_bucket_def split: option.splits)
  next
    case 3
    with Cons(3) [of "init_bucket L b e"] show ?case by (simp add: init_bucket_def)
  next
    case 4
    with Cons(4) [of "init_bucket L b e"] show ?case by (simp add: init_bucket_def)
  next
    case 5
    with Cons(5) [of "init_bucket L b e"] show ?case by (simp add: init_bucket_def)
  }
qed

lemma freq_adds_finished:
  assumes "bm_buckets b k \<noteq> None" and "bm_fullSize b k = of_nat n" and "n < 2 ^ 64"
    and "bm_currentSize b k = of_nat c" and "c + length (words_for k adds) \<le> n"
    and "\<forall>a \<in> set adds. fst a = k \<longrightarrow> snd a \<noteq> []"
  shows "count_list (bm_finished (freq_adds L adds b)) k =
    count_list (bm_finished b) k +
      (if words_for k adds \<noteq> [] \<and> c + length (words_for k adds) = n then 1 else 0)"
  using assms
proof (induction adds arbitrary: b c)
  case Nil
  then show ?case by (simp add: freq_adds_def words_for_def)
next
  case (Cons a adds)
  let ?b = "handleFreqBucketAdd L (fst a) (snd a) b"
  obtain f where f: "bm_buckets b k = Some f" using Cons.prems(1) by blast
  have step: "freq_adds L (a # adds) b = freq_adds L adds ?b" by (simp add: freq_adds_def)
  show ?case
  proof (cases "fst a = k")
    case False
    then have "bm_buckets ?b k = bm_buckets b k" "bm_fullSize ?b k = bm_fullSize b k"
      "bm_currentSize ?b k = bm_currentSize b k"
      "count_list (bm_finished ?b) k = count_list (bm_finished b) k"
      by (simp_all add: handleFreqBucketAdd_def Let_def split: option.split)
    with Cons.IH [of ?b c] Cons.prems False show ?thesis
      by (simp add: step words_for_def)
  next
    case True
    let ?c = "c + length (snd a)"
    have w: "words_for k (a # adds) = snd a @ words_for k adds" using True by (simp add: words_for_def)
    have ne: "snd a \<noteq> []" using Cons.prems(6) True by simp
    have le: "?c + length (words_for k adds) \<le> n" using Cons.prems(5) by (simp add: w)
    have eq: "(of_nat n :: u64) = of_nat ?c \<longleftrightarrow> n = ?c"
      using Cons.prems(3) le unfolding word_of_nat_eq_iff
      by (simp add: take_bit_nat_eq_self del: of_nat_add)
    have b: "bm_buckets ?b k \<noteq> None" "bm_fullSize ?b k = of_nat n" "bm_currentSize ?b k = of_nat ?c"
      "count_list (bm_finished ?b) k = count_list (bm_finished b) k + (if n = ?c then 1 else 0)"
      using f True Cons.prems(2,4) eq by (simp_all add: handleFreqBucketAdd_def Let_def)
    have IH: "count_list (bm_finished (freq_adds L adds ?b)) k = count_list (bm_finished ?b) k +
        (if words_for k adds \<noteq> [] \<and> ?c + length (words_for k adds) = n then 1 else 0)"
      using Cons.IH [OF b(1,2) Cons.prems(3) b(3) le] Cons.prems(6) by simp
    show ?thesis
    proof (cases "words_for k adds")
      case Nil
      then show ?thesis unfolding step IH b(4) w using ne by simp
    next
      case (Cons x xs)
      with le have "n \<noteq> ?c" by simp
      then show ?thesis unfolding step IH b(4) w using ne by (simp add: Cons add.assoc)
    qed
  qed
qed

lemma freq_adds_empty:
  assumes "\<forall>a \<in> set adds. snd a = [] \<and> bm_buckets b (fst a) \<noteq> None"
  shows "bm_finished (freq_adds L adds b) =
    bm_finished b @ filter (\<lambda>k. bm_fullSize b k = bm_currentSize b k) (map fst adds)"
  using assms
proof (induction adds arbitrary: b)
  case Nil
  then show ?case by (simp add: freq_adds_def)
next
  case (Cons a adds)
  let ?b = "handleFreqBucketAdd L (fst a) (snd a) b"
  have b: "bm_buckets ?b = bm_buckets b" "bm_fullSize ?b = bm_fullSize b" "bm_currentSize ?b = bm_currentSize b"
    "bm_finished ?b = bm_finished b @ (if bm_fullSize b (fst a) = bm_currentSize b (fst a) then [fst a] else [])"
    using Cons.prems by (auto simp: handleFreqBucketAdd_def Let_def fun_eq_iff)
  with Cons.IH [of ?b] Cons.prems show ?case by (simp add: freq_adds_def)
qed

lemma queryHandler_hit:
  assumes "(k, f) \<in> set order" and "bf_test L f (str_bytes w)"
  shows "\<exists>f'. (queryHandler L order w, f') \<in> set order \<and> bf_test L f' (str_bytes w)"
  using assms by (induction L order w rule: queryHandler.induct) auto

section \<open>Lemmas: saving and loading\<close>

lemma bloomBucketKey_nonempty [simp]: "bloomBucketKey \<noteq> []"
  by (simp add: bloomBucketKey_def)

lemma bucketToKey_inj [simp]: "bucketToKey j = bucketToKey k \<longleftrightarrow> j = k"
  by (cases j; cases k) (simp_all add: str_bytes_def)

lemma bucketToKey_nonempty: "k \<noteq> BucketUnknown \<Longrightarrow> bucketToKey k \<noteq> []"
  by (cases k) simp_all

lemma bucketToKey_short: "length (bucketToKey k) \<le> 8"
  by (cases k) simp_all

definition blooms_ok :: "'s bolt_ops \<Rightarrow> 's \<Rightarrow> bool" where
  "blooms_ok B s \<longleftrightarrow> (\<forall>k. \<not> op_bucket B s [bloomBucketKey, k])"

text \<open>A filter the saver can write: present, encodable and within the size limit.\<close>

definition savable :: "'f bloom_lib \<Rightarrow> 'f bloomMaster \<Rightarrow> BloomFrequencyBucket \<Rightarrow> bool" where
  "savable L b k \<longleftrightarrow> k \<noteq> BucketUnknown \<and>
     (\<exists>f bs. bm_buckets b k = Some f \<and> GobEncode L f = Some bs \<and> length bs \<le> 2147483646)"

definition encoded :: "'f bloom_lib \<Rightarrow> 'f bloomMaster \<Rightarrow> BloomFrequencyBucket \<Rightarrow> bytes" where
  "encoded L b k = the (GobEncode L (the (bm_buckets b k)))"

lemma save_filter_effect:
  assumes "bolt_doc B" and "bolt_commits B" and "blooms_ok B s" and "savable L b k"
  shows "\<exists>s'. save_filter B L b k s = Inr (0, s') \<and> blooms_ok B s' \<and> op_bucket B s' [bloomBucketKey] \<and>
    (\<forall>j. root_get B bloomBucketKey s' j =
       (if j = bucketToKey k then Some (encoded L b k) else root_get B bloomBucketKey s j))"
proof -
  obtain f bs where f: "bm_buckets b k = Some f" "GobEncode L f = Some bs" "length bs \<le> 2147483646"
    and k: "k \<noteq> BucketUnknown" using assms(4) by (auto simp: savable_def)
  have fits: "bolt_fits (bucketToKey k) bs"
    using f(3) bucketToKey_nonempty [OF k] le_trans [OF bucketToKey_short] by (simp add: bolt_fits_def)
  have nested: "\<forall>k. \<not> op_bucket B s [bloomBucketKey, k]" using assms(3) by (simp add: blooms_ok_def)
  obtain s1 s2 s3 where w: "op_create B True s [bloomBucketKey] = Inr s1"
      "op_put B s1 [bloomBucketKey] (bucketToKey k) bs = Inr s2" "op_commit B s2 = Inr s3"
    and after: "\<forall>q. op_bucket B s3 q \<longleftrightarrow> q = [bloomBucketKey] \<or> op_bucket B s q"
      "\<forall>j. op_get B s3 [bloomBucketKey] j =
        (if j = bucketToKey k then Some bs else root_get B bloomBucketKey s j)"
    using root_write [OF assms(1,2) bloomBucketKey_nonempty nested fits] by (elim exE conjE) (rule that)
  have "save_filter B L b k s = Inr (0, s3)"
    by (simp add: save_filter_def w f db_update_def)
  moreover have "encoded L b k = bs" by (simp add: encoded_def f)
  ultimately show ?thesis
    using after assms(3) by (intro exI [of _ s3]) (simp add: blooms_ok_def root_get_def [of B bloomBucketKey s3])
qed

lemma saver_run_effect:
  assumes "bolt_doc B" and "bolt_commits B"
  shows "blooms_ok B s \<Longrightarrow> \<forall>k \<in> set ks. savable L b k \<Longrightarrow> n + length ks \<le> numBuckets \<Longrightarrow>
    \<exists>s'. saver_run B L b n ks a s = Inr (n + length ks = numBuckets, a, s') \<and>
      (ks \<noteq> [] \<longrightarrow> op_bucket B s' [bloomBucketKey]) \<and>
      (\<forall>k. root_get B bloomBucketKey s' (bucketToKey k) =
         (if k \<in> set ks then Some (encoded L b k) else root_get B bloomBucketKey s (bucketToKey k)))"
proof (induction ks arbitrary: n s)
  case Nil
  then show ?case by auto
next
  case (Cons k ks)
  obtain s1 where s1: "save_filter B L b k s = Inr (0, s1)" "blooms_ok B s1" "op_bucket B s1 [bloomBucketKey]"
    "\<forall>j. root_get B bloomBucketKey s1 j =
       (if j = bucketToKey k then Some (encoded L b k) else root_get B bloomBucketKey s j)"
    using save_filter_effect [OF assms Cons.prems(1), of L b k] Cons.prems(2) by auto
  obtain s' where s': "saver_run B L b (n + 1) ks a s1 = Inr (n + 1 + length ks = numBuckets, a, s')"
    "ks \<noteq> [] \<longrightarrow> op_bucket B s' [bloomBucketKey]"
    "\<forall>k. root_get B bloomBucketKey s' (bucketToKey k) =
       (if k \<in> set ks then Some (encoded L b k) else root_get B bloomBucketKey s1 (bucketToKey k))"
    using Cons.IH [OF s1(2), of "n + 1"] Cons.prems(2,3) by auto
  have "op_bucket B s' [bloomBucketKey]"
    using s'(1,2) s1(3) by (cases ks) auto
  with s' s1 Cons.prems(3) show ?case by (intro exI [of _ s']) auto
qed

lemma load_filters_all:
  assumes "\<forall>i \<in> set is. op_get B s [bloomBucketKey] (bucketToKey (bucket_of i)) = Some (bs (bucket_of i)) \<and>
      GobDecode L (bs (bucket_of i)) = Some (g (bucket_of i))"
  shows "\<exists>b'. load_filters B L s is b = (None, b') \<and>
    (\<forall>k. bm_buckets b' k = (if k \<in> bucket_of ` set is then Some (g k) else bm_buckets b k))"
  using assms
proof (induction "is" arbitrary: b)
  case Nil
  then show ?case by simp
next
  case (Cons i "is")
  let ?b = "b\<lparr>bm_buckets := (bm_buckets b)(bucket_of i \<mapsto> g (bucket_of i))\<rparr>"
  from Cons.IH [of ?b] Cons.prems obtain b' where "load_filters B L s is ?b = (None, b')"
    "\<forall>k. bm_buckets b' k = (if k \<in> bucket_of ` set is then Some (g k) else bm_buckets ?b k)" by auto
  with Cons.prems show ?case by (intro exI [of _ b']) auto
qed

lemma bucket_of_range: "bucket_of ` set [0..<numBuckets] = {k. k \<noteq> BucketUnknown}"
proof -
  have "[0..<numBuckets] = [0, 1, 2, 3]" by (simp add: numBuckets_def upt_rec)
  moreover have "k = BucketUnknown" if "k \<noteq> Below100" "k \<noteq> Below1000" "k \<noteq> Below10000" "k \<noteq> Below100000" for k
    using that by (cases k) simp_all
  ultimately show ?thesis by (auto simp: bucket_of_def)
qed

lemma load_filters_missing:
  "i \<in> set is \<Longrightarrow> op_get B s [bloomBucketKey] (bucketToKey (bucket_of i)) = None \<Longrightarrow>
     \<exists>e b'. load_filters B L s is b = (Some e, b')"
  by (induction "is" arbitrary: b) (auto split: option.split)

section \<open>Properties\<close>

text \<open>C22: The x-set signal.  One worker that gets the x-set's size and then the tag lists of the
  documents, all non-empty, signals completion exactly when the announced number of tags is in,
  not before; it never panics, and no added tag is then missing from the filter.  One more list,
  even an empty one (a document without words), closes the signal a second time and panics.\<close>

theorem xset_signalled_when_complete:
  assumes "bloom_doc L" and "\<forall>ts \<in> set tss. ts \<noteq> []" and "tss \<noteq> []" and "length (concat tss) < 2 ^ 32"
  defines "msgs \<equiv> XSetSizeInit (of_nat (length (concat tss))) # map XSetAdd tss"
  shows "(\<exists>b f. bloomWorker L msgs newBloomMaster = Inr b \<and> bm_xSetReady b \<and> bm_xFilterFinished b \<and>
        bm_xSetFilter b = Some f \<and> (\<forall>ts \<in> set tss. \<forall>t \<in> set ts. bf_test L f t)) \<and>
     (\<forall>k < length tss. \<exists>b. bloomWorker L (take (Suc k) msgs) newBloomMaster = Inr b \<and> \<not> bm_xFilterFinished b) \<and>
     bloomWorker L (msgs @ [XSetAdd []]) newBloomMaster = Inl CloseOfClosedChannel"
proof -
  let ?n = "length (concat tss)"
  note run = xset_run [where n = ?n and L = L]
  let ?b = "newBloomMaster\<lparr>bm_xFinalSize := of_nat ?n, bm_xSetReady := True,
      bm_xSetFilter := Some (foldl (bf_add L) (NewWithEstimates L (of_nat ?n)) (concat tss)),
      bm_xNumAdded := of_nat ?n, bm_xFilterFinished := True\<rparr>"
  have all: "bloomWorker L msgs newBloomMaster = Inr ?b"
    using run [of tss] assms(2,3,4) by (simp add: msgs_def del: bloomWorker.simps)
  have tested: "\<forall>ts \<in> set tss. \<forall>t \<in> set ts.
      bf_test L (foldl (bf_add L) (NewWithEstimates L (of_nat ?n)) (concat tss)) t"
    by (intro ballI membership.mem_add_all [OF membership_lib [OF assms(1)]]) auto
  have part: "\<exists>b. bloomWorker L (take (Suc k) msgs) newBloomMaster = Inr b \<and> \<not> bm_xFilterFinished b"
    if k: "k < length tss" for k
  proof -
    have split: "length (concat (take k tss)) + length (concat (drop k tss)) = ?n"
      by (metis append_take_drop_id concat_append length_append)
    have "drop k tss \<noteq> []" using k by simp
    then obtain t rest where d: "drop k tss = t # rest" by (cases "drop k tss") auto
    then have "t \<in> set tss" by (metis in_set_dropD list.set_intros(1))
    with assms(2) have "t \<noteq> []" by blast
    then have "length (concat (drop k tss)) \<noteq> 0" by (simp add: d)
    with split have lt: "length (concat (take k tss)) < ?n" by linarith
    have "\<forall>ts \<in> set (take k tss). ts \<noteq> []" using assms(2) by (meson in_set_takeD)
    from run [OF this assms(4)] lt show ?thesis
      by (simp add: msgs_def take_map del: bloomWorker.simps)
  qed
  have u: "(ucast (of_nat ?n :: u64) :: 32 word) = of_nat ?n"
    using assms(4) by (simp add: unsigned_of_nat take_bit_nat_eq_self del: length_concat)
  have "handle_msg L (XSetAdd []) ?b = Inl CloseOfClosedChannel"
    using u by (simp add: handleXSetAdd_def del: length_concat)
  then have "bloomWorker L (msgs @ [XSetAdd []]) newBloomMaster = Inl CloseOfClosedChannel"
    unfolding bloomWorker_append all by simp
  with all tested part show ?thesis by simp
qed

theorem xset_signalled_when_complete_witness:
  "(\<exists>b. bloomWorker demo_bloom [XSetSizeInit 3, XSetAdd [[1], [2, 2]], XSetAdd [[3]]] newBloomMaster = Inr b \<and>
      bm_xFilterFinished b) \<and>
   bloomWorker demo_bloom [XSetSizeInit 3, XSetAdd [[1], [2, 2]], XSetAdd [[3]], XSetAdd []] newBloomMaster =
     Inl CloseOfClosedChannel"
  using xset_signalled_when_complete [OF bloom_doc_demo, of "[[[1], [2, 2]], [[3]]]"]
  by (auto simp del: bloomWorker.simps)

text \<open>With two workers the completion signal can be closed twice.  Whatever the sizes of two
  messages that complete the x-set, the workers can both add their tags before either compares
  the counter with the final size, and the second of them panics.\<close>

theorem xset_two_workers_double_close:
  "\<exists>s. (xadd_step (m + n))\<^sup>*\<^sup>* \<lparr>xa_workers = [Some m, Some n], xa_count = 0, xa_closed = False, xa_panicked = False\<rparr> s \<and>
     xa_closed s \<and> xa_panicked s"
proof -
  let ?s0 = "\<lparr>xa_workers = [Some m, Some n], xa_count = 0, xa_closed = False, xa_panicked = False\<rparr>"
  let ?s1 = "\<lparr>xa_workers = [Some 0, Some n], xa_count = m, xa_closed = False, xa_panicked = False\<rparr>"
  let ?s2 = "\<lparr>xa_workers = [Some 0, Some 0], xa_count = m + n, xa_closed = False, xa_panicked = False\<rparr>"
  let ?s3 = "?s2\<lparr>xa_workers := [None, Some 0], xa_closed := True\<rparr>"
  have "(xadd_step (m + n))\<^sup>*\<^sup>* ?s0 ?s1" using drain_worker [of 0 "[Some m, Some n]" m "m + n" 0] by simp
  also have "(xadd_step (m + n))\<^sup>*\<^sup>* ?s1 ?s2" using drain_worker [of 1 "[Some 0, Some n]" n "m + n" m] by simp
  also have "xadd_step (m + n) ?s2 ?s3" using xadd_step.final [of ?s2 0 "m + n" True] by simp
  also have "xadd_step (m + n) ?s3 (?s3\<lparr>xa_panicked := True\<rparr>)"
    using xadd_step.final_again [of ?s3 1 "m + n" CloseOfClosedChannel] by simp
  finally show ?thesis by (intro exI [of _ "?s3\<lparr>xa_panicked := True\<rparr>"]) simp
qed

text \<open>No word is lost by the frequency filters.  After the buckets are created and any sequence
  of additions, a query for a word that was added to an existing bucket is answered, in whatever
  order the filters are tried, with an existing bucket whose filter contains the word, never
  with \<open>BucketUnknown\<close>.\<close>

theorem freq_query_finds_added_word:
  assumes "bloom_doc L" and "distinct (map fst freqs)" and "BucketUnknown \<notin> fst ` set freqs"
    and "k \<in> fst ` set freqs" and "(k, ws) \<in> set adds" and "w \<in> set ws"
  shows "\<exists>b. bloomWorker L (FreqBucketInit freqs # map (\<lambda>a. FreqBucketAdd (fst a) (snd a)) adds) newBloomMaster = Inr b \<and>
    (\<forall>order. ranges (bm_buckets b) order \<longrightarrow>
       queryHandler L order w \<noteq> BucketUnknown \<and>
       (\<exists>f. bm_buckets b (queryHandler L order w) = Some f \<and> bf_test L f (str_bytes w)))"
proof -
  let ?i = "foldl (init_bucket L) newBloomMaster freqs"
  let ?b1 = "?i\<lparr>bm_freqBucketsReady := True\<rparr>"
  note init = init_buckets [OF assms(2), where L = L and b = newBloomMaster]
  have h: "handleFreqBucketInit L freqs newBloomMaster = Inr ?b1"
    by (simp add: handleFreqBucketInit_def init(5)) (simp add: newBloomMaster_def)
  let ?b = "freq_adds L adds ?b1"
  have dom: "bm_buckets ?b1 j \<noteq> None \<longleftrightarrow> j \<in> fst ` set freqs" for j
    using init(1) [of j] by (simp add: newBloomMaster_def map_of_eq_None_iff split: option.split) (metis map_of_eq_None_iff option.distinct(1) set_map)
  obtain f0 where f0: "bm_buckets ?i k = Some f0" using dom [of k] assms(4) by auto
  have "w \<in> set (words_for k adds)" using assms(5,6) by (force simp: words_for_def)
  then have hit: "bf_test L (foldl (\<lambda>f t. bf_add L f (str_bytes t)) f0 (words_for k adds)) (str_bytes w)"
    by (rule membership.mem_add_all [OF membership_words [OF assms(1)]])
  have "queryHandler L order w \<noteq> BucketUnknown \<and>
      (\<exists>f. bm_buckets ?b (queryHandler L order w) = Some f \<and> bf_test L f (str_bytes w))"
    if r: "ranges (bm_buckets ?b) order" for order
  proof -
    have "(k, foldl (\<lambda>f t. bf_add L f (str_bytes t)) f0 (words_for k adds)) \<in> set order"
      using r by (simp add: ranges_Some [symmetric] freq_adds_buckets f0)
    then obtain f where f: "(queryHandler L order w, f) \<in> set order" "bf_test L f (str_bytes w)"
      using queryHandler_hit [OF _ hit] by blast
    then have "bm_buckets ?b (queryHandler L order w) = Some f" using r by (simp add: ranges_Some)
    moreover from this have "queryHandler L order w \<in> fst ` set freqs"
      using dom by (auto simp: freq_adds_buckets)
    ultimately show ?thesis using assms(3) f(2) by metis
  qed
  then show ?thesis by (intro exI [of _ ?b]) (simp add: h bloomWorker_freq_adds)
qed

theorem freq_query_finds_added_word_witness:
  "\<exists>b. bloomWorker demo_bloom [FreqBucketInit [(Below100, 1), (Below1000, 0)], FreqBucketAdd Below100 [''ab'']] newBloomMaster = Inr b \<and>
    (\<forall>order. ranges (bm_buckets b) order \<longrightarrow> queryHandler demo_bloom order ''ab'' \<noteq> BucketUnknown)"
  using freq_query_finds_added_word [OF bloom_doc_demo, of "[(Below100, 1), (Below1000, 0)]" Below100
      "[''ab'']" "[(Below100, [''ab''])]" "''ab''"]
  by auto

text \<open>A bucket is handed to the saver exactly once, when its announced number of words is in,
  provided it is not zero and no empty list is added.\<close>

theorem freq_bucket_finished_once:
  assumes "distinct (map fst freqs)" and "(k, of_nat n) \<in> set freqs" and "n < 2 ^ 64"
    and "length (words_for k adds) \<le> n" and "\<forall>a \<in> set adds. snd a \<noteq> []"
  shows "\<exists>b. bloomWorker L (FreqBucketInit freqs # map (\<lambda>a. FreqBucketAdd (fst a) (snd a)) adds) newBloomMaster = Inr b \<and>
    count_list (bm_finished b) k = (if n \<noteq> 0 \<and> length (words_for k adds) = n then 1 else 0)"
proof -
  let ?i = "foldl (init_bucket L) newBloomMaster freqs"
  let ?b1 = "?i\<lparr>bm_freqBucketsReady := True\<rparr>"
  note init = init_buckets [OF assms(1), where L = L and b = newBloomMaster]
  have h: "handleFreqBucketInit L freqs newBloomMaster = Inr ?b1"
    by (simp add: handleFreqBucketInit_def init(5)) (simp add: newBloomMaster_def)
  have m: "map_of freqs k = Some (of_nat n)" using assms(1,2) by simp
  have "bm_buckets ?b1 k \<noteq> None" "bm_fullSize ?b1 k = of_nat n" "bm_currentSize ?b1 k = of_nat 0"
    "bm_finished ?b1 = []"
    using init m by (simp_all add: newBloomMaster_def)
  from freq_adds_finished [OF this(1,2) assms(3) this(3), of adds] this(4) assms(4,5)
  have "count_list (bm_finished (freq_adds L adds ?b1)) k =
      (if words_for k adds \<noteq> [] \<and> length (words_for k adds) = n then 1 else 0)" by simp
  moreover have "words_for k adds \<noteq> [] \<and> length (words_for k adds) = n \<longleftrightarrow> n \<noteq> 0 \<and> length (words_for k adds) = n"
    by auto
  ultimately show ?thesis
    by (intro exI [of _ "freq_adds L adds ?b1"]) (simp add: h bloomWorker_freq_adds)
qed

theorem freq_bucket_finished_once_witness:
  "\<exists>b. bloomWorker demo_bloom [FreqBucketInit [(Below100, 2)], FreqBucketAdd Below100 [''a''], FreqBucketAdd Below100 [''b'']] newBloomMaster = Inr b \<and>
    count_list (bm_finished b) Below100 = 1"
  using freq_bucket_finished_once [of "[(Below100, 2)]" Below100 2 "[(Below100, [''a'']), (Below100, [''b''])]" demo_bloom]
  by (simp add: words_for_def)

text \<open>C23: Saving and restarting loses no filter: once the saver has received the four buckets, in
  any order, it ends, without an abort, and a new bloom manager on that database is not in its
  first run and has exactly the same filters in memory.\<close>

theorem saved_filters_reload:
  assumes "bolt_doc B" and "bolt_commits B" and "bloom_doc L" and "blooms_ok B s"
    and "\<forall>k. k \<noteq> BucketUnknown \<longrightarrow> savable L b k"
    and "distinct ks" and "set ks = {k. k \<noteq> BucketUnknown}"
  shows "\<exists>s' b'. freqBloomSaver B L b ks s = Inr (True, 0, s') \<and>
    bloom_Start B L n s' = (None, [QueryHandler], b') \<and>
    (\<forall>k. k \<noteq> BucketUnknown \<longrightarrow> bm_buckets b' k = bm_buckets b k)"
proof -
  have "{k. k \<noteq> BucketUnknown} = {Below100, Below1000, Below10000, Below100000}"
    by (auto intro: BloomFrequencyBucket.exhaust)
  with assms(6,7) have len: "length ks = numBuckets"
    by (simp add: distinct_card [symmetric] numBuckets_def)
  have sv: "\<forall>k \<in> set ks. savable L b k" using assms(5,7) by auto
  obtain s' where s': "freqBloomSaver B L b ks s = Inr (True, 0, s')" "op_bucket B s' [bloomBucketKey]"
    and get: "\<And>k. root_get B bloomBucketKey s' (bucketToKey k) =
       (if k \<in> set ks then Some (encoded L b k) else root_get B bloomBucketKey s (bucketToKey k))"
    using saver_run_effect [OF assms(1,2,4) sv, of 0 0] len
    by (auto simp: freqBloomSaver_def numBuckets_def)
  have dec: "GobDecode L (encoded L b k) = Some (the (bm_buckets b k)) \<and> bm_buckets b k \<noteq> None"
    if "k \<noteq> BucketUnknown" for k
    using assms(3,5) that by (force simp: savable_def encoded_def bloom_doc_def)
  have "\<forall>i \<in> set [0..<numBuckets]. bucket_of i \<noteq> BucketUnknown"
    using bucket_of_range by blast
  then have "\<forall>i \<in> set [0..<numBuckets].
      op_get B s' [bloomBucketKey] (bucketToKey (bucket_of i)) = Some (encoded L b (bucket_of i)) \<and>
      GobDecode L (encoded L b (bucket_of i)) = Some (the (bm_buckets b (bucket_of i)))"
    using get s'(2) dec assms(7) by (auto simp: root_get_def)
  from load_filters_all [OF this, of newBloomMaster] obtain b' where
    b': "load_filters B L s' [0..<numBuckets] newBloomMaster = (None, b')"
    "\<forall>k. bm_buckets b' k = (if k \<noteq> BucketUnknown then Some (the (bm_buckets b k)) else bm_buckets newBloomMaster k)"
    unfolding bucket_of_range by auto
  then have "bloom_Start B L n s' = (None, [QueryHandler], b')"
    by (simp add: bloom_Start_def bloom_firstTime_def s'(2) loadFiltersFromDb_def bloomMaster_launches_def)
  with s'(1) b'(2) dec show ?thesis by force
qed

theorem saved_filters_reload_witness:
  "\<exists>s' b'. freqBloomSaver mem_bolt demo_bloom (newBloomMaster\<lparr>bm_buckets := (\<lambda>_. Some [7])\<rparr>)
        [Below1000, Below100, Below100000, Below10000] Map.empty = Inr (True, 0, s') \<and>
     bloom_Start mem_bolt demo_bloom 8 s' = (None, [QueryHandler], b') \<and> bm_buckets b' Below10000 = Some [7]"
proof -
  let ?b = "newBloomMaster\<lparr>bm_buckets := (\<lambda>_. Some [7 :: byte])\<rparr>"
  have "bolt_commits mem_bolt" "blooms_ok mem_bolt Map.empty"
    by (simp_all add: bolt_commits_def blooms_ok_def mem_bucket_def)
  moreover have "\<forall>k. k \<noteq> BucketUnknown \<longrightarrow> savable demo_bloom ?b k"
    by (simp add: savable_def demo_bloom_def)
  moreover have "set [Below1000, Below100, Below100000, Below10000] = {k. k \<noteq> BucketUnknown}"
    by (auto intro: BloomFrequencyBucket.exhaust)
  ultimately show ?thesis
    using saved_filters_reload [OF bolt_doc_mem _ bloom_doc_demo, of Map.empty ?b
        "[Below1000, Below100, Below100000, Below10000]" 8]
    by fastforce
qed

text \<open>If the first run stops between two saves the client cannot start again: a database with
  the bucket but without one of the filters makes \<open>Start\<close> fail and launch no goroutine, not even
  the one that would save the rest or answer queries.\<close>

theorem partial_save_blocks_start:
  assumes "op_bucket B s [bloomBucketKey]" and "k \<noteq> BucketUnknown"
    and "op_get B s [bloomBucketKey] (bucketToKey k) = None"
  shows "\<exists>e b. bloom_Start B L n s = (Some e, [], b)"
proof -
  obtain i where "i \<in> set [0..<numBuckets]" "bucket_of i = k"
  proof -
    have "k \<in> bucket_of ` set [0..<numBuckets]" unfolding bucket_of_range using assms(2) by simp
    then show thesis using that by auto
  qed
  then obtain e b where "loadFiltersFromDb B L s newBloomMaster = (Some e, b)"
    using load_filters_missing [of i "[0..<numBuckets]" B s L newBloomMaster] assms(3)
    by (auto simp: loadFiltersFromDb_def)
  then show ?thesis by (simp add: bloom_Start_def bloom_firstTime_def assms(1))
qed

theorem partial_save_blocks_start_witness:
  "\<exists>e b. bloom_Start mem_bolt demo_bloom 8 [[bloomBucketKey] \<mapsto> [bucketToKey Below100 \<mapsto> [7]]] = (Some e, [], b)"
  using partial_save_blocks_start [of mem_bolt "[[bloomBucketKey] \<mapsto> [bucketToKey Below100 \<mapsto> [7]]]" Below1000]
  by (simp add: mem_bucket_def mem_get_def str_bytes_def)

end
