(* ===== verification/XSetIndex.thy ===== *)
theory XSetIndex
  imports GoHash Keys BloomMaster
begin

text \<open>
  X-set generation in \<open>client_proxy/encrypted_index.go\<close>: \<open>chanSplitter\<close>, the tags \<open>xSetWorker\<close>
  computes for each document, and the protocol by which the workers hand them over and the
  hand-over channel is closed (\<open>pendingXSends\<close>, \<open>closeOnce\<close>, \<open>closeXtagChan\<close>), as a step
  relation.
\<close>

section \<open>Splitting the document stream\<close>

text \<open>Every document goes to the x-set workers first, then to the t-set workers; when the input is
  closed (or \<open>quit\<close> is) both outputs are closed.\<close>

datatype 'd split_event = ToXSet 'd | ToTSet 'd | CloseXSet | CloseTSet

fun chanSplitter :: "'d list \<Rightarrow> 'd split_event list" where
  "chanSplitter [] = [CloseXSet, CloseTSet]"
| "chanSplitter (docIndex # docs) = ToXSet docIndex # ToTSet docIndex # chanSplitter docs"

section \<open>The x-set worker\<close>

text \<open>The elliptic.Curve interface, as far as the worker calls it.\<close>

record 'p curve =
  ScalarBaseMult :: "bytes \<Rightarrow> 'p"
  ScalarMult :: "'p \<Rightarrow> bytes \<Rightarrow> 'p"
  Marshal :: "'p \<Rightarrow> bytes"

record xset_worker =
  xw_xInd :: hash
  xw_xTag :: hash
  xw_indBuf :: bytes

text \<open>\<open>bytes.NewBuffer\<close> takes the four zero bytes of \<open>indBytes\<close> as the buffer's contents.\<close>

definition xSetWorker_init :: "prf_lib \<Rightarrow> keyMap \<Rightarrow> xset_worker" where
  "xSetWorker_init L K =
     \<lparr>xw_xInd = cmac_new L (key_of K XIndKey),
      xw_xTag = cmac_new L (key_of K XTagKey),
      xw_indBuf = replicate 4 0\<rparr>"

text \<open>\<open>io.Copy\<close> moves the whole buffer into the PRF and leaves it empty.\<close>

definition xSetWorker_word ::
    "'p curve \<Rightarrow> prf_lib \<Rightarrow> u32 \<Rightarrow> string \<Rightarrow> xset_worker \<Rightarrow> (bytes \<times> xset_worker) go" where
  "xSetWorker_word C L docId word w =
     (let indBuf = xw_indBuf w @ be32 docId
      in gbind (hash_write (xw_xInd w) indBuf) (\<lambda>xIndPRF.
         gbind (hash_sum L xIndPRF) (\<lambda>xind.
         gbind (hash_write (xw_xTag w) (str_bytes word)) (\<lambda>xTagPRF.
         gbind (hash_sum L xTagPRF) (\<lambda>wtag.
           let xy = ScalarBaseMult C xind;
               xTag = ScalarMult C xy wtag
           in Inr (Marshal C xTag,
                   w\<lparr>xw_xInd := xIndPRF, xw_xTag := xTagPRF, xw_indBuf := []\<rparr>))))))"

fun xSetWorker_words ::
    "'p curve \<Rightarrow> prf_lib \<Rightarrow> u32 \<Rightarrow> string list \<Rightarrow> xset_worker \<Rightarrow> (bytes list \<times> xset_worker) go" where
  "xSetWorker_words C L docId [] w = Inr ([], w)"
| "xSetWorker_words C L docId (word # ws) w =
     gbind (xSetWorker_word C L docId word w) (\<lambda>(xTag, w').
     gbind (xSetWorker_words C L docId ws w') (\<lambda>(xTags, w''). Inr (xTag # xTags, w'')))"

definition xSetWorker_doc ::
    "'p curve \<Rightarrow> prf_lib \<Rightarrow> u32 \<Rightarrow> string list \<Rightarrow> xset_worker \<Rightarrow> (bytes list \<times> xset_worker) go" where
  "xSetWorker_doc C L docId ws w =
     gbind (xSetWorker_words C L docId ws w) (\<lambda>(xTags, w').
     gbind (hash_reset (xw_xTag w')) (\<lambda>xTagPRF.
     gbind (hash_reset (xw_xInd w')) (\<lambda>xIndPRF.
       Inr (xTags, w'\<lparr>xw_indBuf := [], xw_xTag := xTagPRF, xw_xInd := xIndPRF\<rparr>))))"

text \<open>The tag lists one worker hands over, a list per document.\<close>

fun xSetWorker_run ::
    "'p curve \<Rightarrow> prf_lib \<Rightarrow> (u32 \<times> string list) list \<Rightarrow> xset_worker \<Rightarrow> bytes list list go" where
  "xSetWorker_run C L [] w = Inr []"
| "xSetWorker_run C L ((docId, ws) # docs) w =
     gbind (xSetWorker_doc C L docId ws w) (\<lambda>(xTags, w').
     gbind (xSetWorker_run C L docs w') (\<lambda>rest. Inr (xTags # rest)))"

definition xSetWorker ::
    "'p curve \<Rightarrow> prf_lib \<Rightarrow> keyMap \<Rightarrow> (u32 \<times> string list) list \<Rightarrow> bytes list list go" where
  "xSetWorker C L K docs = xSetWorker_run C L docs (xSetWorker_init L K)"

section \<open>The bloom streamer\<close>

text \<open>\<open>bloomStreamer\<close> waits until the size of the x-set is known and then queues the tag lists it takes
  off the channel until that is closed; \<open>None\<close>: it still waits.\<close>

definition bloomStreamer ::
    "'f bloomMaster \<Rightarrow> nat \<Rightarrow> bytes list list \<Rightarrow> bloom_msg list \<Rightarrow> bloom_msg list option" where
  "bloomStreamer bloom shutdown finishedXtags msgChan =
     (if WaitForXSetInit bloom
      then Some (foldl (\<lambda>msgChan xtags. snd (QueueXSetAdd shutdown xtags msgChan)) msgChan finishedXtags)
      else None)"

section \<open>Lemmas: tags\<close>

lemma bloomStreamer_running:
  "WaitForXSetInit bloom \<Longrightarrow> bloomStreamer bloom 0 tss msgs = Some (msgs @ map XSetAdd tss)"
proof -
  have "foldl (\<lambda>msgChan xtags. snd (QueueXSetAdd 0 xtags msgChan)) msgs tss = msgs @ map XSetAdd tss"
    by (induction tss arbitrary: msgs) (simp_all add: QueueXSetAdd_def queue_msg_def)
  then show "WaitForXSetInit bloom \<Longrightarrow> ?thesis" by (simp add: bloomStreamer_def)
qed

definition xtag_of :: "'p curve \<Rightarrow> prf_lib \<Rightarrow> keyMap \<Rightarrow> bytes \<Rightarrow> bytes \<Rightarrow> bytes" where
  "xtag_of C L K xin win =
     Marshal C (ScalarMult C (ScalarBaseMult C (mac L (key_of K XIndKey) xin)) (mac L (key_of K XTagKey) win))"

text \<open>The tag the protocol prescribes: \<open>g^(F(K_i, ind) * F(K_x, w))\<close>.\<close>

definition oxt_xtag :: "'p curve \<Rightarrow> prf_lib \<Rightarrow> keyMap \<Rightarrow> string \<Rightarrow> u32 \<Rightarrow> bytes" where
  "oxt_xtag C L K word did = xtag_of C L K (be32 did) (str_bytes word)"

definition xworker_at :: "keyMap \<Rightarrow> bytes \<Rightarrow> bytes \<Rightarrow> bytes \<Rightarrow> xset_worker" where
  "xworker_at K i t buf =
     \<lparr>xw_xInd = Some \<lparr>hkey = key_of K XIndKey, hbuf = i\<rparr>,
      xw_xTag = Some \<lparr>hkey = key_of K XTagKey, hbuf = t\<rparr>,
      xw_indBuf = buf\<rparr>"

lemma xSetWorker_init_at:
  "cmac_doc L \<Longrightarrow> keys_wf K \<Longrightarrow> xSetWorker_init L K = xworker_at K [] [] (replicate 4 0)"
  by (simp add: xSetWorker_init_def xworker_at_def)

lemma xSetWorker_word_at:
  "xSetWorker_word C L did word (xworker_at K i t buf) =
     Inr (xtag_of C L K (i @ buf @ be32 did) (t @ str_bytes word),
          xworker_at K (i @ buf @ be32 did) (t @ str_bytes word) [])"
  by (simp add: xSetWorker_word_def xworker_at_def xtag_of_def Let_def)

fun tags_from :: "'p curve \<Rightarrow> prf_lib \<Rightarrow> keyMap \<Rightarrow> u32 \<Rightarrow> bytes \<Rightarrow> bytes \<Rightarrow> string list \<Rightarrow> bytes list" where
  "tags_from C L K did i t [] = []"
| "tags_from C L K did i t (w # ws) =
     (let i' = i @ be32 did; t' = t @ str_bytes w
      in xtag_of C L K i' t' # tags_from C L K did i' t' ws)"

lemma length_tags_from [simp]: "length (tags_from C L K did i t ws) = length ws"
  by (induction ws arbitrary: i t) (simp_all add: Let_def)

lemma tags_from_nth:
  "k < length ws \<Longrightarrow> tags_from C L K did i t ws ! k =
     xtag_of C L K (i @ concat (replicate (Suc k) (be32 did))) (t @ concat (map str_bytes (take (Suc k) ws)))"
proof (induction ws arbitrary: k i t)
  case Nil
  then show ?case by simp
next
  case (Cons w ws)
  then show ?case by (cases k) (simp_all add: Let_def)
qed

lemma xSetWorker_words_at:
  "\<exists>i' t' buf'. xSetWorker_words C L did ws (xworker_at K i t buf) =
     Inr (tags_from C L K did (i @ buf) t ws, xworker_at K i' t' buf')"
proof (induction ws arbitrary: i t buf)
  case Nil
  then show ?case by auto
next
  case (Cons w ws)
  from Cons [of "i @ buf @ be32 did" "t @ str_bytes w" "[]"]
  obtain i' t' buf' where "xSetWorker_words C L did ws
      (xworker_at K (i @ buf @ be32 did) (t @ str_bytes w) []) =
    Inr (tags_from C L K did (i @ buf @ be32 did) (t @ str_bytes w) ws, xworker_at K i' t' buf')"
    by auto
  then show ?case by (auto simp: xSetWorker_word_at Let_def)
qed

lemma xSetWorker_doc_at:
  "xSetWorker_doc C L did ws (xworker_at K [] [] buf) =
     Inr (tags_from C L K did buf [] ws, xworker_at K [] [] [])"
proof -
  obtain i' t' buf' where "xSetWorker_words C L did ws (xworker_at K [] [] buf) =
      Inr (tags_from C L K did buf [] ws, xworker_at K i' t' buf')"
    using xSetWorker_words_at [of C L did ws K "[]" "[]" buf] by auto
  then show ?thesis by (simp add: xSetWorker_doc_def) (simp add: xworker_at_def)
qed

lemma xSetWorker_run_at:
  "xSetWorker_run C L docs (xworker_at K [] [] []) =
     Inr (map (\<lambda>(did, ws). tags_from C L K did [] [] ws) docs)"
  by (induction docs) (auto simp: xSetWorker_doc_at)

lemma xSetWorker_lengths:
  assumes "cmac_doc L" and "keys_wf K"
  shows "\<exists>tss. xSetWorker C L K docs = Inr tss \<and> map length tss = map (\<lambda>d. length (snd d)) docs"
proof (cases docs)
  case Nil
  then show ?thesis by (simp add: xSetWorker_def)
next
  case (Cons doc rest)
  then show ?thesis
    by (cases doc) (auto simp: xSetWorker_def xSetWorker_init_at [OF assms] xSetWorker_doc_at xSetWorker_run_at)
qed

section \<open>Closing the tag channel\<close>

text \<open>
  The workers, their sender goroutines and the goroutine that closes \<open>finishedXtags\<close>.  \<open>queue\<close>
  documents are still in the workers' channel (which is closed behind them), \<open>idle\<close> workers wait
  in their loop, \<open>busy\<close> ones have taken a document and not yet counted their send, \<open>waiting\<close>
  goroutines are about to send, \<open>handed\<close> have sent and not yet decremented \<open>pendingXSends\<close>,
  \<open>delivered\<close> tag lists arrived.  \<open>onceFired\<close>: \<open>closeOnce\<close> ran, so the closer goroutine spins
  until the counter reads 0.
\<close>

record xclose =
  queue :: nat
  idle :: nat
  busy :: nat
  waiting :: nat
  handed :: nat
  delivered :: nat
  onceFired :: bool
  chanClosed :: bool
  panicked :: bool

definition pendingXSends :: "xclose \<Rightarrow> nat" where
  "pendingXSends s = waiting s + handed s"

definition xclose_init :: "nat \<Rightarrow> nat \<Rightarrow> xclose" where
  "xclose_init numWorkers docs =
     \<lparr>queue = docs, idle = numWorkers, busy = 0, waiting = 0, handed = 0, delivered = 0,
      onceFired = False, chanClosed = False, panicked = False\<rparr>"

inductive xclose_step :: "xclose \<Rightarrow> xclose \<Rightarrow> bool" where
  take: "\<not> panicked s \<Longrightarrow> 0 < queue s \<Longrightarrow> 0 < idle s \<Longrightarrow>
    xclose_step s (s\<lparr>queue := queue s - 1, idle := idle s - 1, busy := busy s + 1\<rparr>)"
| publish: "\<not> panicked s \<Longrightarrow> 0 < busy s \<Longrightarrow>
    xclose_step s (s\<lparr>busy := busy s - 1, idle := idle s + 1, waiting := waiting s + 1\<rparr>)"
| send: "\<not> panicked s \<Longrightarrow> 0 < waiting s \<Longrightarrow> \<not> chanClosed s \<Longrightarrow>
    xclose_step s (s\<lparr>waiting := waiting s - 1, handed := handed s + 1, delivered := delivered s + 1\<rparr>)"
| send_closed: "\<not> panicked s \<Longrightarrow> 0 < waiting s \<Longrightarrow> chanClosed s \<Longrightarrow>
    xclose_step s (s\<lparr>panicked := True\<rparr>)"
| decrement: "\<not> panicked s \<Longrightarrow> 0 < handed s \<Longrightarrow> xclose_step s (s\<lparr>handed := handed s - 1\<rparr>)"
| leave: "\<not> panicked s \<Longrightarrow> queue s = 0 \<Longrightarrow> 0 < idle s \<Longrightarrow>
    xclose_step s (s\<lparr>idle := idle s - 1, onceFired := True\<rparr>)"
| close: "\<not> panicked s \<Longrightarrow> onceFired s \<Longrightarrow> pendingXSends s = 0 \<Longrightarrow> \<not> chanClosed s \<Longrightarrow>
    xclose_step s (s\<lparr>chanClosed := True\<rparr>)"

code_pred (modes: i \<Rightarrow> o \<Rightarrow> bool) xclose_step .

inductive xclose_reach :: "nat \<Rightarrow> nat \<Rightarrow> xclose \<Rightarrow> bool" for numWorkers docs where
  start: "xclose_reach numWorkers docs (xclose_init numWorkers docs)"
| step: "xclose_reach numWorkers docs s \<Longrightarrow> xclose_step s t \<Longrightarrow> xclose_reach numWorkers docs t"

text \<open>With one worker: the closer runs only after the worker left, so nothing is sent later.\<close>

definition xclose_inv1 :: "nat \<Rightarrow> xclose \<Rightarrow> bool" where
  "xclose_inv1 docs s \<longleftrightarrow>
     \<not> panicked s \<and> idle s + busy s \<le> 1 \<and>
     queue s + busy s + waiting s + delivered s = docs \<and>
     (onceFired s \<longrightarrow> idle s = 0 \<and> busy s = 0 \<and> queue s = 0) \<and>
     (chanClosed s \<longrightarrow> onceFired s \<and> waiting s = 0 \<and> handed s = 0)"

lemma xclose_inv1_step: "xclose_step s t \<Longrightarrow> xclose_inv1 docs s \<Longrightarrow> xclose_inv1 docs t"
  by (induction rule: xclose_step.induct) (auto simp: xclose_inv1_def pendingXSends_def)

lemma xclose_inv1_reach: "xclose_reach 1 docs s \<Longrightarrow> xclose_inv1 docs s"
proof (induction rule: xclose_reach.induct)
  case start
  show ?case by (simp add: xclose_inv1_def xclose_init_def)
next
  case (step s t)
  then show ?case by (blast intro: xclose_inv1_step)
qed

text \<open>Any number of workers: every step makes progress, and what a run cannot lose.\<close>

definition xclose_measure :: "xclose \<Rightarrow> nat" where
  "xclose_measure s =
     6 * queue s + 5 * busy s + 3 * waiting s + 2 * handed s + idle s +
     (if chanClosed s then 0 else 1) + (if panicked s then 0 else 1)"

lemma xclose_step_decreases: "xclose_step s t \<Longrightarrow> xclose_measure t < xclose_measure s"
  by (induction rule: xclose_step.induct) (auto simp: xclose_measure_def pendingXSends_def)

lemma xclose_wf: "wf {(t, s). xclose_step s t}"
  by (rule wf_subset [OF wf_measure [of xclose_measure]]) (auto dest: xclose_step_decreases)

definition xclose_inv :: "nat \<Rightarrow> nat \<Rightarrow> xclose \<Rightarrow> bool" where
  "xclose_inv numWorkers docs s \<longleftrightarrow>
     queue s + busy s + waiting s + delivered s = docs \<and>
     (onceFired s \<longrightarrow> queue s = 0) \<and>
     (\<not> onceFired s \<longrightarrow> idle s + busy s = numWorkers)"

lemma xclose_inv_step: "xclose_step s t \<Longrightarrow> xclose_inv n docs s \<Longrightarrow> xclose_inv n docs t"
  by (induction rule: xclose_step.induct) (auto simp: xclose_inv_def)

lemma xclose_inv_reach: "xclose_reach n docs s \<Longrightarrow> xclose_inv n docs s"
proof (induction rule: xclose_reach.induct)
  case start
  show ?case by (simp add: xclose_inv_def xclose_init_def)
next
  case (step s t)
  then show ?case by (blast intro: xclose_inv_step)
qed

lemma xclose_stuck:
  assumes "xclose_inv n docs s" and "0 < n" and "\<nexists>t. xclose_step s t" and "\<not> panicked s"
  shows "chanClosed s \<and> delivered s = docs \<and> pendingXSends s = 0"
proof -
  have b: "busy s = 0" using assms(3,4) xclose_step.publish by blast
  have w: "waiting s = 0" using assms(3,4) xclose_step.send xclose_step.send_closed by blast
  have h: "handed s = 0" using assms(3,4) xclose_step.decrement by blast
  have "queue s = 0 \<or> idle s = 0" using assms(3,4) xclose_step.take by blast
  moreover have "queue s \<noteq> 0 \<or> idle s = 0" using assms(3,4) xclose_step.leave by blast
  ultimately have i: "idle s = 0" by blast
  with b assms(1,2) have o: "onceFired s" by (auto simp: xclose_inv_def)
  have "chanClosed s" using assms(3,4) o w h xclose_step.close by (auto simp: pendingXSends_def)
  with assms(1) o b w h show ?thesis by (simp add: xclose_inv_def pendingXSends_def)
qed

lemma xclose_reach_star: "xclose_step\<^sup>*\<^sup>* s t \<Longrightarrow> xclose_reach n docs s \<Longrightarrow> xclose_reach n docs t"
  by (induction rule: rtranclp_induct) (auto intro: xclose_reach.step)

lemma xclose_ends: "\<exists>t. xclose_step\<^sup>*\<^sup>* s t \<and> (\<nexists>u. xclose_step t u)"
  by (rule wf_steps_end [OF xclose_wf])

section \<open>Properties\<close>

text \<open>C10: What an x-set worker hands over.  It never panics; each document yields one tag per word,
  in iteration order; a document's first word gets the tag \<open>g^(F(K_i, ind) * F(K_x, w))\<close> the
  protocol prescribes, except in the worker's first document, where the PRF of the document ID
  is also fed the four zero bytes the buffer was created with; and the \<open>k\<close>-th word of any
  document is tagged from PRFs still holding the first \<open>k\<close> words.\<close>

theorem xSetWorker_tags:
  assumes "cmac_doc L" and "keys_wf K"
  shows "\<exists>tss. xSetWorker C L K docs = Inr tss \<and> length tss = length docs \<and>
    (\<forall>n < length docs. let (did, ws) = docs ! n; tags = tss ! n in
       length tags = length ws \<and>
       (\<forall>k < length ws. tags ! k =
          xtag_of C L K
            ((if n = 0 then replicate 4 0 else []) @ concat (replicate (Suc k) (be32 did)))
            (concat (map str_bytes (take (Suc k) ws)))) \<and>
       (0 < n \<longrightarrow> ws \<noteq> [] \<longrightarrow> tags ! 0 = oxt_xtag C L K (ws ! 0) did))"
proof (cases docs)
  case Nil
  then show ?thesis by (simp add: xSetWorker_def)
next
  case (Cons doc rest)
  obtain d0 ws0 where doc: "doc = (d0, ws0)" by fastforce
  let ?tss = "tags_from C L K d0 (replicate 4 0) [] ws0 #
      map (\<lambda>(did, ws). tags_from C L K did [] [] ws) rest"
  have run: "xSetWorker C L K docs = Inr ?tss"
    by (simp add: xSetWorker_def Cons doc xSetWorker_init_at [OF assms] xSetWorker_doc_at
        xSetWorker_run_at)
  have nth: "?tss ! n = tags_from C L K (fst (docs ! n)) (if n = 0 then replicate 4 0 else []) []
      (snd (docs ! n))" if "n < length docs" for n
    using that by (cases n) (auto simp: Cons doc split: prod.split)
  show ?thesis
  proof (intro exI [of _ ?tss] conjI allI impI)
    fix n
    assume n: "n < length docs"
    obtain did ws where dn: "docs ! n = (did, ws)" by fastforce
    have "?tss ! n ! 0 = oxt_xtag C L K (ws ! 0) did" if "0 < n" "ws \<noteq> []"
      using that nth [OF n] by (cases ws) (simp_all add: dn oxt_xtag_def Let_def)
    then show "let (did, ws) = docs ! n; tags = ?tss ! n in
       length tags = length ws \<and>
       (\<forall>k < length ws. tags ! k =
          xtag_of C L K
            ((if n = 0 then replicate 4 0 else []) @ concat (replicate (Suc k) (be32 did)))
            (concat (map str_bytes (take (Suc k) ws)))) \<and>
       (0 < n \<longrightarrow> ws \<noteq> [] \<longrightarrow> tags ! 0 = oxt_xtag C L K (ws ! 0) did)"
      unfolding dn Let_def prod.case nth [OF n] fst_conv snd_conv
      by (simp add: tags_from_nth)
  qed (use run Cons in simp_all)
qed

text \<open>A concrete curve for the witness: points are byte strings, multiplication appends.\<close>

definition demo_curve :: "bytes curve" where
  "demo_curve = \<lparr>ScalarBaseMult = (\<lambda>k. k), ScalarMult = (\<lambda>p k. p @ k), Marshal = (\<lambda>p. 4 # p)\<rparr>"

theorem xSetWorker_tags_witness:
  "\<exists>tss. xSetWorker demo_curve demo_prf demo_keys [(1, [''a'', ''b'']), (2, [''c''])] = Inr tss \<and>
     length tss = 2 \<and> length (tss ! 0) = 2 \<and>
     tss ! 1 ! 0 = oxt_xtag demo_curve demo_prf demo_keys ''c'' 2"
proof -
  obtain tss where t: "xSetWorker demo_curve demo_prf demo_keys [(1, [''a'', ''b'']), (2, [''c''])] = Inr tss"
      "length tss = 2"
    and all: "\<And>n. n < 2 \<Longrightarrow>
      let (did, ws) = [(1, [''a'', ''b'']), (2, [''c''])] ! n; tags = tss ! n in
       length tags = length ws \<and> (0 < n \<longrightarrow> ws \<noteq> [] \<longrightarrow>
         tags ! 0 = oxt_xtag demo_curve demo_prf demo_keys (ws ! 0) did)"
    using xSetWorker_tags [OF cmac_doc_demo keys_wf_demo,
        of demo_curve "[(1, [''a'', ''b'']), (2, [''c''])]"]
    by (fastforce simp: Let_def split: prod.splits)
  show ?thesis using t all [of 0] all [of 1] by (auto simp: Let_def)
qed

text \<open>The hand-over of the x-tags ends.  Whatever the number of workers and the interleaving, no
  run goes on for ever, and a run that cannot go on has either panicked or delivered the tags of
  every document and closed the channel, so that the streamer behind it ends too.  With one worker
  nothing is ever sent on the closed channel, everything is delivered before it is closed, and every
  reachable state leads there.\<close>

theorem xclose_completes:
  assumes "xclose_reach n docs s" and "0 < n"
  shows "wf {(v, u). xclose_step u v} \<and>
    ((\<nexists>t. xclose_step s t) \<longrightarrow> panicked s \<or> chanClosed s \<and> delivered s = docs) \<and>
    (n = 1 \<longrightarrow> \<not> panicked s \<and> (chanClosed s \<longrightarrow> delivered s = docs \<and> pendingXSends s = 0) \<and>
       (\<exists>t. xclose_step\<^sup>*\<^sup>* s t \<and> chanClosed t \<and> delivered t = docs \<and> \<not> panicked t))"
proof -
  have stuck: "panicked s \<or> chanClosed s \<and> delivered s = docs" if "\<nexists>t. xclose_step s t"
    using xclose_stuck [OF xclose_inv_reach [OF assms(1)] assms(2) that] by blast
  have one: "\<not> panicked s \<and> (chanClosed s \<longrightarrow> delivered s = docs \<and> pendingXSends s = 0)"
    if n: "n = 1"
    using xclose_inv1_reach [OF assms(1) [unfolded n]] by (auto simp: xclose_inv1_def pendingXSends_def)
  have "\<exists>t. xclose_step\<^sup>*\<^sup>* s t \<and> chanClosed t \<and> delivered t = docs \<and> \<not> panicked t" if n: "n = 1"
  proof -
    obtain t where t: "xclose_step\<^sup>*\<^sup>* s t" "\<nexists>u. xclose_step t u" using xclose_ends by blast
    have r: "xclose_reach 1 docs t" using xclose_reach_star [OF t(1) assms(1)] n by simp
    have "\<not> panicked t" using xclose_inv1_reach [OF r] by (simp add: xclose_inv1_def)
    with xclose_stuck [OF xclose_inv_reach [OF r] _ t(2)] t(1) show ?thesis by auto
  qed
  with stuck one xclose_wf show ?thesis by blast
qed

theorem xclose_completes_witness:
  "\<exists>t. xclose_step\<^sup>*\<^sup>* (xclose_init 1 3) t \<and> chanClosed t \<and> delivered t = 3"
  using xclose_completes [OF xclose_reach.start, of 1 3] by auto

text \<open>C25: With two or more workers and a document the hand-over can panic: one worker finds the
  channel drained and has it closed while another is still computing the tags of the last
  document, whose send then hits the closed channel.\<close>

theorem xclose_two_workers_panic:
  assumes "2 \<le> numWorkers"
  shows "\<exists>s. xclose_reach numWorkers 1 s \<and> panicked s \<and> delivered s = 0"
proof -
  obtain n where n: "numWorkers = Suc (Suc n)"
    using assms by (metis Suc_le_D numeral_2_eq_2 Suc_le_mono)
  define s1 where "s1 = (xclose_init numWorkers 1)\<lparr>queue := 0, idle := Suc n, busy := 1\<rparr>"
  define s2 where "s2 = s1\<lparr>idle := n, onceFired := True\<rparr>"
  define s3 where "s3 = s2\<lparr>chanClosed := True\<rparr>"
  define s4 where "s4 = s3\<lparr>busy := 0, idle := Suc n, waiting := 1\<rparr>"
  have "xclose_step (xclose_init numWorkers 1) s1"
    using xclose_step.take [of "xclose_init numWorkers 1"] by (simp add: s1_def xclose_init_def n)
  moreover have "xclose_step s1 s2"
    using xclose_step.leave [of s1] by (simp add: s1_def s2_def xclose_init_def)
  moreover have "xclose_step s2 s3"
    using xclose_step.close [of s2] by (simp add: s1_def s2_def s3_def xclose_init_def pendingXSends_def)
  moreover have "xclose_step s3 s4"
    using xclose_step.publish [of s3] by (simp add: s1_def s2_def s3_def s4_def xclose_init_def)
  moreover have "xclose_step s4 (s4\<lparr>panicked := True\<rparr>)"
    by (rule xclose_step.send_closed) (simp_all add: s1_def s2_def s3_def s4_def xclose_init_def)
  ultimately have "xclose_reach numWorkers 1 (s4\<lparr>panicked := True\<rparr>)"
    by (meson xclose_reach.intros)
  then show ?thesis
    by (intro exI [of _ "s4\<lparr>panicked := True\<rparr>"])
      (simp add: s1_def s2_def s3_def s4_def xclose_init_def)
qed

theorem xclose_two_workers_panic_witness:
  "(2 :: nat) \<le> 2 \<and> (\<exists>s. xclose_reach 2 1 s \<and> panicked s \<and> delivered s = 0)"
  using xclose_two_workers_panic [of 2] by simp

end
