(* ===== verification/Pipeline.thy ===== *)
theory Pipeline
  imports Fanout Corpus XSetIndex
begin

text \<open>
  The two goroutines of the client that fan a stream of documents out: \<open>partitionStreams\<close>
  (doc_preprocesser.go), over four channels with room for one value, and \<open>chanSplitter\<close>
  (encrypted_index.go), over two channels without buffers.  \<open>Corpus\<close> and \<open>XSetIndex\<close> give the
  sequence of their events; here their consumers run concurrently.
\<close>

section \<open>The preprocessor\<close>

datatype out_chan = TfChan | InvIndexChan | KeyWordChan | DocEncryptChan

lemma UNIV_out_chan: "(UNIV :: out_chan set) = {TfChan, InvIndexChan, KeyWordChan, DocEncryptChan}"
  using out_chan.exhaust by auto

instantiation out_chan :: finite
begin

instance by standard (simp add: UNIV_out_chan)

end

fun preproc_chan :: "preproc_event \<Rightarrow> out_chan option" where
  "preproc_chan (TfOut _) = Some TfChan"
| "preproc_chan (InvIndexOut _) = Some InvIndexChan"
| "preproc_chan (KeyWordSummerOut _) = Some KeyWordChan"
| "preproc_chan (DocEncryptOut _) = Some DocEncryptChan"
| "preproc_chan _ = None"

text \<open>\<open>NewDocPreprocessor\<close> makes every channel with a buffer of one.\<close>

definition preproc_cap :: "out_chan \<Rightarrow> nat" where
  "preproc_cap c = 1"

definition partition_code :: "unicode \<Rightarrow> (document, preproc_event, out_chan) fan_code" where
  "partition_code U =
     \<lparr>fc_body = partition_doc U, fc_chan = preproc_chan, fc_cap = preproc_cap,
      fc_order = [TfChan, InvIndexChan, DocEncryptChan, KeyWordChan]\<rparr>"

lemma partition_code_simps [simp]:
  "fc_body (partition_code U) = partition_doc U" "fc_chan (partition_code U) = preproc_chan"
  "fc_cap (partition_code U) c = 1" "fc_order (partition_code U) = [TfChan, InvIndexChan, DocEncryptChan, KeyWordChan]"
  by (simp_all add: partition_code_def preproc_cap_def)

interpretation partition: fan_each "partition_code U" for U
proof unfold_locales
  show "distinct (fc_order (partition_code U))" by simp
  show "c \<in> set (fc_order (partition_code U))" for c by (cases c) simp_all
  show "length (sends_on (partition_code U) c (fc_body (partition_code U) d)) = 1" for c d
    by (cases c) (auto simp: partition_doc_def Let_def split: prod.split)
qed

text \<open>What a channel carries determines what its consumer reads off it.\<close>

lemma outs_of_channel:
  "tf_outs (sends_on (partition_code U) TfChan es) = tf_outs es"
  "inv_outs (sends_on (partition_code U) InvIndexChan es) = inv_outs es"
  "kw_outs (sends_on (partition_code U) KeyWordChan es) = kw_outs es"
  "enc_outs (sends_on (partition_code U) DocEncryptChan es) = enc_outs es"
proof -
  have "tf_outs (sends_on (partition_code U) TfChan es) = tf_outs es \<and>
      inv_outs (sends_on (partition_code U) InvIndexChan es) = inv_outs es \<and>
      kw_outs (sends_on (partition_code U) KeyWordChan es) = kw_outs es \<and>
      enc_outs (sends_on (partition_code U) DocEncryptChan es) = enc_outs es"
  proof (induction es)
    case (Cons e es)
    then show ?case by (cases e) simp_all
  qed simp
  then show "tf_outs (sends_on (partition_code U) TfChan es) = tf_outs es"
    "inv_outs (sends_on (partition_code U) InvIndexChan es) = inv_outs es"
    "kw_outs (sends_on (partition_code U) KeyWordChan es) = kw_outs es"
    "enc_outs (sends_on (partition_code U) DocEncryptChan es) = enc_outs es" by simp_all
qed

text \<open>The values the four consumers have received.\<close>

type_synonym consumed = "string list list \<times> InvIndexDocument list \<times> InvIndexDocument list \<times> document list"

definition consumed :: "(document, preproc_event, out_chan) fan \<Rightarrow> consumed" where
  "consumed s = (tf_outs (fn_got s TfChan), inv_outs (fn_got s InvIndexChan),
     kw_outs (fn_got s KeyWordChan), enc_outs (fn_got s DocEncryptChan))"

definition event_outs :: "preproc_event list \<Rightarrow> consumed" where
  "event_outs es = (tf_outs es, inv_outs es, kw_outs es, enc_outs es)"

lemma event_outs_bodies: "event_outs (concat (map (partition_doc U) docs)) = event_outs (partitionStreams U docs)"
  by (induction docs) (auto simp: event_outs_def partition_doc_outs)

lemma consumed_sends:
  assumes "\<And>c. fn_got s c = sends_on (partition_code U) c (concat (map (partition_doc U) docs))"
  shows "consumed s = event_outs (partitionStreams U docs)"
  unfolding event_outs_bodies [symmetric] by (simp add: consumed_def event_outs_def assms outs_of_channel)

section \<open>The splitter of the index generator\<close>

datatype split_chan = XSetChan | TSetChan

lemma UNIV_split_chan: "(UNIV :: split_chan set) = {XSetChan, TSetChan}"
  using split_chan.exhaust by auto

instantiation split_chan :: finite
begin

instance by standard (simp add: UNIV_split_chan)

end

fun split_event_chan :: "'d split_event \<Rightarrow> split_chan option" where
  "split_event_chan (ToXSet _) = Some XSetChan"
| "split_event_chan (ToTSet _) = Some TSetChan"
| "split_event_chan _ = None"

definition split_code :: "('d, 'd split_event, split_chan) fan_code" where
  "split_code =
     \<lparr>fc_body = (\<lambda>d. [ToXSet d, ToTSet d]), fc_chan = split_event_chan, fc_cap = (\<lambda>_. 0),
      fc_order = [XSetChan, TSetChan]\<rparr>"

lemma split_code_simps [simp]:
  "fc_body split_code d = [ToXSet d, ToTSet d]" "fc_chan split_code = split_event_chan"
  "fc_cap split_code c = 0" "fc_order split_code = [XSetChan, TSetChan]"
  by (simp_all add: split_code_def)

interpretation splitter: fan_each split_code
proof unfold_locales
  show "distinct (fc_order split_code)" by simp
  show "c \<in> set (fc_order split_code)" for c by (cases c) simp_all
  show "length (sends_on split_code c (fc_body split_code d)) = 1" for c and d :: 'a by (cases c) simp_all
qed

lemma split_sends:
  "sends_on split_code XSetChan (concat (map (fc_body split_code) docs)) = map ToXSet docs"
  "sends_on split_code TSetChan (concat (map (fc_body split_code) docs)) = map ToTSet docs"
  by (induction docs) simp_all

text \<open>The events of \<open>chanSplitter\<close> are those of its iterations and the two closes.\<close>

lemma chanSplitter_events:
  "chanSplitter docs = concat (map (fc_body split_code) docs) @ [CloseXSet, CloseTSet]"
  by (induction docs) simp_all

text \<open>The t-set workers are never ahead of the x-set workers.\<close>

lemma split_order:
  assumes "fan_steps split_code live (fan_init stop docs) s"
  shows "length (fn_got s TSetChan) \<le> length (fn_got s XSetChan) \<and> length (fn_got s XSetChan) \<le> length (fn_got s TSetChan) + 1"
proof -
  obtain k where k: "fan_flow split_code docs k s" "fan_shape split_code s" using splitter.reach_inv [OF assms] .
  have "length (carried split_code s c) = k" for c using k(1) by (simp add: fan_flow_def splitter.length_sent)
  moreover have "fn_buf s c = []" for c using k(2) by (simp add: fan_shape_def)
  ultimately have len: "length (fn_got s c) + length (sends_on split_code c (ctl_rest (fn_ctl s))) = k" for c
    by (metis carried_def append_Nil length_append)
  have "length (sends_on split_code XSetChan (ctl_rest (fn_ctl s))) \<le> length (sends_on split_code TSetChan (ctl_rest (fn_ctl s)))"
  proof (cases "ctl_rest (fn_ctl s) = []")
    case False
    with ctl_suffix [OF assms] obtain d es where "[ToXSet d, ToTSet d] = es @ ctl_rest (fn_ctl s)"
      by (auto simp: fan_init_def)
    with False consider "ctl_rest (fn_ctl s) = [ToXSet d, ToTSet d]" | "ctl_rest (fn_ctl s) = [ToTSet d]"
      by (auto simp: Cons_eq_append_conv)
    then show ?thesis by cases simp_all
  qed simp
  moreover note splitter.bounded_skew [OF assms, of XSetChan TSetChan]
  ultimately show ?thesis using len [of XSetChan] len [of TSetChan] by simp
qed

section \<open>Properties\<close>

text \<open>C19: The preprocessor under every schedule.  Its four consumers may receive at any pace: no one of
  them is ever more than two documents ahead of another.  If they always receive again, every run
  ends, and not before all four channels are drained and closed; each consumer has then received
  what \<open>partitionStreams\<close> sends it for the whole input, or, if \<open>Stop\<close> was called, for the same first
  documents as the others.\<close>

theorem partition_any_schedule:
  fixes U :: unicode
  defines "N \<equiv> partition_code U" and "ready \<equiv> \<lambda>_ _. True"
  shows "wf {(t, s). fan_step N ready s t} \<and>
    (\<forall>stop s. fan_steps N ready (fan_init stop docs) s \<and> (\<nexists>t. fan_step N ready s t) \<longrightarrow>
       fn_closed s = (\<lambda>_. True) \<and> fn_buf s = (\<lambda>_. []) \<and>
       (\<exists>k. consumed s = event_outs (partitionStreams U (take k docs))) \<and>
       (\<not> stop \<longrightarrow> consumed s = event_outs (partitionStreams U docs))) \<and>
    (\<forall>live stop s c c'. fan_steps N live (fan_init stop docs) s \<longrightarrow>
       length (fn_got s c') \<le> length (fn_got s c) + 2)"
proof (intro conjI allI impI)
  show "wf {(t, s). fan_step N ready s t}" by (rule fan_wf)
  show "length (fn_got s c') \<le> length (fn_got s c) + 2" if "fan_steps N live (fan_init stop docs) s" for live stop s c c'
    using partition.bounded_skew [OF that [unfolded N_def], of c' c] by simp
  fix stop and s :: "(document, preproc_event, out_chan) fan"
  assume "fan_steps N ready (fan_init stop docs) s \<and> (\<nexists>t. fan_step N ready s t)"
  then have r: "fan_steps (partition_code U) (\<lambda>_ _. True) (fan_init stop docs) s"
    "\<nexists>t. fan_step (partition_code U) (\<lambda>_ _. True) s t" by (simp_all add: N_def ready_def)
  show "fn_closed s = (\<lambda>_. True)" "fn_buf s = (\<lambda>_. [])" using partition.stuck_done [OF r] by simp_all
  obtain k where "\<forall>c. fn_got s c = sends_on (partition_code U) c (concat (map (fc_body (partition_code U)) (take k docs)))"
    using partition.stopped_run [OF r] by blast
  then have "consumed s = event_outs (partitionStreams U (take k docs))" by (intro consumed_sends) simp
  then show "\<exists>k. consumed s = event_outs (partitionStreams U (take k docs))" by blast
  assume "\<not> stop"
  with r(1) have "fan_steps (partition_code U) (\<lambda>_ _. True) (fan_init False docs) s" by simp
  from partition.complete_run [OF this r(2)]
  show "consumed s = event_outs (partitionStreams U docs)" by (intro consumed_sends) simp
qed

theorem partition_any_schedule_witness:
  "\<exists>s. fan_steps (partition_code demo_unicode) (\<lambda>_ _. True)
      (fan_init False [\<lparr>doc_file = None, doc_id = 1\<rparr>, \<lparr>doc_file = Some ([97], 0), doc_id = 2\<rparr>]) s \<and>
    fn_closed s TfChan \<and> map inv_DocId (fst (snd (consumed s))) = [1, 2]"
proof -
  let ?docs = "[\<lparr>doc_file = None, doc_id = 1\<rparr>, \<lparr>doc_file = Some ([97], 0), doc_id = 2\<rparr>] :: document list"
  obtain s where s: "fan_steps (partition_code demo_unicode) (\<lambda>_ _. True) (fan_init False ?docs) s"
    "\<nexists>t. fan_step (partition_code demo_unicode) (\<lambda>_ _. True) s t" using fan_ends by blast
  then have "fn_closed s = (\<lambda>_. True) \<and> consumed s = event_outs (partitionStreams demo_unicode ?docs)"
    using partition_any_schedule [of demo_unicode ?docs] by blast
  with s(1) show ?thesis
    by (intro exI [of _ s]) (simp add: event_outs_def partitionStreams_outs inv_doc_def del: partitionStreams.simps)
qed

text \<open>C20: One stalled consumer blocks the preprocessor.  If a consumer stops receiving after \<open>n\<close> documents
  and at least two more come, then in every run no channel is ever closed and no other consumer
  gets more than \<open>n + 2\<close> documents; every run ends with the goroutine at a send to the stalled
  consumer, and closing \<open>quit\<close>, which it reads only between documents, does not move it, so that
  \<open>Stop\<close> does not return.\<close>

theorem stalled_consumer_blocks:
  fixes U :: unicode
  assumes "n + 1 < length docs"
  shows "wf {(t, s). fan_step (partition_code U) (stalls c n) s t} \<and>
    (\<forall>s. fan_steps (partition_code U) (stalls c n) (fan_init False docs) s \<longrightarrow>
       fn_closed s = (\<lambda>_. False) \<and> (\<forall>c'. length (fn_got s c') \<le> n + 2) \<and>
       ((\<nexists>t. fan_step (partition_code U) (stalls c n) s t) \<longrightarrow>
          (\<exists>e es. fn_ctl s = Body (e # es) \<and> preproc_chan e = Some c) \<and>
          (\<nexists>t. fan_step (partition_code U) (stalls c n) (s\<lparr>fn_quit := True\<rparr>) t)))"
proof (intro conjI allI impI)
  have n: "n + fc_cap (partition_code U) c < length docs" using assms by simp
  show "wf {(t, s). fan_step (partition_code U) (stalls c n) s t}" by (rule fan_wf)
  fix s
  assume r: "fan_steps (partition_code U) (stalls c n) (fan_init False docs) s"
  show "fn_closed s = (\<lambda>_. False)" using partition.stalled_open [OF r n] by simp
  show "length (fn_got s c') \<le> n + 2" for c'
    using partition.bounded_skew [OF r, of c' c] stalls_received [OF r] by (simp add: fan_init_def)
  assume "\<nexists>t. fan_step (partition_code U) (stalls c n) s t"
  from partition.stalled_stuck [OF r n this]
  show "\<exists>e es. fn_ctl s = Body (e # es) \<and> preproc_chan e = Some c"
    and "\<nexists>t. fan_step (partition_code U) (stalls c n) (s\<lparr>fn_quit := True\<rparr>) t" by simp_all
qed

theorem stalled_consumer_blocks_witness:
  "\<exists>s e es. fan_steps (partition_code demo_unicode) (stalls KeyWordChan 0)
      (fan_init False [\<lparr>doc_file = None, doc_id = 1\<rparr>, \<lparr>doc_file = None, doc_id = 2\<rparr>]) s \<and>
    fn_ctl s = Body (e # es) \<and> preproc_chan e = Some KeyWordChan"
proof -
  let ?docs = "[\<lparr>doc_file = None, doc_id = 1\<rparr>, \<lparr>doc_file = None, doc_id = 2\<rparr>] :: document list"
  have n: "0 + 1 < length ?docs" by simp
  obtain s where "fan_steps (partition_code demo_unicode) (stalls KeyWordChan 0) (fan_init False ?docs) s"
    "\<nexists>t. fan_step (partition_code demo_unicode) (stalls KeyWordChan 0) s t" using fan_ends by blast
  with stalled_consumer_blocks [OF n, of demo_unicode KeyWordChan] show ?thesis by blast
qed

text \<open>C11: The splitter hands every document to the x-set workers and then to the t-set workers, whatever
  their pace: the latter are never ahead and at most one document behind.  If both groups always
  receive again, every run ends with both channels closed, and without a \<open>Stop\<close> both have received
  all documents, in order.\<close>

theorem chanSplitter_lockstep:
  "(\<forall>live stop s. fan_steps split_code live (fan_init stop docs) s \<longrightarrow>
      length (fn_got s TSetChan) \<le> length (fn_got s XSetChan) \<and>
      length (fn_got s XSetChan) \<le> length (fn_got s TSetChan) + 1) \<and>
   wf {(t, s). fan_step (split_code :: ('d, _, _) fan_code) (\<lambda>_ _. True) s t} \<and>
   (\<forall>s. fan_steps split_code (\<lambda>_ _. True) (fan_init False (docs :: 'd list)) s \<and>
        (\<nexists>t. fan_step split_code (\<lambda>_ _. True) s t) \<longrightarrow>
      fn_closed s = (\<lambda>_. True) \<and> fn_got s XSetChan = map ToXSet docs \<and> fn_got s TSetChan = map ToTSet docs)"
proof (intro conjI allI impI)
  show "length (fn_got s TSetChan) \<le> length (fn_got s XSetChan)"
    "length (fn_got s XSetChan) \<le> length (fn_got s TSetChan) + 1"
    if "fan_steps split_code live (fan_init stop docs) s" for live stop s
    using split_order [OF that] by simp_all
  show "wf {(t, s). fan_step (split_code :: ('d, _, _) fan_code) (\<lambda>_ _. True) s t}" by (rule fan_wf)
  fix s :: "('d, 'd split_event, split_chan) fan"
  assume "fan_steps split_code (\<lambda>_ _. True) (fan_init False docs) s \<and> (\<nexists>t. fan_step split_code (\<lambda>_ _. True) s t)"
  then have r: "fan_steps split_code (\<lambda>_ _. True) (fan_init False docs) s"
    "\<nexists>t. fan_step split_code (\<lambda>_ _. True) s t" by blast+
  show "fn_closed s = (\<lambda>_. True)" using splitter.stuck_done [OF r] by simp
  show "fn_got s XSetChan = map ToXSet docs" "fn_got s TSetChan = map ToTSet docs"
    using splitter.complete_run [OF r] by (simp_all add: split_sends)
qed

theorem chanSplitter_lockstep_witness:
  "\<exists>s. fan_steps split_code (\<lambda>_ _. True) (fan_init False [3 :: nat, 5]) s \<and>
    fn_got s XSetChan = [ToXSet 3, ToXSet 5] \<and> fn_got s TSetChan = [ToTSet 3, ToTSet 5]"
proof -
  obtain s where "fan_steps split_code (\<lambda>_ _. True) (fan_init False [3 :: nat, 5]) s"
    "\<nexists>t. fan_step split_code (\<lambda>_ _. True) s t" using fan_ends by blast
  with chanSplitter_lockstep [of "[3 :: nat, 5]"] show ?thesis by fastforce
qed

end
