(* ===== verification/WorkerPool.thy ===== *)
theory WorkerPool
  imports Prelude
begin

text \<open>
  The pool protocol that \<open>tf_calc.go\<close> (\<open>frequencyWorker\<close>) and \<open>doc_encrypter.go\<close>
  (\<open>docEncrypter\<close>) share: workers take items off a channel closed behind the last item, send one
  result per item, and close the result channel when they leave, the former guarded by a
  \<open>sync.Once\<close> (parameter \<open>once\<close>), the latter not.
\<close>

record pool =
  pl_queue :: nat
  pl_idle :: nat
  pl_busy :: nat
  pl_sent :: nat
  pl_closed :: bool
  pl_panic :: "panic option"

definition pool_init :: "nat \<Rightarrow> nat \<Rightarrow> pool" where
  "pool_init numWorkers items =
     \<lparr>pl_queue = items, pl_idle = numWorkers, pl_busy = 0, pl_sent = 0, pl_closed = False, pl_panic = None\<rparr>"

text \<open>\<open>once.Do(close)\<close> closes only for the first caller.\<close>

definition close_out :: "bool \<Rightarrow> bool \<Rightarrow> bool go" where
  "close_out once closed = (if once \<and> closed then Inr True else close_chan closed)"

inductive pool_step :: "bool \<Rightarrow> pool \<Rightarrow> pool \<Rightarrow> bool" for once where
  take: "pl_panic s = None \<Longrightarrow> 0 < pl_queue s \<Longrightarrow> 0 < pl_idle s \<Longrightarrow>
    pool_step once s (s\<lparr>pl_queue := pl_queue s - 1, pl_idle := pl_idle s - 1, pl_busy := pl_busy s + 1\<rparr>)"
| send: "pl_panic s = None \<Longrightarrow> 0 < pl_busy s \<Longrightarrow> \<not> pl_closed s \<Longrightarrow>
    pool_step once s (s\<lparr>pl_busy := pl_busy s - 1, pl_idle := pl_idle s + 1, pl_sent := pl_sent s + 1\<rparr>)"
| send_closed: "pl_panic s = None \<Longrightarrow> 0 < pl_busy s \<Longrightarrow> pl_closed s \<Longrightarrow>
    pool_step once s (s\<lparr>pl_panic := Some SendOnClosedChannel\<rparr>)"
| leave: "pl_panic s = None \<Longrightarrow> pl_queue s = 0 \<Longrightarrow> 0 < pl_idle s \<Longrightarrow> close_out once (pl_closed s) = Inr c \<Longrightarrow>
    pool_step once s (s\<lparr>pl_idle := pl_idle s - 1, pl_closed := c\<rparr>)"
| leave_panic: "pl_panic s = None \<Longrightarrow> pl_queue s = 0 \<Longrightarrow> 0 < pl_idle s \<Longrightarrow> close_out once (pl_closed s) = Inl p \<Longrightarrow>
    pool_step once s (s\<lparr>pl_panic := Some p\<rparr>)"

code_pred (modes: i \<Rightarrow> i \<Rightarrow> o \<Rightarrow> bool) pool_step .

definition pool_reach :: "bool \<Rightarrow> nat \<Rightarrow> nat \<Rightarrow> pool \<Rightarrow> bool" where
  "pool_reach once numWorkers items s \<longleftrightarrow> (pool_step once)\<^sup>*\<^sup>* (pool_init numWorkers items) s"

lemma close_out_Inr [simp]: "close_out once False = Inr True" "close_out True b = Inr True"
  by (cases b; simp add: close_out_def)+

lemma close_out_again [simp]: "close_out False True = Inl CloseOfClosedChannel"
  by (simp add: close_out_def)

section \<open>One worker\<close>

definition pool_inv1 :: "nat \<Rightarrow> pool \<Rightarrow> bool" where
  "pool_inv1 items s \<longleftrightarrow>
     pl_panic s = None \<and> pl_idle s + pl_busy s \<le> 1 \<and>
     pl_queue s + pl_busy s + pl_sent s = items \<and>
     (pl_closed s \<longrightarrow> pl_idle s = 0 \<and> pl_busy s = 0 \<and> pl_queue s = 0)"

lemma pool_inv1_step: "pool_step once s t \<Longrightarrow> pool_inv1 items s \<Longrightarrow> pool_inv1 items t"
  by (induction rule: pool_step.induct) (auto simp: pool_inv1_def)

lemma pool_inv1_reach: "pool_reach once 1 items s \<Longrightarrow> pool_inv1 items s"
  unfolding pool_reach_def
proof (induction rule: rtranclp_induct)
  case base
  show ?case by (simp add: pool_inv1_def pool_init_def)
next
  case (step s t)
  then show ?case by (blast intro: pool_inv1_step)
qed

text \<open>A single worker never panics, and has sent a result for every item when it closes.\<close>

lemma pool_one_worker:
  assumes "pool_reach once 1 items s"
  shows "pl_panic s = None" and "pl_closed s \<Longrightarrow> pl_sent s = items"
  using pool_inv1_reach [OF assms] by (auto simp: pool_inv1_def)

section \<open>Every run ends\<close>

definition pool_measure :: "pool \<Rightarrow> nat" where
  "pool_measure s = (if pl_panic s = None then Suc (3 * pl_queue s + 2 * pl_busy s + pl_idle s) else 0)"

lemma pool_decreases: "pool_step once s t \<Longrightarrow> pool_measure t < pool_measure s"
  by (induction rule: pool_step.induct) (auto simp: pool_measure_def)

lemma pool_wf: "wf {(t, s). pool_step once s t}"
  by (rule wf_subset [OF wf_measure [of pool_measure]]) (auto simp: pool_decreases)

lemma pool_ends: "\<exists>t. (pool_step once)\<^sup>*\<^sup>* s t \<and> (\<nexists>u. pool_step once t u)"
  by (rule wf_steps_end [OF pool_wf])

text \<open>As long as the channel is open somebody is still there to close it.\<close>

definition pool_attended :: "pool \<Rightarrow> bool" where
  "pool_attended s \<longleftrightarrow> pl_panic s = None \<longrightarrow> pl_closed s \<or> 0 < pl_idle s + pl_busy s"

lemma pool_attended_step: "pool_step once s t \<Longrightarrow> pool_attended s \<Longrightarrow> pool_attended t"
  by (induction rule: pool_step.induct) (auto simp: pool_attended_def close_out_def close_chan_def split: if_splits)

lemma pool_attended_reach: "pool_reach once n items s \<Longrightarrow> 0 < n \<Longrightarrow> pool_attended s"
  unfolding pool_reach_def
proof (induction rule: rtranclp_induct)
  case base
  then show ?case by (simp add: pool_attended_def pool_init_def)
next
  case (step s t)
  then show ?case by (blast intro: pool_attended_step)
qed

lemma pool_stuck:
  assumes "\<nexists>t. pool_step once s t" and "pool_attended s"
  shows "pl_panic s \<noteq> None \<or> pl_closed s"
proof (rule ccontr)
  assume "\<not> ?thesis"
  then have p: "pl_panic s = None" and c: "\<not> pl_closed s" by simp_all
  have "pl_busy s = 0" using assms(1) pool_step.send [OF p _ c] by blast
  moreover have "\<not> (0 < pl_queue s \<and> 0 < pl_idle s)" using assms(1) pool_step.take [OF p] by blast
  moreover have "\<not> (pl_queue s = 0 \<and> 0 < pl_idle s)"
    using assms(1) pool_step.leave [OF p, of once True] c by (auto simp: close_out_def close_chan_def)
  ultimately show False using assms(2) p c by (auto simp: pool_attended_def)
qed

text \<open>So every run of a single worker ends with everything sent and the channel closed.\<close>

lemma pool_one_completes:
  assumes "pool_reach once 1 items s"
  shows "\<exists>t. (pool_step once)\<^sup>*\<^sup>* s t \<and> pl_closed t \<and> pl_sent t = items \<and> pl_panic t = None"
proof -
  obtain t where t: "(pool_step once)\<^sup>*\<^sup>* s t" "\<nexists>u. pool_step once t u" using pool_ends by blast
  have r: "pool_reach once 1 items t" using assms t(1) unfolding pool_reach_def by (rule rtranclp_trans)
  have "pl_closed t"
    using pool_stuck [OF t(2) pool_attended_reach [OF r]] pool_one_worker(1) [OF r] by simp
  with pool_one_worker [OF r] t(1) show ?thesis by blast
qed

section \<open>Several workers\<close>

text \<open>Sequential processing of all items but the last few, leaving every worker idle.\<close>

lemma pool_process:
  "(pool_step once)\<^sup>*\<^sup>* (pool_init (Suc n) (k + items))
     \<lparr>pl_queue = items, pl_idle = Suc n, pl_busy = 0, pl_sent = k, pl_closed = False, pl_panic = None\<rparr>"
proof (induction k arbitrary: items)
  case 0
  show ?case by (simp add: pool_init_def)
next
  case (Suc k)
  let ?s = "\<lparr>pl_queue = Suc items, pl_idle = Suc n, pl_busy = 0, pl_sent = k, pl_closed = False, pl_panic = None\<rparr>"
  let ?t = "\<lparr>pl_queue = items, pl_idle = n, pl_busy = 1, pl_sent = k, pl_closed = False, pl_panic = None\<rparr>"
  have "(pool_step once)\<^sup>*\<^sup>* (pool_init (Suc n) (Suc k + items)) ?s" using Suc [of "Suc items"] by simp
  also have "pool_step once ?s ?t" using pool_step.take [of ?s once] by simp
  also have "pool_step once ?t \<lparr>pl_queue = items, pl_idle = Suc n, pl_busy = 0, pl_sent = Suc k,
      pl_closed = False, pl_panic = None\<rparr>"
    using pool_step.send [of ?t once] by simp
  finally show ?case .
qed

text \<open>With a second worker, one can close while the other still holds a result.\<close>

lemma pool_send_on_closed:
  "\<exists>s. pool_reach once (Suc (Suc n)) (Suc items) s \<and> pl_panic s = Some SendOnClosedChannel"
proof -
  let ?s = "\<lparr>pl_queue = 1, pl_idle = Suc (Suc n), pl_busy = 0, pl_sent = items, pl_closed = False, pl_panic = None\<rparr>"
  let ?t = "\<lparr>pl_queue = 0, pl_idle = Suc n, pl_busy = 1, pl_sent = items, pl_closed = False, pl_panic = None\<rparr>"
  let ?u = "?t\<lparr>pl_idle := n, pl_closed := True\<rparr>"
  have "(pool_step once)\<^sup>*\<^sup>* (pool_init (Suc (Suc n)) (Suc items)) ?s"
    using pool_process [of once "Suc n" items 1] by simp
  also have "pool_step once ?s ?t" using pool_step.take [of ?s once] by simp
  also have "pool_step once ?t ?u" using pool_step.leave [of ?t once True] by simp
  also have "pool_step once ?u (?u\<lparr>pl_panic := Some SendOnClosedChannel\<rparr>)"
    using pool_step.send_closed [of ?u once] by simp
  finally show ?thesis unfolding pool_reach_def
    by (intro exI [of _ "?u\<lparr>pl_panic := Some SendOnClosedChannel\<rparr>"]) simp
qed

text \<open>Without the guard the second worker to leave closes a closed channel, whatever the input.\<close>

lemma pool_double_close:
  "\<exists>s. pool_reach False (Suc (Suc n)) items s \<and> pl_sent s = items \<and> pl_panic s = Some CloseOfClosedChannel"
proof -
  let ?s = "\<lparr>pl_queue = 0, pl_idle = Suc (Suc n), pl_busy = 0, pl_sent = items, pl_closed = False, pl_panic = None\<rparr>"
  let ?u = "?s\<lparr>pl_idle := Suc n, pl_closed := True\<rparr>"
  have "(pool_step False)\<^sup>*\<^sup>* (pool_init (Suc (Suc n)) items) ?s"
    using pool_process [of False "Suc n" items 0] by simp
  also have "pool_step False ?s ?u" using pool_step.leave [of ?s False True] by simp
  also have "pool_step False ?u (?u\<lparr>pl_panic := Some CloseOfClosedChannel\<rparr>)"
    using pool_step.leave_panic [of ?u False CloseOfClosedChannel] by simp
  finally show ?thesis unfolding pool_reach_def
    by (intro exI [of _ "?u\<lparr>pl_panic := Some CloseOfClosedChannel\<rparr>"]) simp
qed

end
