(* ===== verification/TermFreq.thy ===== *)
theory TermFreq
  imports BloomMaster WorkerPool
begin

text \<open>
  The term frequency calculator of \<open>client_proxy/tf_calc.go\<close>: the counting of a document's tokens
  (\<open>frequencyWorker\<close>), the hash partition (\<open>shuffler\<close>), the reducers, the bucket sizes, and the
  two goroutines that hand sizes and words to the bloom manager.  Counts are natural numbers (Go's
  int); pairs may reach a reducer in any order.
\<close>

type_synonym tf_map = "string \<rightharpoonup> nat"
type_synonym wordPair = "string \<times> nat"

definition numReducers :: u32 where
  "numReducers = 26"

text \<open>Reading a missing key gives zero.\<close>

definition tf_of :: "tf_map \<Rightarrow> string \<Rightarrow> nat" where
  "tf_of m w = (case m w of None \<Rightarrow> 0 | Some n \<Rightarrow> n)"

definition frequencyWorker :: "string list \<Rightarrow> tf_map" where
  "frequencyWorker doc = foldl (\<lambda>m token. m(token \<mapsto> tf_of m token + 1)) Map.empty doc"

text \<open>FNV-1a, 32 bits.\<close>

definition Hash :: "string \<Rightarrow> u32" where
  "Hash s = foldl (\<lambda>h b. (h XOR ucast b) * 16777619) 2166136261 (str_bytes s)"

text \<open>The pairs of one document, in the order of the map iteration, with their reducer.\<close>

definition shuffler :: "wordPair list \<Rightarrow> (u32 \<times> wordPair) list" where
  "shuffler doc = map (\<lambda>(key, val). (Hash key mod numReducers, (key, val))) doc"

definition reducer :: "wordPair list \<Rightarrow> tf_map" where
  "reducer input = foldl (\<lambda>subSet (key, tf). subSet(key \<mapsto> tf_of subSet key + tf)) Map.empty input"

record bucketVals =
  ltHunredbucketSize :: u64
  ltOneKbucketSize :: u64
  ltTenKbucketSize :: u64
  ltHundredKBucketSize :: u64

definition calculateBucketSizes :: "wordPair list \<Rightarrow> bucketVals" where
  "calculateBucketSizes resultMap = foldl (\<lambda>b (word, size).
     if size < 100 then b\<lparr>ltHunredbucketSize := ltHunredbucketSize b + 1\<rparr>
     else if 100 < size \<and> size < 1000 then b\<lparr>ltOneKbucketSize := ltOneKbucketSize b + 1\<rparr>
     else if 1000 < size \<and> size < 10000 then b\<lparr>ltTenKbucketSize := ltTenKbucketSize b + 1\<rparr>
     else if 10000 < size \<and> size < 100000 then b\<lparr>ltHundredKBucketSize := ltHundredKBucketSize b + 1\<rparr>
     else b) \<lparr>ltHunredbucketSize = 0, ltOneKbucketSize = 0, ltTenKbucketSize = 0, ltHundredKBucketSize = 0\<rparr> resultMap"

text \<open>The initializer adds up what the reducers send, in the order it arrives; the sizes it then
  announces, or \<open>None\<close> while fewer than \<open>numReducers\<close> have arrived.\<close>

definition add_sizes :: "(BloomFrequencyBucket \<Rightarrow> u64) \<Rightarrow> bucketVals \<Rightarrow> BloomFrequencyBucket \<Rightarrow> u64" where
  "add_sizes b a =
     b(Below100 := b Below100 + ltHunredbucketSize a, Below1000 := b Below1000 + ltOneKbucketSize a,
       Below10000 := b Below10000 + ltTenKbucketSize a, Below100000 := b Below100000 + ltHundredKBucketSize a)"

definition bloomFilterInitializer :: "bucketVals list \<Rightarrow> (BloomFrequencyBucket \<times> u64) list option" where
  "bloomFilterInitializer arrivals =
     (if length arrivals < unat numReducers then None
      else let b = foldl add_sizes (\<lambda>_. 0) (take (unat numReducers) arrivals)
           in Some (map (\<lambda>k. (k, b k)) [Below100, Below1000, Below10000, Below100000]))"

section \<open>Populating the filters\<close>

text \<open>The four slices, their indices, and the calls made of \<open>QueueFreqBucketAdd\<close>.\<close>

record populate =
  pf_slice :: "BloomFrequencyBucket \<Rightarrow> string list"
  pf_index :: "BloomFrequencyBucket \<Rightarrow> nat"
  pf_calls :: "(BloomFrequencyBucket \<times> string list) list"

definition populate_put :: "BloomFrequencyBucket \<Rightarrow> nat \<Rightarrow> string \<Rightarrow> populate \<Rightarrow> populate go" where
  "populate_put k i word p =
     gbind (slice_set (pf_slice p k) i word) (\<lambda>sl.
       Inr (p\<lparr>pf_slice := (pf_slice p)(k := sl), pf_index := (pf_index p)(k := pf_index p k + 1)\<rparr>))"

text \<open>A slice that has reached 10000 words is flushed; the largest bucket keeps the words it
  flushed instead of the rest.\<close>

definition populate_flush :: "BloomFrequencyBucket \<Rightarrow> populate \<Rightarrow> populate" where
  "populate_flush k p =
     (let i = pf_index p k; sl = pf_slice p k
      in if i = 10000 then
           p\<lparr>pf_slice := (pf_slice p)(k := if k = Below100000 then take i sl else drop i sl),
             pf_index := (pf_index p)(k := 0), pf_calls := pf_calls p @ [(k, take i sl)]\<rparr>
         else p)"

definition populate_word :: "wordPair \<Rightarrow> populate \<Rightarrow> populate go" where
  "populate_word ws p =
     (let word = fst ws; size = snd ws
      in gbind
          (if size < 100 then populate_put Below100 (pf_index p Below100) word p
           else if 100 < size \<and> size < 1000 then populate_put Below1000 (pf_index p Below1000) word p
           else if 1000 < size \<and> size < 10000 then populate_put Below10000 (pf_index p Below10000) word p
           else if 10000 < size \<and> size < 100000 then populate_put Below100000 (pf_index p Below100) word p
           else Inr p)
          (\<lambda>p. Inr (populate_flush Below100000 (populate_flush Below10000
                 (populate_flush Below1000 (populate_flush Below100 p))))))"

fun populate_loop :: "wordPair list \<Rightarrow> populate \<Rightarrow> populate go" where
  "populate_loop [] p = Inr p"
| "populate_loop (ws # rest) p = gbind (populate_word ws p) (populate_loop rest)"

text \<open>The calls made, from the calculator's bucket sizes and result map (in iteration order).\<close>

definition populateBloomFilters ::
    "(BloomFrequencyBucket \<Rightarrow> nat) \<Rightarrow> wordPair list \<Rightarrow> (BloomFrequencyBucket \<times> string list) list go" where
  "populateBloomFilters sizes resultMap =
     gbind (populate_loop resultMap
         \<lparr>pf_slice = (\<lambda>k. replicate (sizes k) []), pf_index = (\<lambda>_. 0), pf_calls = []\<rparr>) (\<lambda>p.
       Inr (pf_calls p @ map (\<lambda>k. (k, pf_slice p k)) [Below100, Below1000, Below10000, Below100000]))"

text \<open>A new calculator: no field for the sizes or the result map is ever written.\<close>

record TermFrequencyCalculator =
  tc_sizes :: "BloomFrequencyBucket \<Rightarrow> nat"
  tc_ResultMap :: "wordPair list"

definition NewTermFrequencyCalculator :: TermFrequencyCalculator where
  "NewTermFrequencyCalculator = \<lparr>tc_sizes = (\<lambda>_. 0), tc_ResultMap = []\<rparr>"

section \<open>Lemmas: counting\<close>

lemma tf_of_update [simp]: "tf_of (m(w \<mapsto> n)) v = (if v = w then n else tf_of m v)"
  by (simp add: tf_of_def)

lemma tf_of_empty [simp]: "tf_of Map.empty w = 0"
  by (simp add: tf_of_def)

text \<open>A count map: present exactly for the words with a positive count.\<close>

definition counts :: "tf_map \<Rightarrow> (string \<Rightarrow> nat) \<Rightarrow> bool" where
  "counts m c \<longleftrightarrow> (\<forall>w. m w = (if c w = 0 then None else Some (c w)))"

definition pair_sum :: "wordPair list \<Rightarrow> string \<Rightarrow> nat" where
  "pair_sum ps w = sum_list (map snd (filter (\<lambda>p. fst p = w) ps))"

lemma pair_sum_append [simp]: "pair_sum (ps @ qs) w = pair_sum ps w + pair_sum qs w"
  by (simp add: pair_sum_def)

lemma pair_sum_perm: "mset ps = mset qs \<Longrightarrow> pair_sum ps w = pair_sum qs w"
  unfolding pair_sum_def by (rule sum_list_map_mset) simp

definition reduce_pair :: "tf_map \<Rightarrow> wordPair \<Rightarrow> tf_map" where
  "reduce_pair m p = m(fst p \<mapsto> tf_of m (fst p) + snd p)"

lemma reducer_fold: "reducer input = foldl reduce_pair Map.empty input"
  by (simp add: reducer_def reduce_pair_def [abs_def] split_def)

lemma frequencyWorker_fold: "frequencyWorker doc = foldl reduce_pair Map.empty (map (\<lambda>t. (t, 1)) doc)"
  by (simp add: frequencyWorker_def reduce_pair_def [abs_def] foldl_map)

lemma counts_pair:
  "counts m c \<Longrightarrow> snd p \<noteq> 0 \<Longrightarrow> counts (reduce_pair m p) (\<lambda>w. c w + pair_sum [p] w)"
  by (auto simp: counts_def reduce_pair_def tf_of_def pair_sum_def)

lemma counts_foldl:
  "counts m c \<Longrightarrow> \<forall>p \<in> set input. snd p \<noteq> 0 \<Longrightarrow>
     counts (foldl reduce_pair m input) (\<lambda>w. c w + pair_sum input w)"
proof (induction input arbitrary: m c)
  case Nil
  then show ?case by (simp add: pair_sum_def)
next
  case (Cons p input)
  have "pair_sum (p # input) w = pair_sum [p] w + pair_sum input w" for w
    using pair_sum_append [of "[p]" input w] by simp
  then have "(\<lambda>w. c w + pair_sum (p # input) w) = (\<lambda>w. c w + pair_sum [p] w + pair_sum input w)"
    by (simp add: add.assoc)
  with Cons.IH [OF counts_pair [OF Cons.prems(1)], of p] Cons.prems(2) show ?case by simp
qed

lemma counts_empty: "counts Map.empty (\<lambda>_. 0)"
  by (simp add: counts_def)

lemma reducer_counts: "\<forall>p \<in> set input. snd p \<noteq> 0 \<Longrightarrow> counts (reducer input) (pair_sum input)"
  using counts_foldl [OF counts_empty, of input] by (simp add: reducer_fold)

lemma frequencyWorker_counts: "counts (frequencyWorker doc) (count_list doc)"
proof -
  have "pair_sum (map (\<lambda>t. (t, 1)) doc) w = count_list doc w" for w
    by (induction doc) (auto simp: pair_sum_def)
  then show ?thesis
    using counts_foldl [OF counts_empty, of "map (\<lambda>t. (t, 1)) doc"] by (simp add: frequencyWorker_fold)
qed

lemma pair_sum_ranges:
  assumes "counts m c" and "ranges m kvs"
  shows "pair_sum kvs w = c w" and "\<forall>p \<in> set kvs. snd p \<noteq> 0"
proof -
  have d: "distinct (map fst kvs)" using assms(2) by (simp add: ranges_def)
  then have "pair_sum kvs w = (case map_of kvs w of None \<Rightarrow> 0 | Some n \<Rightarrow> n)"
  proof (induction kvs)
    case Nil
    then show ?case by (simp add: pair_sum_def)
  next
    case (Cons p kvs)
    then have "fst p \<notin> fst ` set kvs" by simp
    then have "filter (\<lambda>q. fst q = fst p) kvs = []" by (metis (mono_tags, lifting) filter_False image_eqI)
    with Cons show ?case by (cases p) (auto simp: pair_sum_def)
  qed
  moreover have "map_of kvs = m" using assms(2) by (simp add: ranges_def)
  ultimately show "pair_sum kvs w = c w" using assms(1) by (simp add: counts_def)
  show "\<forall>p \<in> set kvs. snd p \<noteq> 0"
  proof
    fix p
    assume "p \<in> set kvs"
    then have "m (fst p) = Some (snd p)" using ranges_Some [OF assms(2), of "fst p" "snd p"] by simp
    with assms(1) show "snd p \<noteq> 0" by (auto simp: counts_def split: if_splits)
  qed
qed

text \<open>What reducer \<open>r\<close> is sent, among all pairs in the order they arrive.\<close>

definition reducer_input :: "u32 \<Rightarrow> wordPair list \<Rightarrow> wordPair list" where
  "reducer_input r arrivals = map snd (filter (\<lambda>p. fst p = r) (shuffler arrivals))"

lemma reducer_input_filter:
  "reducer_input r arrivals = filter (\<lambda>p. Hash (fst p) mod numReducers = r) arrivals"
  by (induction arrivals) (auto simp: reducer_input_def shuffler_def)

lemma pair_sum_filter:
  "pair_sum (filter (\<lambda>p. P (fst p)) ps) w = (if P w then pair_sum ps w else 0)"
  by (induction ps) (auto simp: pair_sum_def)

lemma total_counts:
  assumes "list_all2 (\<lambda>doc kvs. ranges (frequencyWorker doc) kvs) docs kvss"
  shows "pair_sum (concat kvss) w = count_list (concat docs) w" and "\<forall>p \<in> set (concat kvss). snd p \<noteq> 0"
proof -
  have "pair_sum (concat kvss) w = count_list (concat docs) w \<and> (\<forall>p \<in> set (concat kvss). snd p \<noteq> 0)"
    using assms
  proof (induction rule: list_all2_induct)
    case Nil
    show ?case by (simp add: pair_sum_def)
  next
    case (Cons doc docs kvs kvss)
    note one = pair_sum_ranges [OF frequencyWorker_counts Cons(1)]
    have "pair_sum kvs w = count_list doc w" by (rule one(1))
    moreover have "\<forall>p \<in> set kvs. snd p \<noteq> 0" by (rule one(2))
    ultimately show ?case using Cons.IH by auto
  qed
  then show "pair_sum (concat kvss) w = count_list (concat docs) w" "\<forall>p \<in> set (concat kvss). snd p \<noteq> 0"
    by blast+
qed

lemma reducer_total:
  assumes "list_all2 (\<lambda>doc kvs. ranges (frequencyWorker doc) kvs) docs kvss"
    and "mset arrivals = mset (concat kvss)"
  shows "reducer (reducer_input r arrivals) w =
    (if Hash w mod numReducers = r \<and> w \<in> set (concat docs) then Some (count_list (concat docs) w) else None)"
proof -
  have "set arrivals = set (concat kvss)" using assms(2) by (metis set_mset_mset)
  then have "\<forall>p \<in> set (reducer_input r arrivals). snd p \<noteq> 0"
    using total_counts(2) [OF assms(1)] by (auto simp: reducer_input_filter simp del: set_concat)
  from reducer_counts [OF this]
  have "reducer (reducer_input r arrivals) w =
      (if pair_sum (reducer_input r arrivals) w = 0 then None else Some (pair_sum (reducer_input r arrivals) w))"
    by (simp add: counts_def)
  moreover have "pair_sum (reducer_input r arrivals) w =
      (if Hash w mod numReducers = r then count_list (concat docs) w else 0)"
    using pair_sum_perm [OF assms(2)] total_counts(1) [OF assms(1)]
    by (simp add: reducer_input_filter pair_sum_filter [where P = "\<lambda>w. Hash w mod numReducers = r"])
  moreover have "count_list (concat docs) w = 0 \<longleftrightarrow> w \<notin> set (concat docs)" by (rule count_list_0_iff)
  ultimately show ?thesis by (simp del: set_concat neq0_conv)
qed

section \<open>Lemmas: bucket sizes\<close>

text \<open>The bucket of a count: the boundaries 100, 1000, 10000 and everything from 100000 on are in
  none.\<close>

fun in_bucket :: "BloomFrequencyBucket \<Rightarrow> nat \<Rightarrow> bool" where
  "in_bucket Below100 n \<longleftrightarrow> n < 100"
| "in_bucket Below1000 n \<longleftrightarrow> 100 < n \<and> n < 1000"
| "in_bucket Below10000 n \<longleftrightarrow> 1000 < n \<and> n < 10000"
| "in_bucket Below100000 n \<longleftrightarrow> 10000 < n \<and> n < 100000"
| "in_bucket BucketUnknown n \<longleftrightarrow> False"

fun size_in :: "BloomFrequencyBucket \<Rightarrow> bucketVals \<Rightarrow> u64" where
  "size_in Below100 b = ltHunredbucketSize b"
| "size_in Below1000 b = ltOneKbucketSize b"
| "size_in Below10000 b = ltTenKbucketSize b"
| "size_in Below100000 b = ltHundredKBucketSize b"
| "size_in BucketUnknown b = 0"

lemma calculateBucketSizes_length:
  "size_in k (calculateBucketSizes kvs) = of_nat (length (filter (\<lambda>p. in_bucket k (snd p)) kvs))"
proof (induction kvs rule: rev_induct)
  case Nil
  show ?case by (cases k) (simp_all add: calculateBucketSizes_def)
next
  case (snoc p kvs)
  then show ?case by (cases k) (auto simp: calculateBucketSizes_def split_def)
qed

lemma add_sizes_fold:
  "k \<noteq> BucketUnknown \<Longrightarrow> foldl add_sizes f as k = f k + sum_list (map (size_in k) as)"
  by (induction as arbitrary: f) (cases k; simp add: add_sizes_def add.assoc)+

lemma ranges_card:
  assumes "ranges m kvs"
  shows "length (filter (\<lambda>p. P (snd p)) kvs) = card {w. \<exists>n. m w = Some n \<and> P n}"
proof -
  have d: "distinct (map fst kvs)" using assms by (simp add: ranges_def)
  let ?f = "filter (\<lambda>p. P (snd p)) kvs"
  have "distinct (map fst ?f)" using d by (rule distinct_map_filter)
  then have "length ?f = card (set (map fst ?f))" using distinct_card by fastforce
  also have "set (map fst ?f) = {w. \<exists>n. m w = Some n \<and> P n}"
    using ranges_Some [OF assms] by force
  finally show ?thesis .
qed

text \<open>What the initializer announces when the reducers hold the counts of a sequence of words, each
  those that hash to it.\<close>

lemma reported_sizes:
  assumes "\<forall>r < 26. \<forall>w. m r w = (if Hash w mod numReducers = of_nat r \<and> w \<in> set ws then Some (count_list ws w) else None)"
    and "\<forall>r < 26. ranges (m r) (outs r)"
    and "mset sizes = mset (map (\<lambda>r. calculateBucketSizes (outs r)) [0..<26])"
  shows "bloomFilterInitializer sizes =
    Some (map (\<lambda>k. (k, of_nat (card {w \<in> set ws. in_bucket k (count_list ws w)})))
      [Below100, Below1000, Below10000, Below100000])"
proof -
  have n: "unat numReducers = 26" by (simp add: numReducers_def)
  have len: "length sizes = 26" using assms(3) by (metis length_map length_upt diff_zero size_mset)
  define h where "h w = unat (Hash w mod numReducers)" for w
  have h: "h w < 26" for w
    using unat_mod_distrib [of "Hash w" numReducers] n by (simp add: h_def)
  have hr: "Hash w mod numReducers = of_nat r \<longleftrightarrow> h w = r" if "r < 26" for w r
    using that by (auto simp: h_def unat_of_nat word_unat_eq_iff take_bit_nat_eq_self)
  have total: "foldl add_sizes (\<lambda>_. 0) sizes k =
      of_nat (card {w \<in> set ws. in_bucket k (count_list ws w)})"
    if k: "k \<noteq> BucketUnknown" for k
  proof -
    let ?S = "{w \<in> set ws. in_bucket k (count_list ws w)}"
    have fin: "finite ?S" by simp
    have one: "size_in k (calculateBucketSizes (outs r)) = of_nat (card {w \<in> ?S. h w = r})" if "r < 26" for r
    proof -
      have "ranges (m r) (outs r)" using assms(2) that by blast
      from ranges_card [OF this, of "in_bucket k"]
      have "length (filter (\<lambda>p. in_bucket k (snd p)) (outs r)) =
          card {w. \<exists>n. m r w = Some n \<and> in_bucket k n}" .
      also have "{w. \<exists>n. m r w = Some n \<and> in_bucket k n} =
          {w \<in> ?S. h w = r}"
        using assms(1) that hr [OF that] by (auto split: if_splits)
      finally show ?thesis by (simp add: calculateBucketSizes_length)
    qed
    have "foldl add_sizes (\<lambda>_. 0) sizes k = sum_list (map (size_in k) sizes)"
      using add_sizes_fold [OF k] by simp
    also have "\<dots> = sum_list (map (size_in k) (map (\<lambda>r. calculateBucketSizes (outs r)) [0..<26]))"
      by (rule sum_list_map_mset [OF assms(3)])
    also have "\<dots> = sum_list (map (\<lambda>r. of_nat (card {w \<in> ?S. h w = r})) [0..<26])"
      using one by (intro arg_cong [where f = sum_list]) simp
    also have "\<dots> = of_nat (\<Sum>r \<in> {0..<26}. card {w \<in> ?S. h w = r})"
      by (simp only: sum_list_distinct_conv_sum_set [OF distinct_upt] set_upt of_nat_sum)
    also have "(\<Sum>r \<in> {0..<26}. card {w \<in> ?S. h w = r}) = card ?S"
    proof -
      have "(\<Sum>r \<in> {0..<26}. \<Sum>w \<in> {w \<in> ?S. h w = r}. 1 :: nat) = (\<Sum>w \<in> ?S. 1)"
        by (rule sum.group [OF fin]) (use h in auto)
      then show ?thesis by (simp only: card_eq_sum)
    qed
    finally show ?thesis .
  qed
  have "take 26 sizes = sizes" using len by simp
  then show ?thesis by (simp add: bloomFilterInitializer_def n len total)
qed

section \<open>Properties\<close>

text \<open>C16: The distributed count is right.  Whatever the order of the map iterations and in whatever
  order the pairs of all documents reach them, reducer \<open>r\<close> ends with exactly the words of the corpus
  that hash to \<open>r\<close>, each with its number of occurrences in all documents.\<close>

theorem mapreduce_counts:
  assumes "list_all2 (\<lambda>doc kvs. ranges (frequencyWorker doc) kvs) docs kvss"
    and "mset arrivals = mset (concat kvss)"
  shows "reducer (map snd (filter (\<lambda>p. fst p = r) (shuffler arrivals))) w =
    (if Hash w mod numReducers = r \<and> w \<in> set (concat docs) then Some (count_list (concat docs) w) else None)"
  using reducer_total [OF assms, of r w] by (simp add: reducer_input_def)

theorem mapreduce_counts_witness:
  "reducer (map snd (filter (\<lambda>p. fst p = Hash ''ab'' mod numReducers)
     (shuffler [(''ab'', 1), (''c'', 1), (''ab'', 2)]))) ''ab'' = Some 3"
proof -
  have "list_all2 (\<lambda>doc kvs. ranges (frequencyWorker doc) kvs) [[''ab'', ''c''], [''ab'', ''ab'']]
      [[(''c'', 1), (''ab'', 1)], [(''ab'', 2)]]"
    by (auto simp: frequencyWorker_def ranges_def tf_of_def fun_upd_twist)
  from mapreduce_counts [OF this, of "[(''ab'', 1), (''c'', 1), (''ab'', 2)]" "Hash ''ab'' mod numReducers" "''ab''"]
  show ?thesis by simp
qed

text \<open>The announced bucket sizes.  Once the 26 reducers have reported, in any order, the
  initializer asks for four filters whose sizes are the numbers of distinct words of the corpus
  that occur less than 100, strictly between 100 and 1000, 1000 and 10000, and 10000 and 100000
  times (modulo 2^64); a word that occurs exactly 100, 1000 or 10000 times is in none.\<close>

theorem announced_bucket_sizes:
  assumes "list_all2 (\<lambda>doc kvs. ranges (frequencyWorker doc) kvs) docs kvss"
    and "mset arrivals = mset (concat kvss)"
    and "\<forall>r < 26. ranges (reducer (reducer_input (of_nat r) arrivals)) (outs r)"
    and "mset sizes = mset (map (\<lambda>r. calculateBucketSizes (outs r)) [0..<26])"
  shows "bloomFilterInitializer sizes =
    Some (map (\<lambda>k. (k, of_nat (card {w \<in> set (concat docs). in_bucket k (count_list (concat docs) w)})))
      [Below100, Below1000, Below10000, Below100000])"
  by (rule reported_sizes [OF _ assms(3,4)]) (use reducer_total [OF assms(1,2)] in blast)

theorem announced_bucket_sizes_witness:
  "bloomFilterInitializer (map (\<lambda>r. calculateBucketSizes
       (if of_nat r = Hash ''a'' mod numReducers then [(''a'', 1)] else [])) [0..<26]) =
     Some [(Below100, 1), (Below1000, 0), (Below10000, 0), (Below100000, 0)]"
proof -
  let ?outs = "\<lambda>r. if of_nat r = Hash ''a'' mod numReducers then [(''a'', 1)] else [] :: wordPair list"
  let ?sizes = "map (\<lambda>r. calculateBucketSizes (?outs r)) [0..<26]"
  have l: "list_all2 (\<lambda>doc kvs. ranges (frequencyWorker doc) kvs) [[''a'']] [[(''a'', 1)]]"
    by (simp add: frequencyWorker_def ranges_def)
  have a: "mset [(''a'', 1)] = mset (concat [[(''a'', 1)]])" by simp
  have o: "\<forall>r < 26. ranges (reducer (reducer_input (of_nat r) [(''a'', 1)])) (?outs r)"
    by (auto simp: reducer_input_filter reducer_def ranges_def)
  have "{w \<in> set (concat [[''a'']]). in_bucket k (count_list (concat [[''a'']]) w)} =
      (if k = Below100 then {''a''} else {})" for k
    by (cases k) auto
  then show ?thesis using announced_bucket_sizes [OF l a o refl] by (simp del: upt_Suc)
qed

text \<open>With one mapper the count maps of all documents are delivered and nothing panics; with two
  or more, the first mapper that finds the input closed closes \<open>TermFreq\<close> for all (\<open>mapperOnce\<close>),
  and one still holding a count map panics sending it.\<close>

theorem frequencyWorker_pool:
  "(\<forall>s. pool_reach True 1 docs s \<longrightarrow> pl_panic s = None \<and> (pl_closed s \<longrightarrow> pl_sent s = docs)) \<and>
   (\<exists>s. pool_reach True (Suc (Suc n)) (Suc docs) s \<and> pl_panic s = Some SendOnClosedChannel)"
  using pool_one_worker pool_send_on_closed by blast

theorem frequencyWorker_pool_witness:
  "\<exists>s. pool_reach True 1 1 s \<and> pl_panic s = None \<and> pl_sent s = 1 \<and> pl_closed s"
proof -
  let ?s = "\<lparr>pl_queue = 0, pl_idle = 1, pl_busy = 0, pl_sent = 1, pl_closed = False, pl_panic = None\<rparr>"
  have "(pool_step True)\<^sup>*\<^sup>* (pool_init (Suc 0) 1) ?s" using pool_process [of True 0 1 0] by simp
  also have "pool_step True ?s (?s\<lparr>pl_idle := 0, pl_closed := True\<rparr>)"
    using pool_step.leave [of ?s True True] by simp
  finally have r: "pool_reach True 1 1 (?s\<lparr>pl_idle := 0, pl_closed := True\<rparr>)"
    by (simp add: pool_reach_def)
  from frequencyWorker_pool [of 1] r show ?thesis by (intro exI [of _ "?s\<lparr>pl_idle := 0, pl_closed := True\<rparr>"]) simp
qed

text \<open>The filters of a first run are never completed.  The calculator's bucket sizes and result
  map are never written, so \<open>populateBloomFilters\<close> queues the four empty slices whatever the corpus;
  if the announced size of some bucket is not zero, that bucket is never handed to the saver, and
  the saver, having received at most three buckets, keeps waiting.\<close>

theorem first_run_saver_waits:
  assumes "bolt_doc B" and "bolt_commits B" and "blooms_ok B s"
    and "\<forall>f. \<exists>bs. GobEncode L f = Some bs \<and> length bs \<le> 2147483646"
    and "map fst freqs = [Below100, Below1000, Below10000, Below100000]" and "(k, n) \<in> set freqs" and "n \<noteq> 0"
  shows "\<exists>calls b s'.
    populateBloomFilters (tc_sizes NewTermFrequencyCalculator) (tc_ResultMap NewTermFrequencyCalculator) = Inr calls \<and>
    bloomWorker L (FreqBucketInit freqs # map (\<lambda>c. FreqBucketAdd (fst c) (snd c)) calls) newBloomMaster = Inr b \<and>
    k \<notin> set (bm_finished b) \<and>
    freqBloomSaver B L b (bm_finished b) s = Inr (False, 0, s')"
proof -
  let ?ks = "[Below100, Below1000, Below10000, Below100000]"
  let ?calls = "map (\<lambda>k. (k, [])) ?ks :: (BloomFrequencyBucket \<times> string list) list"
  have pop: "populateBloomFilters (tc_sizes NewTermFrequencyCalculator) (tc_ResultMap NewTermFrequencyCalculator) = Inr ?calls"
    by (simp add: populateBloomFilters_def NewTermFrequencyCalculator_def)
  let ?i = "foldl (init_bucket L) newBloomMaster freqs"
  let ?b1 = "?i\<lparr>bm_freqBucketsReady := True\<rparr>"
  have d: "distinct (map fst freqs)" by (simp add: assms(5))
  note init = init_buckets [OF d, where L = L and b = newBloomMaster]
  have h: "handleFreqBucketInit L freqs newBloomMaster = Inr ?b1"
    by (simp add: handleFreqBucketInit_def init(5)) (simp add: newBloomMaster_def)
  have some: "bm_buckets ?b1 j \<noteq> None" if "j \<in> set ?ks" for j
  proof -
    have "map_of freqs j \<noteq> None" using that assms(5) by (metis map_of_eq_None_iff set_map)
    then show ?thesis using init(1) [of j] by auto
  qed
  let ?b = "freq_adds L ?calls ?b1"
  have fin: "bm_finished ?b = filter (\<lambda>j. bm_fullSize ?b1 j = 0) ?ks"
  proof -
    have "\<forall>a \<in> set ?calls. snd a = [] \<and> bm_buckets ?b1 (fst a) \<noteq> None" using some by simp
    from freq_adds_empty [OF this, of L] show ?thesis
      using init(3,4) by (simp add: newBloomMaster_def o_def)
  qed
  have "map_of freqs k = Some n" using d assms(6) by simp
  then have kn: "bm_fullSize ?b1 k \<noteq> 0" using init(2) [of k] assms(7) by simp
  then have knot: "k \<notin> set (bm_finished ?b)" unfolding fin set_filter by blast
  have "k \<in> set ?ks" using assms(5,6) by (metis fst_conv image_eqI set_map)
  then have "length (bm_finished ?b) < length ?ks"
    unfolding fin using kn by (intro length_filter_less) 
  then have len: "length (bm_finished ?b) < numBuckets" by (simp add: numBuckets_def)
  have "savable L ?b j" if "j \<in> set (bm_finished ?b)" for j
  proof -
    from that have j: "j \<in> set ?ks" unfolding fin set_filter by blast
    then obtain f where "bm_buckets ?b j = Some f" using some [OF j] by (auto simp: freq_adds_buckets)
    with j assms(4) show ?thesis by (auto simp: savable_def)
  qed
  then obtain s' where "freqBloomSaver B L ?b (bm_finished ?b) s = Inr (False, 0, s')"
    using saver_run_effect [OF assms(1-3), of "bm_finished ?b" L ?b 0 0] len
    by (auto simp: freqBloomSaver_def)
  with pop knot show ?thesis
    by (intro exI [of _ ?calls] exI [of _ ?b] exI [of _ s']) (simp add: h bloomWorker_freq_adds [of L ?calls, simplified])
qed

theorem first_run_saver_waits_witness:
  "\<exists>calls b s'.
    populateBloomFilters (tc_sizes NewTermFrequencyCalculator) (tc_ResultMap NewTermFrequencyCalculator) = Inr calls \<and>
    bloomWorker (demo_bloom\<lparr>GobEncode := \<lambda>f. Some []\<rparr>)
      (FreqBucketInit [(Below100, 5), (Below1000, 0), (Below10000, 0), (Below100000, 0)] #
        map (\<lambda>c. FreqBucketAdd (fst c) (snd c)) calls) newBloomMaster = Inr b \<and>
    freqBloomSaver mem_bolt (demo_bloom\<lparr>GobEncode := \<lambda>f. Some []\<rparr>) b (bm_finished b) Map.empty = Inr (False, 0, s')"
proof -
  let ?L = "demo_bloom\<lparr>GobEncode := \<lambda>f. Some []\<rparr>"
  have "bolt_commits mem_bolt" "blooms_ok mem_bolt Map.empty"
    by (simp_all add: bolt_commits_def blooms_ok_def mem_bucket_def)
  from first_run_saver_waits [OF bolt_doc_mem this, of ?L
      "[(Below100, 5), (Below1000, 0), (Below10000, 0), (Below100000, 0)]" Below100 5]
  show ?thesis by (simp del: bloomWorker.simps) blast
qed

end
