(* ===== verification/TermNetwork.thy ===== *)
theory TermNetwork
  imports TermFreq
begin

text \<open>
  The goroutines of the term frequency calculator (\<open>client_proxy/tf_calc.go\<close>) together: mappers,
  shufflers, reducers and the initializer, over the unbuffered channels \<open>TermFreq\<close>, \<open>reduceMap\<close> and
  \<open>bloomSizeChan\<close>, the token channel \<open>shufflerChan\<close> and the quit channel of the reducers.  Nothing
  closes the calculator's own quit channel: its \<open>Stop\<close> tests the counter that \<open>Start\<close> has already
  set.  \<open>TermFreq\<close> gives what each goroutine computes; here they run in any interleaving.
\<close>

section \<open>The network\<close>

text \<open>A mapper is idle, holds the counts of a document, or has left.  A shuffler has pairs to send (none
  when it is back at its \<open>select\<close>), has taken its token and tests the length of the channel, is
  about to close the reducers' quit channel, or has left.  A reducer has received pairs, is sending its
  bucket sizes, or has left.\<close>

datatype mapper_state = MapIdle | MapHolds "string list" | MapLeft

datatype shuffler_state = Shuffling "wordPair list" | Testing | Closing | ShufflerLeft

datatype reducer_state = Reducing "wordPair list" | Reporting "wordPair list" bucketVals | ReducerLeft "wordPair list" bucketVals

record tf_net =
  tn_docIn :: "string list list"
  tn_mappers :: "mapper_state list"
  tn_closed :: bool
  tn_toLaunch :: nat
  tn_shufflers :: "shuffler_state list"
  tn_tokens :: nat
  tn_quit :: bool
  tn_reducers :: "reducer_state list"
  tn_init :: bool
  tn_sizes :: "bucketVals list"
  tn_panic :: "panic option"

definition tf_start :: "nat \<Rightarrow> string list list \<Rightarrow> tf_net" where
  "tf_start numWorkers docs =
     \<lparr>tn_docIn = docs, tn_mappers = replicate numWorkers MapIdle, tn_closed = False,
      tn_toLaunch = unat numReducers, tn_shufflers = [], tn_tokens = 0, tn_quit = False,
      tn_reducers = [], tn_init = False, tn_sizes = [], tn_panic = None\<rparr>"

definition reducer_of :: "string \<Rightarrow> nat" where
  "reducer_of key = unat (Hash key mod numReducers)"

inductive tf_step :: "tf_net \<Rightarrow> tf_net \<Rightarrow> bool" where
  map_doc: "tn_panic s = None \<Longrightarrow> tn_docIn s = d # ds \<Longrightarrow> i < length (tn_mappers s) \<Longrightarrow> tn_mappers s ! i = MapIdle \<Longrightarrow>
    tf_step s (s\<lparr>tn_docIn := ds, tn_mappers := (tn_mappers s)[i := MapHolds d]\<rparr>)"
| map_leave: "tn_panic s = None \<Longrightarrow> tn_docIn s = [] \<Longrightarrow> i < length (tn_mappers s) \<Longrightarrow> tn_mappers s ! i = MapIdle \<Longrightarrow>
    close_out True (tn_closed s) = Inr c \<Longrightarrow>
    tf_step s (s\<lparr>tn_mappers := (tn_mappers s)[i := MapLeft], tn_closed := c\<rparr>)"
| map_panic: "tn_panic s = None \<Longrightarrow> i < length (tn_mappers s) \<Longrightarrow> tn_mappers s ! i = MapHolds d \<Longrightarrow> tn_closed s \<Longrightarrow>
    tf_step s (s\<lparr>tn_panic := Some SendOnClosedChannel\<rparr>)"
| launch_shuffler: "tn_panic s = None \<Longrightarrow> 0 < tn_toLaunch s \<Longrightarrow>
    tf_step s (s\<lparr>tn_toLaunch := tn_toLaunch s - 1, tn_tokens := tn_tokens s + 1,
      tn_shufflers := tn_shufflers s @ [Shuffling []]\<rparr>)"
| send_counts: "tn_panic s = None \<Longrightarrow> i < length (tn_mappers s) \<Longrightarrow> tn_mappers s ! i = MapHolds d \<Longrightarrow> \<not> tn_closed s \<Longrightarrow>
    j < length (tn_shufflers s) \<Longrightarrow> tn_shufflers s ! j = Shuffling [] \<Longrightarrow> ranges (frequencyWorker d) kvs \<Longrightarrow>
    tf_step s (s\<lparr>tn_mappers := (tn_mappers s)[i := MapIdle], tn_shufflers := (tn_shufflers s)[j := Shuffling kvs]\<rparr>)"
| send_pair: "tn_panic s = None \<Longrightarrow> j < length (tn_shufflers s) \<Longrightarrow> tn_shufflers s ! j = Shuffling ((key, val) # kvs) \<Longrightarrow>
    reducer_of key < length (tn_reducers s) \<Longrightarrow> tn_reducers s ! reducer_of key = Reducing ps \<Longrightarrow>
    tf_step s (s\<lparr>tn_shufflers := (tn_shufflers s)[j := Shuffling kvs],
      tn_reducers := (tn_reducers s)[reducer_of key := Reducing (ps @ [(key, val)])]\<rparr>)"
| take_token: "tn_panic s = None \<Longrightarrow> j < length (tn_shufflers s) \<Longrightarrow> tn_shufflers s ! j = Shuffling [] \<Longrightarrow> tn_closed s \<Longrightarrow>
    0 < tn_tokens s \<Longrightarrow>
    tf_step s (s\<lparr>tn_tokens := tn_tokens s - 1, tn_shufflers := (tn_shufflers s)[j := Testing]\<rparr>)"
| tokens_left: "tn_panic s = None \<Longrightarrow> j < length (tn_shufflers s) \<Longrightarrow> tn_shufflers s ! j = Testing \<Longrightarrow> tn_tokens s \<noteq> 0 \<Longrightarrow>
    tf_step s (s\<lparr>tn_shufflers := (tn_shufflers s)[j := ShufflerLeft]\<rparr>)"
| no_token_left: "tn_panic s = None \<Longrightarrow> j < length (tn_shufflers s) \<Longrightarrow> tn_shufflers s ! j = Testing \<Longrightarrow> tn_tokens s = 0 \<Longrightarrow>
    tf_step s (s\<lparr>tn_shufflers := (tn_shufflers s)[j := Closing]\<rparr>)"
| close_quit: "tn_panic s = None \<Longrightarrow> j < length (tn_shufflers s) \<Longrightarrow> tn_shufflers s ! j = Closing \<Longrightarrow>
    close_out True (tn_quit s) = Inr q \<Longrightarrow>
    tf_step s (s\<lparr>tn_shufflers := (tn_shufflers s)[j := ShufflerLeft], tn_quit := q\<rparr>)"
| launch_reducer: "tn_panic s = None \<Longrightarrow> tn_toLaunch s = 0 \<Longrightarrow> length (tn_reducers s) < unat numReducers \<Longrightarrow>
    tf_step s (s\<lparr>tn_reducers := tn_reducers s @ [Reducing []]\<rparr>)"
| reducer_quits: "tn_panic s = None \<Longrightarrow> r < length (tn_reducers s) \<Longrightarrow> tn_reducers s ! r = Reducing ps \<Longrightarrow> tn_quit s \<Longrightarrow>
    ranges (reducer ps) kvs \<Longrightarrow>
    tf_step s (s\<lparr>tn_reducers := (tn_reducers s)[r := Reporting ps (calculateBucketSizes kvs)]\<rparr>)"
| launch_init: "tn_panic s = None \<Longrightarrow> length (tn_reducers s) = unat numReducers \<Longrightarrow> \<not> tn_init s \<Longrightarrow>
    tf_step s (s\<lparr>tn_init := True\<rparr>)"
| report: "tn_panic s = None \<Longrightarrow> r < length (tn_reducers s) \<Longrightarrow> tn_reducers s ! r = Reporting ps b \<Longrightarrow> tn_init s \<Longrightarrow>
    tf_step s (s\<lparr>tn_reducers := (tn_reducers s)[r := ReducerLeft ps b], tn_sizes := tn_sizes s @ [b]\<rparr>)"

inductive_cases tf_stepE: "tf_step s t"

abbreviation tf_steps where
  "tf_steps \<equiv> tf_step\<^sup>*\<^sup>*"

section \<open>Every run ends\<close>

fun mapper_weight :: "mapper_state \<Rightarrow> nat" where
  "mapper_weight MapIdle = 1"
| "mapper_weight (MapHolds d) = 2 + length d"
| "mapper_weight MapLeft = 0"

fun shuffler_weight :: "shuffler_state \<Rightarrow> nat" where
  "shuffler_weight (Shuffling kvs) = 3 + length kvs"
| "shuffler_weight Testing = 2"
| "shuffler_weight Closing = 1"
| "shuffler_weight ShufflerLeft = 0"

fun reducer_weight :: "reducer_state \<Rightarrow> nat" where
  "reducer_weight (Reducing ps) = 2"
| "reducer_weight (Reporting ps b) = 1"
| "reducer_weight (ReducerLeft ps b) = 0"

definition tf_measure :: "tf_net \<Rightarrow> nat" where
  "tf_measure s =
     (if tn_panic s = None then
        1 + sum_list (map (\<lambda>d. 2 + length d) (tn_docIn s)) + sum_list (map mapper_weight (tn_mappers s)) +
        4 * tn_toLaunch s + sum_list (map shuffler_weight (tn_shufflers s)) +
        3 * (unat numReducers - length (tn_reducers s)) + sum_list (map reducer_weight (tn_reducers s)) +
        (if tn_init s then 0 else 1)
      else 0)"

lemma ranges_frequencyWorker_length:
  assumes "ranges (frequencyWorker d) kvs"
  shows "length kvs \<le> length d"
proof -
  have "dom (frequencyWorker d) = set d"
    using frequencyWorker_counts [of d] by (auto simp: counts_def count_list_0_iff split: if_splits)
  then have "set (map fst kvs) = set d" using ranges_dom [OF assms] by simp
  moreover have "distinct (map fst kvs)" using assms by (simp add: ranges_def)
  ultimately have "length (map fst kvs) = card (set d)" by (metis distinct_card)
  then show ?thesis by (simp add: card_length)
qed

lemma tf_decreases: "tf_step s t \<Longrightarrow> tf_measure t < tf_measure s"
proof (induction rule: tf_step.induct)
  case (map_doc s d ds i)
  then show ?case using sum_list_upd [of i "tn_mappers s" MapIdle mapper_weight "MapHolds d"] by (simp add: tf_measure_def)
next
  case (map_leave s i c)
  then show ?case using sum_list_upd [of i "tn_mappers s" MapIdle mapper_weight MapLeft] by (simp add: tf_measure_def)
next
  case (send_counts s i d j kvs)
  then show ?case
    using sum_list_upd [of i "tn_mappers s" "MapHolds d" mapper_weight MapIdle]
      sum_list_upd [of j "tn_shufflers s" "Shuffling []" shuffler_weight "Shuffling kvs"]
      ranges_frequencyWorker_length [of d kvs] by (simp add: tf_measure_def)
next
  case (send_pair s j key val kvs ps)
  then show ?case
    using sum_list_upd [of j "tn_shufflers s" "Shuffling ((key, val) # kvs)" shuffler_weight "Shuffling kvs"]
      sum_list_upd [of "reducer_of key" "tn_reducers s" "Reducing ps" reducer_weight "Reducing (ps @ [(key, val)])"]
    by (simp add: tf_measure_def)
next
  case (take_token s j)
  then show ?case using sum_list_upd [of j "tn_shufflers s" "Shuffling []" shuffler_weight Testing] by (simp add: tf_measure_def)
next
  case (tokens_left s j)
  then show ?case using sum_list_upd [of j "tn_shufflers s" Testing shuffler_weight ShufflerLeft] by (simp add: tf_measure_def)
next
  case (no_token_left s j)
  then show ?case using sum_list_upd [of j "tn_shufflers s" Testing shuffler_weight Closing] by (simp add: tf_measure_def)
next
  case (close_quit s j q)
  then show ?case using sum_list_upd [of j "tn_shufflers s" Closing shuffler_weight ShufflerLeft] by (simp add: tf_measure_def)
next
  case (reducer_quits s r ps kvs)
  then show ?case
    using sum_list_upd [of r "tn_reducers s" "Reducing ps" reducer_weight "Reporting ps (calculateBucketSizes kvs)"]
    by (simp add: tf_measure_def)
next
  case (report s r ps b)
  then show ?case
    using sum_list_upd [of r "tn_reducers s" "Reporting ps b" reducer_weight "ReducerLeft ps b"] by (simp add: tf_measure_def)
qed (auto simp: tf_measure_def)

lemma tf_wf: "wf {(t, s). tf_step s t}"
  by (rule wf_subset [OF wf_measure [of tf_measure]]) (auto simp: tf_decreases)

section \<open>Nothing is lost\<close>

fun held :: "mapper_state \<Rightarrow> string list" where
  "held (MapHolds d) = d"
| "held _ = []"

fun sh_pairs :: "shuffler_state \<Rightarrow> wordPair list" where
  "sh_pairs (Shuffling kvs) = kvs"
| "sh_pairs _ = []"

fun red_input :: "reducer_state \<Rightarrow> wordPair list" where
  "red_input (Reducing ps) = ps"
| "red_input (Reporting ps b) = ps"
| "red_input (ReducerLeft ps b) = ps"

text \<open>The occurrences of a word on their way: at the reducers, at the shufflers, at the mappers, and in
  documents not yet taken.\<close>

definition tf_flow :: "tf_net \<Rightarrow> string \<Rightarrow> nat" where
  "tf_flow s w =
     sum_list (map (\<lambda>x. pair_sum (red_input x) w) (tn_reducers s)) +
     sum_list (map (\<lambda>x. pair_sum (sh_pairs x) w) (tn_shufflers s)) +
     sum_list (map (\<lambda>m. count_list (held m) w) (tn_mappers s)) +
     count_list (concat (tn_docIn s)) w"

lemma pair_sum_Nil [simp]: "pair_sum [] w = 0"
  by (simp add: pair_sum_def)

lemma pair_sum_frequencyWorker: "ranges (frequencyWorker d) kvs \<Longrightarrow> pair_sum kvs w = count_list d w"
  by (rule pair_sum_ranges(1) [OF frequencyWorker_counts])

lemma tf_flow_step: "tf_step s t \<Longrightarrow> tf_flow t w = tf_flow s w"
proof (induction rule: tf_step.induct)
  case (map_doc s d ds i)
  then show ?case
    using sum_list_upd [of i "tn_mappers s" MapIdle "\<lambda>m. count_list (held m) w" "MapHolds d"] by (simp add: tf_flow_def)
next
  case (map_leave s i c)
  then show ?case
    using sum_list_upd [of i "tn_mappers s" MapIdle "\<lambda>m. count_list (held m) w" MapLeft] by (simp add: tf_flow_def)
next
  case (send_counts s i d j kvs)
  then show ?case
    using sum_list_upd [of i "tn_mappers s" "MapHolds d" "\<lambda>m. count_list (held m) w" MapIdle]
      sum_list_upd [of j "tn_shufflers s" "Shuffling []" "\<lambda>x. pair_sum (sh_pairs x) w" "Shuffling kvs"]
      pair_sum_frequencyWorker [of d kvs w] by (simp add: tf_flow_def)
next
  case (send_pair s j key val kvs ps)
  have "pair_sum ((key, val) # kvs) w = pair_sum [(key, val)] w + pair_sum kvs w"
    using pair_sum_append [of "[(key, val)]" kvs w] by simp
  with send_pair show ?case
    using sum_list_upd [of j "tn_shufflers s" "Shuffling ((key, val) # kvs)" "\<lambda>x. pair_sum (sh_pairs x) w" "Shuffling kvs"]
      sum_list_upd [of "reducer_of key" "tn_reducers s" "Reducing ps" "\<lambda>x. pair_sum (red_input x) w" "Reducing (ps @ [(key, val)])"]
    by (simp add: tf_flow_def)
next
  case (take_token s j)
  then show ?case
    using sum_list_upd [of j "tn_shufflers s" "Shuffling []" "\<lambda>x. pair_sum (sh_pairs x) w" Testing] by (simp add: tf_flow_def)
next
  case (tokens_left s j)
  then show ?case
    using sum_list_upd [of j "tn_shufflers s" Testing "\<lambda>x. pair_sum (sh_pairs x) w" ShufflerLeft] by (simp add: tf_flow_def)
next
  case (no_token_left s j)
  then show ?case
    using sum_list_upd [of j "tn_shufflers s" Testing "\<lambda>x. pair_sum (sh_pairs x) w" Closing] by (simp add: tf_flow_def)
next
  case (close_quit s j q)
  then show ?case
    using sum_list_upd [of j "tn_shufflers s" Closing "\<lambda>x. pair_sum (sh_pairs x) w" ShufflerLeft] by (simp add: tf_flow_def)
next
  case (reducer_quits s r ps kvs)
  then show ?case
    using sum_list_upd [of r "tn_reducers s" "Reducing ps" "\<lambda>x. pair_sum (red_input x) w" "Reporting ps (calculateBucketSizes kvs)"]
    by (simp add: tf_flow_def)
next
  case (report s r ps b)
  then show ?case
    using sum_list_upd [of r "tn_reducers s" "Reporting ps b" "\<lambda>x. pair_sum (red_input x) w" "ReducerLeft ps b"]
    by (simp add: tf_flow_def)
qed (auto simp: tf_flow_def)

text \<open>Every pair goes to the reducer its word hashes to, and no count is zero.\<close>

definition tf_routed :: "tf_net \<Rightarrow> bool" where
  "tf_routed s \<longleftrightarrow>
     (\<forall>r < length (tn_reducers s). \<forall>p \<in> set (red_input (tn_reducers s ! r)). reducer_of (fst p) = r \<and> snd p \<noteq> 0) \<and>
     (\<forall>j < length (tn_shufflers s). \<forall>p \<in> set (sh_pairs (tn_shufflers s ! j)). snd p \<noteq> 0)"

lemma tf_routed_step: "tf_step s t \<Longrightarrow> tf_routed s \<Longrightarrow> tf_routed t"
proof (induction rule: tf_step.induct)
  case (send_counts s i d j kvs)
  then have "\<forall>p \<in> set kvs. snd p \<noteq> 0" using pair_sum_ranges(2) [OF frequencyWorker_counts] by blast
  with send_counts show ?case by (auto simp: tf_routed_def nth_list_update)
next
  case (send_pair s j key val kvs ps)
  then have "val \<noteq> 0" "\<forall>p \<in> set kvs. snd p \<noteq> 0" by (force simp: tf_routed_def)+
  with send_pair show ?case by (auto simp: tf_routed_def nth_list_update)
qed (auto simp: tf_routed_def nth_list_update nth_append)

section \<open>The reducers quit when there is nothing left\<close>

definition working :: "shuffler_state \<Rightarrow> nat" where
  "working x = (case x of Shuffling _ \<Rightarrow> 1 | _ \<Rightarrow> 0)"

definition present :: "shuffler_state \<Rightarrow> nat" where
  "present x = (case x of ShufflerLeft \<Rightarrow> 0 | _ \<Rightarrow> 1)"

lemma working_present [simp]:
  "working (Shuffling kvs) = 1" "working Testing = 0" "working Closing = 0" "working ShufflerLeft = 0"
  "present (Shuffling kvs) = 1" "present Testing = 1" "present Closing = 1" "present ShufflerLeft = 0"
  by (simp_all add: working_def present_def)

lemma working_le_present: "sum_list (map working xs) \<le> sum_list (map present xs)"
  by (rule sum_list_mono) (simp add: working_def present_def split: shuffler_state.split)

lemma working_none: "sum_list (map working xs) = 0 \<Longrightarrow> x \<in> set xs \<Longrightarrow> sh_pairs x = []"
  by (cases x) (auto simp: working_def sum_list_eq_0_iff)

text \<open>The tokens count the shufflers that have not left their loop, and until the reducers are told to
  quit some shuffler is still to come or to close.\<close>

definition tf_tokens :: "tf_net \<Rightarrow> bool" where
  "tf_tokens s \<longleftrightarrow> tn_tokens s = sum_list (map working (tn_shufflers s)) \<and>
     (tn_quit s \<or> 0 < tn_toLaunch s + sum_list (map present (tn_shufflers s))) \<and>
     tn_toLaunch s + length (tn_shufflers s) = unat numReducers"

lemma tf_tokens_step: "tf_step s t \<Longrightarrow> tf_tokens s \<Longrightarrow> tf_tokens t"
proof (induction rule: tf_step.induct)
  case (send_counts s i d j kvs)
  then show ?case
    using sum_list_upd [of j "tn_shufflers s" "Shuffling []" working "Shuffling kvs"]
      sum_list_upd [of j "tn_shufflers s" "Shuffling []" present "Shuffling kvs"] by (simp add: tf_tokens_def)
next
  case (send_pair s j key val kvs ps)
  then show ?case
    using sum_list_upd [of j "tn_shufflers s" "Shuffling ((key, val) # kvs)" working "Shuffling kvs"]
      sum_list_upd [of j "tn_shufflers s" "Shuffling ((key, val) # kvs)" present "Shuffling kvs"] by (simp add: tf_tokens_def)
next
  case (take_token s j)
  then show ?case
    using sum_list_upd [of j "tn_shufflers s" "Shuffling []" working Testing]
      sum_list_upd [of j "tn_shufflers s" "Shuffling []" present Testing] by (simp add: tf_tokens_def)
next
  case (tokens_left s j)
  then show ?case
    using sum_list_upd [of j "tn_shufflers s" Testing working ShufflerLeft]
      working_le_present [of "(tn_shufflers s)[j := ShufflerLeft]"] by (simp add: tf_tokens_def)
next
  case (no_token_left s j)
  then show ?case
    using sum_list_upd [of j "tn_shufflers s" Testing working Closing]
      sum_list_upd [of j "tn_shufflers s" Testing present Closing] by (simp add: tf_tokens_def)
next
  case (close_quit s j q)
  then show ?case
    using sum_list_upd [of j "tn_shufflers s" Closing working ShufflerLeft] by (simp add: tf_tokens_def)
qed (auto simp: tf_tokens_def)

text \<open>A shuffler leaves its loop only after \<open>TermFreq\<close> was closed, and one that closes the reducers' quit
  channel has seen all others out of it: no pair is left with any of them.\<close>

definition tf_drained :: "tf_net \<Rightarrow> bool" where
  "tf_drained s \<longleftrightarrow>
     (tn_closed s \<longrightarrow> tn_docIn s = []) \<and> (MapLeft \<in> set (tn_mappers s) \<longrightarrow> tn_closed s) \<and>
     (\<forall>x \<in> set (tn_shufflers s). working x = 0 \<longrightarrow> tn_closed s) \<and>
     (tn_quit s \<or> Closing \<in> set (tn_shufflers s) \<longrightarrow> tn_closed s \<and> (\<forall>x \<in> set (tn_shufflers s). sh_pairs x = []))"

lemma tf_drained_step: "tf_step s t \<Longrightarrow> tf_tokens s \<Longrightarrow> tf_drained s \<Longrightarrow> tf_drained t"
proof (induction rule: tf_step.induct)
  case (map_leave s i c)
  then show ?case by (auto simp: tf_drained_def dest!: in_upd)
next
  case (send_pair s j key val kvs ps)
  have "Shuffling ((key, val) # kvs) \<in> set (tn_shufflers s)"
    using send_pair(2,3) by (metis nth_mem)
  then have "\<not> tn_quit s" "Closing \<notin> set (tn_shufflers s)"
    using send_pair.prems(2) by (force simp: tf_drained_def)+
  with send_pair show ?case by (auto simp: tf_drained_def dest!: in_upd)
next
  case (take_token s j)
  then show ?case by (auto simp: tf_drained_def dest!: in_upd)
next
  case (tokens_left s j)
  then have "Testing \<in> set (tn_shufflers s)" by (metis nth_mem)
  then have "tn_closed s" using tokens_left.prems(2) by (force simp: tf_drained_def)
  with tokens_left show ?case by (auto simp: tf_drained_def dest!: in_upd)
next
  case (no_token_left s j)
  then have "Testing \<in> set (tn_shufflers s)" by (metis nth_mem)
  then have "tn_closed s" using no_token_left.prems(2) by (force simp: tf_drained_def)
  moreover have "\<forall>x \<in> set (tn_shufflers s). sh_pairs x = []"
    using no_token_left working_none by (auto simp: tf_tokens_def)
  ultimately show ?case using no_token_left by (auto simp: tf_drained_def dest!: in_upd)
next
  case (close_quit s j q)
  then have "Closing \<in> set (tn_shufflers s)" by (metis nth_mem)
  with close_quit show ?case by (auto simp: tf_drained_def dest!: in_upd)
qed (auto simp: tf_drained_def dest!: in_upd)

text \<open>The reducers: launched after the shufflers, working until the quit channel is closed, and what
  they have reported is what the initializer has received.\<close>

definition left_sizes :: "reducer_state \<Rightarrow> bucketVals multiset" where
  "left_sizes x = (case x of ReducerLeft ps b \<Rightarrow> {#b#} | _ \<Rightarrow> {#})"

lemma left_sizes_simps [simp]:
  "left_sizes (Reducing ps) = {#}" "left_sizes (Reporting ps b) = {#}" "left_sizes (ReducerLeft ps b) = {#b#}"
  by (simp_all add: left_sizes_def)

fun reported_ok :: "bool \<Rightarrow> reducer_state \<Rightarrow> bool" where
  "reported_ok quit (Reducing ps) \<longleftrightarrow> True"
| "reported_ok quit (Reporting ps b) \<longleftrightarrow> quit \<and> (\<exists>kvs. ranges (reducer ps) kvs \<and> b = calculateBucketSizes kvs)"
| "reported_ok quit (ReducerLeft ps b) \<longleftrightarrow> quit \<and> (\<exists>kvs. ranges (reducer ps) kvs \<and> b = calculateBucketSizes kvs)"

definition tf_reports :: "tf_net \<Rightarrow> bool" where
  "tf_reports s \<longleftrightarrow> (\<forall>x \<in> set (tn_reducers s). reported_ok (tn_quit s) x) \<and>
     length (tn_reducers s) \<le> unat numReducers \<and> (tn_reducers s \<noteq> [] \<longrightarrow> tn_toLaunch s = 0) \<and>
     (tn_init s \<longrightarrow> length (tn_reducers s) = unat numReducers) \<and>
     mset (tn_sizes s) = sum_list (map left_sizes (tn_reducers s))"

lemma reported_ok_True: "reported_ok quit x \<Longrightarrow> reported_ok True x"
  by (cases x) auto

lemma tf_reports_step: "tf_step s t \<Longrightarrow> tf_reports s \<Longrightarrow> tf_reports t"
proof (induction rule: tf_step.induct)
  case (send_pair s j key val kvs ps)
  then show ?case
    using sum_list_upd [of "reducer_of key" "tn_reducers s" "Reducing ps" left_sizes "Reducing (ps @ [(key, val)])"]
    by (auto simp: tf_reports_def dest!: in_upd)
next
  case (close_quit s j q)
  then show ?case by (auto simp: tf_reports_def intro: reported_ok_True)
next
  case (reducer_quits s r ps kvs)
  then show ?case
    using sum_list_upd [of r "tn_reducers s" "Reducing ps" left_sizes "Reporting ps (calculateBucketSizes kvs)"]
    by (auto simp: tf_reports_def dest!: in_upd)
next
  case (report s r ps b)
  then have "reported_ok (tn_quit s) (Reporting ps b)" by (metis nth_mem tf_reports_def)
  with report show ?case
    using sum_list_upd [of r "tn_reducers s" "Reporting ps b" left_sizes "ReducerLeft ps b"]
    by (auto simp: tf_reports_def dest!: in_upd)
qed (auto simp: tf_reports_def)

section \<open>Complete runs\<close>

definition tf_inv :: "nat \<Rightarrow> string list list \<Rightarrow> tf_net \<Rightarrow> bool" where
  "tf_inv n docs s \<longleftrightarrow> (\<forall>w. tf_flow s w = count_list (concat docs) w) \<and> tf_routed s \<and> tf_tokens s \<and>
     tf_drained s \<and> tf_reports s \<and> length (tn_mappers s) = n"

lemma mappers_length_step: "tf_step s t \<Longrightarrow> length (tn_mappers t) = length (tn_mappers s)"
  by (induction rule: tf_step.induct) simp_all

lemma tf_inv_reach: "tf_steps (tf_start n docs) s \<Longrightarrow> tf_inv n docs s"
proof (induction rule: rtranclp_induct)
  case base
  have "unat numReducers = 26" by (simp add: numReducers_def)
  then show ?case
    by (auto simp: tf_inv_def tf_start_def tf_flow_def tf_routed_def tf_tokens_def tf_drained_def tf_reports_def
        sum_list_replicate_0)
next
  case (step s t)
  then show ?case
    unfolding tf_inv_def
    using tf_flow_step tf_routed_step tf_tokens_step tf_drained_step tf_reports_step mappers_length_step by metis
qed

text \<open>A single mapper has left when \<open>TermFreq\<close> is closed, so that it never sends on it again.\<close>

lemma single_mapper_step:
  "tf_step s t \<Longrightarrow> length (tn_mappers s) = 1 \<and> (tn_closed s \<longrightarrow> tn_mappers s ! 0 = MapLeft) \<and> tn_panic s = None \<Longrightarrow>
     length (tn_mappers t) = 1 \<and> (tn_closed t \<longrightarrow> tn_mappers t ! 0 = MapLeft) \<and> tn_panic t = None"
  by (induction rule: tf_step.induct) auto

lemma single_mapper_reach: "tf_steps (tf_start 1 docs) s \<Longrightarrow> tn_panic s = None"
proof -
  assume "tf_steps (tf_start 1 docs) s"
  then have "length (tn_mappers s) = 1 \<and> (tn_closed s \<longrightarrow> tn_mappers s ! 0 = MapLeft) \<and> tn_panic s = None"
  proof (induction rule: rtranclp_induct)
    case base
    show ?case by (simp add: tf_start_def)
  next
    case (step s t)
    then show ?case using single_mapper_step by blast
  qed
  then show ?thesis by simp
qed

lemma tf_panic_kind:
  "tf_step s t \<Longrightarrow> tn_panic s \<in> {None, Some SendOnClosedChannel} \<Longrightarrow> tn_panic t \<in> {None, Some SendOnClosedChannel}"
  by (induction rule: tf_step.induct) auto

lemma tf_panic_reach: "tf_steps (tf_start n docs) s \<Longrightarrow> tn_panic s \<in> {None, Some SendOnClosedChannel}"
  by (induction rule: rtranclp_induct) (simp add: tf_start_def, blast dest: tf_panic_kind)

lemma dom_counts: "counts m (count_list ws) \<Longrightarrow> dom m = set ws"
  by (auto simp: counts_def count_list_0_iff split: if_splits)

lemma pair_sum_0_iff: "\<forall>p \<in> set ps. snd p \<noteq> 0 \<Longrightarrow> pair_sum ps w = 0 \<longleftrightarrow> w \<notin> fst ` set ps"
  by (force simp: pair_sum_def sum_list_eq_0_iff)

lemma ranges_frequencyWorker_exists: "\<exists>kvs. ranges (frequencyWorker d) kvs"
  by (rule finite_ranges) (simp add: dom_counts [OF frequencyWorker_counts])

lemma ranges_reducer_exists:
  assumes "\<forall>p \<in> set ps. snd p \<noteq> 0"
  shows "\<exists>kvs. ranges (reducer ps) kvs"
proof (rule finite_ranges)
  have "dom (reducer ps) \<subseteq> fst ` set ps"
    using reducer_counts [OF assms] pair_sum_0_iff [OF assms] by (auto simp: counts_def split: if_splits)
  then show "finite (dom (reducer ps))" by (rule finite_subset) simp
qed

text \<open>A state without a step and without a panic: everybody has left.\<close>

lemma tf_stuck:
  assumes inv: "tf_inv n docs s" and "0 < n" and stuck: "\<nexists>t. tf_step s t" and p: "tn_panic s = None"
  shows "tn_docIn s = [] \<and> set (tn_mappers s) = {MapLeft} \<and> set (tn_shufflers s) = {ShufflerLeft} \<and>
    tn_quit s \<and> length (tn_reducers s) = unat numReducers \<and> (\<forall>x \<in> set (tn_reducers s). \<exists>ps b. x = ReducerLeft ps b)"
proof -
  note no = stuck [unfolded not_ex, rule_format]
  have tok: "tf_tokens s" and dr: "tf_drained s" and rep: "tf_reports s" and rt: "tf_routed s"
    and len: "length (tn_mappers s) = n" using inv by (simp_all add: tf_inv_def)
  have toLaunch: "tn_toLaunch s = 0" using tf_step.launch_shuffler [OF p] no by blast
  have redlen: "length (tn_reducers s) = unat numReducers"
    using tf_step.launch_reducer [OF p toLaunch] no rep by (fastforce simp: tf_reports_def)
  then have init: "tn_init s" using tf_step.launch_init [OF p] no by blast
  have notest: "Testing \<notin> set (tn_shufflers s)"
  proof
    assume "Testing \<in> set (tn_shufflers s)"
    then obtain j where j: "j < length (tn_shufflers s)" "tn_shufflers s ! j = Testing" by (metis in_set_conv_nth)
    show False using tf_step.tokens_left [OF p j] tf_step.no_token_left [OF p j] no by (cases "tn_tokens s = 0") blast+
  qed
  have noclose: "Closing \<notin> set (tn_shufflers s)"
  proof
    assume "Closing \<in> set (tn_shufflers s)"
    then obtain j where j: "j < length (tn_shufflers s)" "tn_shufflers s ! j = Closing" by (metis in_set_conv_nth)
    show False using tf_step.close_quit [OF p j close_out_Inr(2)] no by blast
  qed
  have nopairs: "kvs = []" if "Shuffling kvs \<in> set (tn_shufflers s)" for kvs
  proof (rule ccontr)
    assume "kvs \<noteq> []"
    then obtain key val kvs' where kvs: "kvs = (key, val) # kvs'" by (metis list.exhaust surj_pair)
    with that obtain j where j: "j < length (tn_shufflers s)" "tn_shufflers s ! j = Shuffling ((key, val) # kvs')"
      by (metis in_set_conv_nth)
    have "\<not> tn_quit s" using dr that kvs by (force simp: tf_drained_def)
    moreover have r: "reducer_of key < length (tn_reducers s)"
      unfolding redlen reducer_of_def by (simp add: unat_mod_distrib numReducers_def)
    moreover have "reported_ok (tn_quit s) (tn_reducers s ! reducer_of key)"
      using rep nth_mem [OF r] by (simp add: tf_reports_def)
    ultimately obtain ps where "tn_reducers s ! reducer_of key = Reducing ps"
      by (cases "tn_reducers s ! reducer_of key") auto
    from tf_step.send_pair [OF p j r this] no show False by blast
  qed
  have closed: "tn_closed s"
  proof (rule ccontr)
    assume opn: "\<not> tn_closed s"
    have "x = Shuffling []" if "x \<in> set (tn_shufflers s)" for x
    proof (cases x)
      case (Shuffling kvs)
      with that nopairs show ?thesis by blast
    qed (use that dr opn in \<open>force simp: tf_drained_def\<close>)+
    moreover have "tn_shufflers s \<noteq> []" using tok toLaunch by (auto simp: tf_tokens_def numReducers_def)
    ultimately obtain j where j: "j < length (tn_shufflers s)" "tn_shufflers s ! j = Shuffling []"
      by (metis length_greater_0_conv nth_mem)
    have i: "0 < length (tn_mappers s)" using len assms(2) by simp
    show False
    proof (cases "tn_mappers s ! 0")
      case MapIdle
      show ?thesis
        using tf_step.map_doc [OF p _ i MapIdle] tf_step.map_leave [OF p _ i MapIdle close_out_Inr(2)] no
        by (cases "tn_docIn s") blast+
    next
      case (MapHolds d)
      obtain kvs where "ranges (frequencyWorker d) kvs" using ranges_frequencyWorker_exists by blast
      from tf_step.send_counts [OF p i MapHolds opn j this] no show ?thesis by blast
    next
      case MapLeft
      then have "MapLeft \<in> set (tn_mappers s)" using i by (metis nth_mem)
      then show ?thesis using dr opn by (simp add: tf_drained_def)
    qed
  qed
  then have docIn: "tn_docIn s = []" using dr by (simp add: tf_drained_def)
  have "x = MapLeft" if x: "x \<in> set (tn_mappers s)" for x
  proof -
    obtain i where i: "i < length (tn_mappers s)" "tn_mappers s ! i = x" using x by (metis in_set_conv_nth)
    show ?thesis
    proof (cases x)
      case MapIdle
      with i tf_step.map_leave [OF p docIn i(1) _ close_out_Inr(2)] no show ?thesis by blast
    next
      case (MapHolds d)
      with i tf_step.map_panic [OF p i(1) _ closed] no show ?thesis by blast
    qed
  qed
  then have maps: "set (tn_mappers s) = {MapLeft}" using len assms(2) by (cases "tn_mappers s") auto
  have "x = ShufflerLeft" if x: "x \<in> set (tn_shufflers s)" for x
  proof (cases x)
    case (Shuffling kvs)
    then have "x = Shuffling []" using nopairs x by blast
    with x obtain j where j: "j < length (tn_shufflers s)" "tn_shufflers s ! j = Shuffling []" by (metis in_set_conv_nth)
    have "0 < sum_list (map working (tn_shufflers s))"
      using x \<open>x = Shuffling []\<close> by (metis gr0I sum_list_eq_0_iff image_eqI set_map working_present(1) zero_neq_one)
    then have "0 < tn_tokens s" using tok by (simp add: tf_tokens_def)
    from tf_step.take_token [OF p j closed this] no show ?thesis by blast
  qed (use x notest noclose in auto)
  then have shs: "set (tn_shufflers s) = {ShufflerLeft}"
    using tok toLaunch by (cases "tn_shufflers s") (auto simp: tf_tokens_def numReducers_def)
  then have "sum_list (map present (tn_shufflers s)) = 0" by (simp add: sum_list_eq_0_iff)
  then have quit: "tn_quit s" using tok toLaunch by (simp add: tf_tokens_def del: sum_list_eq_0_iff)
  have "\<exists>ps b. x = ReducerLeft ps b" if x: "x \<in> set (tn_reducers s)" for x
  proof -
    obtain r where r: "r < length (tn_reducers s)" "tn_reducers s ! r = x" using x by (metis in_set_conv_nth)
    show ?thesis
    proof (cases x)
      case (Reducing ps)
      then have "\<forall>p \<in> set ps. snd p \<noteq> 0" using rt r by (auto simp: tf_routed_def)
      then obtain kvs where "ranges (reducer ps) kvs" using ranges_reducer_exists by blast
      with tf_step.reducer_quits [OF p r(1) _ quit] Reducing r no show ?thesis by blast
    next
      case (Reporting ps b)
      with tf_step.report [OF p r(1) _ init] r no show ?thesis by blast
    qed blast
  qed
  with docIn maps shs quit redlen show ?thesis by blast
qed

text \<open>The reducers have then counted the corpus.\<close>

lemma tf_complete:
  assumes inv: "tf_inv n docs s" and "0 < n" and stuck: "\<nexists>t. tf_step s t" and p: "tn_panic s = None"
  shows "bloomFilterInitializer (tn_sizes s) =
    Some (map (\<lambda>k. (k, of_nat (card {w \<in> set (concat docs). in_bucket k (count_list (concat docs) w)})))
      [Below100, Below1000, Below10000, Below100000])"
proof -
  note stp = tf_stuck [OF assms]
  have n: "unat numReducers = 26" by (simp add: numReducers_def)
  have len: "length (tn_reducers s) = 26" using stp n by simp
  have flow: "tf_flow s w = count_list (concat docs) w" for w using inv by (simp add: tf_inv_def)
  have rt: "tf_routed s" and rep: "tf_reports s" using inv by (simp_all add: tf_inv_def)
  let ?in = "\<lambda>r. red_input (tn_reducers s ! r)"
  have pos: "\<forall>p \<in> set (?in r). snd p \<noteq> 0" and home: "\<forall>p \<in> set (?in r). reducer_of (fst p) = r" if "r < 26" for r
    using rt that len by (auto simp: tf_routed_def)
  have "sum_list (map (\<lambda>x. pair_sum (sh_pairs x) w) (tn_shufflers s)) = 0" for w
    using stp by (auto simp: sum_list_eq_0_iff)
  moreover have "sum_list (map (\<lambda>m. count_list (held m) w) (tn_mappers s)) = 0" for w
    using stp by (auto simp: sum_list_eq_0_iff)
  ultimately have sum: "(\<Sum>r<26. pair_sum (?in r) w) = count_list (concat docs) w" for w
    using flow [of w] stp len by (simp add: tf_flow_def sum_list_sum_nth atLeast0LessThan)
  have red: "reducer (?in r) w = (if Hash w mod numReducers = of_nat r \<and> w \<in> set (concat docs)
      then Some (count_list (concat docs) w) else None)" if r: "r < 26" for r w
  proof -
    have hash: "Hash w mod numReducers = of_nat r' \<longleftrightarrow> reducer_of w = r'" if "r' < 26" for r'
      using that by (auto simp: reducer_of_def unat_of_nat word_unat_eq_iff take_bit_nat_eq_self)
    have other: "pair_sum (?in r') w = 0" if "r' < 26" "reducer_of w \<noteq> r'" for r'
      using home [OF that(1)] that(2) pair_sum_0_iff [OF pos [OF that(1)], of w] by fastforce
    have "pair_sum (?in r) w = (if reducer_of w = r then count_list (concat docs) w else 0)"
    proof (cases "reducer_of w = r")
      case True
      have "(\<Sum>r'<26. pair_sum (?in r') w) = (\<Sum>r'<26. if r' = r then pair_sum (?in r) w else 0)"
        using other True by (intro sum.cong) auto
      also have "\<dots> = pair_sum (?in r) w" using r by simp
      finally show ?thesis using sum [of w] True by simp
    next
      case False
      then show ?thesis using other [OF r] by simp
    qed
    moreover have "reducer (?in r) w = (if pair_sum (?in r) w = 0 then None else Some (pair_sum (?in r) w))"
      using reducer_counts [OF pos [OF r]] by (simp add: counts_def)
    moreover have "count_list (concat docs) w = 0 \<longleftrightarrow> w \<notin> set (concat docs)" by (rule count_list_0_iff)
    ultimately show ?thesis unfolding hash [OF r] by (simp del: set_concat neq0_conv)
  qed
  have "\<exists>kvs b. tn_reducers s ! r = ReducerLeft (?in r) b \<and> ranges (reducer (?in r)) kvs \<and> b = calculateBucketSizes kvs"
    if r: "r < 26" for r
  proof -
    have mem: "tn_reducers s ! r \<in> set (tn_reducers s)" using r len by simp
    then obtain ps b where "tn_reducers s ! r = ReducerLeft ps b" using stp by blast
    moreover have "reported_ok (tn_quit s) (tn_reducers s ! r)" using rep mem by (simp add: tf_reports_def)
    ultimately show ?thesis by auto
  qed
  then obtain outs where outs: "\<And>r. r < 26 \<Longrightarrow> ranges (reducer (?in r)) (outs r) \<and>
      tn_reducers s ! r = ReducerLeft (?in r) (calculateBucketSizes (outs r))" by metis
  have "map left_sizes (tn_reducers s) = map (\<lambda>r. {#calculateBucketSizes (outs r)#}) [0..<26]"
  proof (rule nth_equalityI)
    show "length (map left_sizes (tn_reducers s)) = length (map (\<lambda>r. {#calculateBucketSizes (outs r)#}) [0..<26])"
      using len by simp
    fix r
    assume "r < length (map left_sizes (tn_reducers s))"
    then have r: "r < 26" using len by simp
    have "left_sizes (tn_reducers s ! r) = {#calculateBucketSizes (outs r)#}" using outs [OF r] by (metis left_sizes_simps(3))
    then show "map left_sizes (tn_reducers s) ! r = map (\<lambda>r. {#calculateBucketSizes (outs r)#}) [0..<26] ! r"
      using r len by (simp del: upt_Suc)
  qed
  moreover have "sum_list (map (\<lambda>r. {#f r#}) xs) = mset (map f xs)" for f :: "nat \<Rightarrow> bucketVals" and xs
    by (induction xs) simp_all
  ultimately have "mset (tn_sizes s) = mset (map (\<lambda>r. calculateBucketSizes (outs r)) [0..<26])"
    using rep by (simp add: tf_reports_def del: upt_Suc)
  from reported_sizes [OF _ _ this, of "\<lambda>r. reducer (?in r)"] red outs show ?thesis by blast
qed

section \<open>Properties\<close>

text \<open>The distributed term count, under every schedule.  Every run of the calculator's goroutines
  ends.  One that cannot go on has either panicked, a mapper sending on the channel another has closed,
  which a single mapper never does; or all goroutines have left, no pair was lost, whatever the moment
  at which each shuffler was launched and the reducers were told to quit, and the initializer
  announces for every bucket the number of distinct words of the corpus in its range.\<close>

theorem tf_any_schedule:
  assumes "0 < numWorkers"
  shows "wf {(t, s). tf_step s t} \<and>
    (\<forall>s. tf_steps (tf_start numWorkers docs) s \<longrightarrow>
       (numWorkers = 1 \<longrightarrow> tn_panic s = None) \<and>
       ((\<nexists>t. tf_step s t) \<longrightarrow>
          tn_panic s = Some SendOnClosedChannel \<or>
          tn_panic s = None \<and> tn_docIn s = [] \<and> set (tn_mappers s) = {MapLeft} \<and> set (tn_shufflers s) = {ShufflerLeft} \<and>
          bloomFilterInitializer (tn_sizes s) =
            Some (map (\<lambda>k. (k, of_nat (card {w \<in> set (concat docs). in_bucket k (count_list (concat docs) w)})))
              [Below100, Below1000, Below10000, Below100000])))"
proof (intro conjI allI impI)
  show "wf {(t, s). tf_step s t}" by (rule tf_wf)
  fix s
  assume r: "tf_steps (tf_start numWorkers docs) s"
  then show "tn_panic s = None" if "numWorkers = 1" using single_mapper_reach that by blast
  note panic = tf_panic_reach [OF r]
  note inv = tf_inv_reach [OF r]
  assume "\<nexists>t. tf_step s t"
  with panic tf_stuck [OF inv assms] tf_complete [OF inv assms]
  show "tn_panic s = Some SendOnClosedChannel \<or>
      tn_panic s = None \<and> tn_docIn s = [] \<and> set (tn_mappers s) = {MapLeft} \<and> set (tn_shufflers s) = {ShufflerLeft} \<and>
      bloomFilterInitializer (tn_sizes s) =
        Some (map (\<lambda>k. (k, of_nat (card {w \<in> set (concat docs). in_bucket k (count_list (concat docs) w)})))
          [Below100, Below1000, Below10000, Below100000])" by blast
qed

theorem tf_any_schedule_witness:
  "\<exists>s. tf_steps (tf_start 1 [[''a'', ''a''], [''b'']]) s \<and> tn_panic s = None \<and>
     bloomFilterInitializer (tn_sizes s) = Some [(Below100, 2), (Below1000, 0), (Below10000, 0), (Below100000, 0)]"
proof -
  let ?docs = "[[''a'', ''a''], [''b'']]"
  obtain s where s: "tf_steps (tf_start 1 ?docs) s" "\<nexists>t. tf_step s t"
    using wf_steps_end [OF tf_wf] by blast
  have "{w \<in> set (concat ?docs). in_bucket k (count_list (concat ?docs) w)} = (if k = Below100 then {''a'', ''b''} else {})" for k
    by (cases k) auto
  then have "map (\<lambda>k. (k, of_nat (card {w \<in> set (concat ?docs). in_bucket k (count_list (concat ?docs) w)}) :: u64))
      [Below100, Below1000, Below10000, Below100000] = [(Below100, 2), (Below1000, 0), (Below10000, 0), (Below100000, 0)]"
    by (simp only:) simp
  moreover note tf_any_schedule [of 1 ?docs, OF zero_less_one, THEN conjunct2, rule_format, OF s(1)]
  ultimately show ?thesis using s by (metis (no_types, lifting) option.distinct(1))
qed

end
