(* ===== verification/CountingRun.thy ===== *)
theory CountingRun
  imports Pipeline TermNetwork
begin

text \<open>
  The preprocessor and the term frequency calculator connected: \<open>TfOut\<close>, the first of the
  preprocessor's four bounded channels, is the calculator's \<open>docIn\<close>.  \<open>Pipeline\<close> has the one under
  every schedule of its consumers and \<open>TermNetwork\<close> the other over an input that is there from the
  start; here the mappers are the consumers of \<open>TfOut\<close>, and block the preprocessor while they are
  busy.  The consumers of the other three channels always receive.
\<close>

section \<open>The connected network\<close>

definition mappers_left :: "tf_net \<Rightarrow> nat" where
  "mappers_left t = sum_list (map (\<lambda>m. if m = MapLeft then 1 else 0) (tn_mappers t))"

text \<open>The preprocessor and the other consumers move; the calculator moves without its input, that is, by
  a step in which no mapper leaves (its own input list stays empty); a mapper takes the next
  document's tokens off the channel; a mapper finds the channel closed and drained, and leaves.\<close>

inductive count_step ::
    "unicode \<Rightarrow> (document, preproc_event, out_chan) fan \<times> tf_net \<Rightarrow> (document, preproc_event, out_chan) fan \<times> tf_net \<Rightarrow> bool"
  for U where
  preprocess: "fan_step (partition_code U) (\<lambda>c _. c \<noteq> TfChan) f f' \<Longrightarrow> count_step U (f, t) (f', t)"
| calculate: "tf_step t t' \<Longrightarrow> mappers_left t' = mappers_left t \<Longrightarrow> count_step U (f, t) (f, t')"
| take_tokens: "tn_panic t = None \<Longrightarrow> fn_buf f TfChan = TfOut ws # es \<Longrightarrow>
    i < length (tn_mappers t) \<Longrightarrow> tn_mappers t ! i = MapIdle \<Longrightarrow>
    count_step U (f, t)
      (f\<lparr>fn_buf := (fn_buf f)(TfChan := es), fn_got := (fn_got f)(TfChan := fn_got f TfChan @ [TfOut ws])\<rparr>,
       t\<lparr>tn_mappers := (tn_mappers t)[i := MapHolds ws]\<rparr>)"
| input_closed: "tn_panic t = None \<Longrightarrow> fn_closed f TfChan \<Longrightarrow> fn_buf f TfChan = [] \<Longrightarrow>
    i < length (tn_mappers t) \<Longrightarrow> tn_mappers t ! i = MapIdle \<Longrightarrow> close_out True (tn_closed t) = Inr c \<Longrightarrow>
    count_step U (f, t) (f, t\<lparr>tn_mappers := (tn_mappers t)[i := MapLeft], tn_closed := c\<rparr>)"

abbreviation count_steps where
  "count_steps U \<equiv> (count_step U)\<^sup>*\<^sup>*"

definition count_start :: "nat \<Rightarrow> document list \<Rightarrow> (document, preproc_event, out_chan) fan \<times> tf_net" where
  "count_start numWorkers docs = (fan_init False docs, tf_start numWorkers [])"

section \<open>Every run ends\<close>

lemma count_decreases:
  assumes "count_step U x y"
  shows "(y, x) \<in> (\<lambda>x. fan_measure (partition_code U) (fst x)) <*mlex*> measure (\<lambda>x. tf_measure (snd x))"
  using assms
proof (cases rule: count_step.cases)
  case (preprocess f f' t)
  then show ?thesis using fan_decreases by (auto intro!: mlex_less)
next
  case (calculate t t' f)
  then show ?thesis using tf_decreases by (auto intro!: mlex_leq)
next
  case (take_tokens t f ws es i)
  then have "fan_step (partition_code U) (\<lambda>_ _. True) f
      (f\<lparr>fn_buf := (fn_buf f)(TfChan := es), fn_got := (fn_got f)(TfChan := fn_got f TfChan @ [TfOut ws])\<rparr>)"
    using fan_step.receive [of f TfChan "TfOut ws" es "\<lambda>_ _. True" "partition_code U"] by simp
  from fan_decreases [OF this] take_tokens(1,2) show ?thesis by (auto intro!: mlex_less)
next
  case (input_closed t f i c)
  then have "tf_step (t\<lparr>tn_docIn := []\<rparr>) (t\<lparr>tn_docIn := [], tn_mappers := (tn_mappers t)[i := MapLeft], tn_closed := c\<rparr>)"
    using tf_step.map_leave [of "t\<lparr>tn_docIn := []\<rparr>" i c] by simp
  from tf_decreases [OF this] input_closed(1,2) show ?thesis
    by (auto intro!: mlex_leq simp: tf_measure_def split: if_splits)
qed

lemma count_wf: "wf {(y, x). count_step U x y}"
  by (rule wf_subset [OF wf_mlex [OF wf_measure]]) (use count_decreases in auto)

section \<open>The calculator's view\<close>

text \<open>A step of the calculator either concerns its input or does not depend on it.\<close>

lemma tf_step_input:
  "tf_step s u \<Longrightarrow>
     (\<exists>i < length (tn_mappers s). tn_mappers s ! i = MapIdle \<and> tn_panic s = None) \<and>
       (tn_docIn u \<noteq> tn_docIn s \<or> mappers_left u \<noteq> mappers_left s) \<or>
     (\<forall>x. tf_step (s\<lparr>tn_docIn := x\<rparr>) (u\<lparr>tn_docIn := x\<rparr>)) \<and> tn_docIn u = tn_docIn s \<and> mappers_left u = mappers_left s"
proof (induction rule: tf_step.induct)
  case (map_leave s i c)
  then show ?case using sum_list_upd [of i "tn_mappers s" MapIdle "\<lambda>m. if m = MapLeft then 1 else 0 :: nat" MapLeft]
    by (auto simp: mappers_left_def)
next
  case (send_counts s i d j kvs)
  then show ?case
    using sum_list_upd [of i "tn_mappers s" "MapHolds d" "\<lambda>m. if m = MapLeft then 1 else 0 :: nat" MapIdle]
      tf_step.send_counts [of "s\<lparr>tn_docIn := x\<rparr>" i d j kvs for x]
    by (cases s) (auto simp: mappers_left_def)
next
  case (map_panic s i d)
  then show ?case using tf_step.map_panic [of "s\<lparr>tn_docIn := x\<rparr>" i d for x] by (cases s) (auto simp: mappers_left_def)
next
  case (launch_shuffler s)
  then show ?case using tf_step.launch_shuffler [of "s\<lparr>tn_docIn := x\<rparr>" for x] by (cases s) (auto simp: mappers_left_def)
next
  case (send_pair s j key val kvs ps)
  then show ?case using tf_step.send_pair [of "s\<lparr>tn_docIn := x\<rparr>" j key val kvs ps for x] by (cases s) (auto simp: mappers_left_def)
next
  case (take_token s j)
  then show ?case using tf_step.take_token [of "s\<lparr>tn_docIn := x\<rparr>" j for x] by (cases s) (auto simp: mappers_left_def)
next
  case (tokens_left s j)
  then show ?case using tf_step.tokens_left [of "s\<lparr>tn_docIn := x\<rparr>" j for x] by (cases s) (auto simp: mappers_left_def)
next
  case (no_token_left s j)
  then show ?case using tf_step.no_token_left [of "s\<lparr>tn_docIn := x\<rparr>" j for x] by (cases s) (auto simp: mappers_left_def)
next
  case (close_quit s j q)
  then show ?case using tf_step.close_quit [of "s\<lparr>tn_docIn := x\<rparr>" j q for x] by (cases s) (auto simp: mappers_left_def)
next
  case (launch_reducer s)
  then show ?case using tf_step.launch_reducer [of "s\<lparr>tn_docIn := x\<rparr>" for x] by (cases s) (auto simp: mappers_left_def)
next
  case (reducer_quits s r ps kvs)
  then show ?case using tf_step.reducer_quits [of "s\<lparr>tn_docIn := x\<rparr>" r ps kvs for x] by (cases s) (auto simp: mappers_left_def)
next
  case (launch_init s)
  then show ?case using tf_step.launch_init [of "s\<lparr>tn_docIn := x\<rparr>" for x] by (cases s) (auto simp: mappers_left_def)
next
  case (report s r ps b)
  then show ?case using tf_step.report [of "s\<lparr>tn_docIn := x\<rparr>" r ps b for x] by (cases s) (auto simp: mappers_left_def)
qed auto

text \<open>The tokens the mappers have not yet taken, and the calculator with these as its input.\<close>

definition tokens_to_come :: "unicode \<Rightarrow> document list \<Rightarrow> (document, preproc_event, out_chan) fan \<Rightarrow> string list list" where
  "tokens_to_come U docs f = drop (length (fn_got f TfChan)) (map (doc_tokens U) docs)"

abbreviation as_input :: "unicode \<Rightarrow> document list \<Rightarrow> (document, preproc_event, out_chan) fan \<times> tf_net \<Rightarrow> tf_net" where
  "as_input U docs x \<equiv> (snd x)\<lparr>tn_docIn := tokens_to_come U docs (fst x)\<rparr>"

text \<open>On \<open>TfOut\<close> only token lists travel, one per document.\<close>

lemma tf_sends: "sends_on (partition_code U) TfChan (concat (map (partition_doc U) docs)) = map (TfOut \<circ> doc_tokens U) docs"
proof (induction docs)
  case (Cons d docs)
  have "sends_on (partition_code U) TfChan (partition_doc U d) = [TfOut (doc_tokens U d)]"
    using partition_doc_outs(1) [of U d "[]"]
    by (auto simp: partition_doc_def doc_tokens_def copy_file_def Let_def split: option.split)
  with Cons show ?case by simp
qed simp

lemma tf_received:
  assumes "fan_steps (partition_code U) live (fan_init stop docs) f"
  shows "\<exists>k \<le> length docs. fn_got f TfChan @ fn_buf f TfChan @ sends_on (partition_code U) TfChan (ctl_rest (fn_ctl f)) =
    map (TfOut \<circ> doc_tokens U) (take k docs) \<and> fn_input f = drop k docs"
proof -
  obtain k where "fan_flow (partition_code U) docs k f" using partition.reach_inv [OF assms] .
  then show ?thesis by (auto simp: fan_flow_def carried_def tf_sends intro!: exI [of _ k])
qed

lemma tf_head:
  assumes "fan_steps (partition_code U) live (fan_init stop docs) f" and "fn_buf f TfChan = e # es"
  shows "e = TfOut (doc_tokens U (docs ! length (fn_got f TfChan)))" and "length (fn_got f TfChan) < length docs"
proof -
  obtain k where k: "k \<le> length docs" "fn_got f TfChan @ (e # es) @ sends_on (partition_code U) TfChan (ctl_rest (fn_ctl f)) =
      map (TfOut \<circ> doc_tokens U) (take k docs)"
    using tf_received [OF assms(1)] assms(2) by metis
  let ?n = "length (fn_got f TfChan)"
  have len: "?n < k" using arg_cong [OF k(2), of length] k(1) by simp
  have "e = map (TfOut \<circ> doc_tokens U) (take k docs) ! ?n" using k(2) by (metis append_Cons nth_append_length)
  then show "e = TfOut (doc_tokens U (docs ! ?n))" using len k(1) by simp
  show "?n < length docs" using len k(1) by simp
qed

lemma tf_all_received:
  assumes "fan_steps (partition_code U) live (fan_init False docs) f" and "fn_closed f TfChan" and "fn_buf f TfChan = []"
  shows "tokens_to_come U docs f = []"
proof -
  obtain k where k: "k \<le> length docs" "fn_got f TfChan @ fn_buf f TfChan @ sends_on (partition_code U) TfChan (ctl_rest (fn_ctl f)) =
      map (TfOut \<circ> doc_tokens U) (take k docs)" "fn_input f = drop k docs"
    using tf_received [OF assms(1)] by blast
  obtain k' where "fan_shape (partition_code U) f" using partition.reach_inv [OF assms(1)] .
  moreover have "\<not> fn_quit f" using fan_no_quit [OF assms(1)] by (simp add: fan_init_def)
  ultimately obtain cs where "fn_ctl f = Leaving cs" "fn_input f = []"
    using assms(2) by (auto simp: fan_shape_def split: fan_ctl.splits)
  then have "fn_got f TfChan = map (TfOut \<circ> doc_tokens U) docs" using k assms(3) by simp
  then show ?thesis by (simp add: tokens_to_come_def)
qed

text \<open>Every run of the connected network is a run of each of its parts.\<close>

definition count_inv :: "unicode \<Rightarrow> nat \<Rightarrow> document list \<Rightarrow> (document, preproc_event, out_chan) fan \<times> tf_net \<Rightarrow> bool" where
  "count_inv U n docs x \<longleftrightarrow>
     fan_steps (partition_code U) (\<lambda>_ _. True) (fan_init False docs) (fst x) \<and>
     tf_steps (tf_start n (map (doc_tokens U) docs)) (as_input U docs x) \<and>
     tn_docIn (snd x) = [] \<and> (MapLeft \<in> set (tn_mappers (snd x)) \<longrightarrow> fn_closed (fst x) TfChan \<and> fn_buf (fst x) TfChan = [])"

lemma fan_step_live:
  "fan_step N live f f' \<Longrightarrow> fan_step N (\<lambda>_ _. True) f f'"
  by (induction rule: fan_step.induct) (auto intro: fan_step.intros)

text \<open>A step that takes nothing off an empty buffered channel needs no consumer there.\<close>

lemma fan_step_without:
  "fan_step N (\<lambda>_ _. True) f f' \<Longrightarrow> fn_buf f c0 = [] \<Longrightarrow> fc_cap N c0 \<noteq> 0 \<Longrightarrow> fan_step N (\<lambda>c _. c \<noteq> c0) f f'"
proof (induction rule: fan_step.induct)
  case (hand_over s e es c)
  then have "c \<noteq> c0" by auto
  with hand_over show ?case by (simp add: fan_step.hand_over)
next
  case (receive s c e es)
  then have "c \<noteq> c0" by auto
  with receive show ?case by (simp add: fan_step.receive)
qed (auto intro: fan_step.intros)

lemma fan_step_tf:
  assumes "fan_step (partition_code U) (\<lambda>c _. c \<noteq> TfChan) f f'" and "fan_shape (partition_code U) f"
  shows "fn_got f' TfChan = fn_got f TfChan"
    and "fn_closed f TfChan \<Longrightarrow> fn_closed f' TfChan \<and> fn_buf f' TfChan = fn_buf f TfChan"
  using assms by (cases rule: fan_step.cases; force simp: fan_shape_def close_chan_def split: if_splits)+

lemma mappers_left_0: "mappers_left t = 0 \<longleftrightarrow> MapLeft \<notin> set (tn_mappers t)"
  by (auto simp: mappers_left_def sum_list_eq_0_iff)

lemma no_input_step: "tf_step s u \<Longrightarrow> tn_docIn s = [] \<Longrightarrow> tn_docIn u = []"
  by (induction rule: tf_step.induct) simp_all

lemma count_inv_step:
  assumes "count_step U x y" and inv: "count_inv U n docs x"
  shows "count_inv U n docs y"
  using assms(1)
proof (cases rule: count_step.cases)
  case (preprocess f f' t)
  have r: "fan_steps (partition_code U) (\<lambda>_ _. True) (fan_init False docs) f"
    using inv preprocess by (simp add: count_inv_def)
  obtain k where sh: "fan_shape (partition_code U) f" using partition.reach_inv [OF r] .
  have "fan_steps (partition_code U) (\<lambda>_ _. True) (fan_init False docs) f'"
    using r fan_step_live [OF preprocess(3)] by (rule rtranclp.rtrancl_into_rtrancl)
  moreover have "tokens_to_come U docs f' = tokens_to_come U docs f"
    using fan_step_tf(1) [OF preprocess(3) sh] by (simp add: tokens_to_come_def)
  ultimately show ?thesis using inv preprocess fan_step_tf(2) [OF preprocess(3) sh] by (auto simp: count_inv_def)
next
  case (calculate t t' f)
  then have empty: "tn_docIn t = []" using inv by (simp add: count_inv_def)
  then have "tn_docIn t' = []" using no_input_step calculate(3) by blast
  then have "tf_step (as_input U docs (f, t)) (as_input U docs (f, t'))"
    using tf_step_input [OF calculate(3)] calculate(4) empty by auto
  moreover have "MapLeft \<in> set (tn_mappers t') \<longleftrightarrow> MapLeft \<in> set (tn_mappers t)"
    using calculate(4) mappers_left_0 by metis
  ultimately show ?thesis using inv calculate \<open>tn_docIn t' = []\<close>
    by (auto simp: count_inv_def intro: rtranclp.rtrancl_into_rtrancl)
next
  case (take_tokens t f ws es i)
  let ?f' = "f\<lparr>fn_buf := (fn_buf f)(TfChan := es), fn_got := (fn_got f)(TfChan := fn_got f TfChan @ [TfOut ws])\<rparr>"
  let ?t' = "t\<lparr>tn_mappers := (tn_mappers t)[i := MapHolds ws]\<rparr>"
  have r: "fan_steps (partition_code U) (\<lambda>_ _. True) (fan_init False docs) f"
    using inv take_tokens by (simp add: count_inv_def)
  have "fan_step (partition_code U) (\<lambda>_ _. True) f ?f'"
    using fan_step.receive [of f TfChan "TfOut ws" es "\<lambda>_ _. True" "partition_code U"] take_tokens(4) by simp
  with r have r': "fan_steps (partition_code U) (\<lambda>_ _. True) (fan_init False docs) ?f'" by (rule rtranclp.rtrancl_into_rtrancl)
  have "tokens_to_come U docs f = ws # tokens_to_come U docs ?f'"
    using tf_head [OF r take_tokens(4)] by (simp add: tokens_to_come_def Cons_nth_drop_Suc [symmetric])
  then have "tf_step (as_input U docs (f, t)) (as_input U docs (?f', ?t'))"
    using tf_step.map_doc [of "as_input U docs (f, t)" ws "tokens_to_come U docs ?f'" i] take_tokens
    by (cases t) simp
  moreover have "MapLeft \<notin> set (tn_mappers t)" using inv take_tokens by (auto simp: count_inv_def)
  then have "MapLeft \<notin> set (tn_mappers ?t')" by (auto dest!: in_upd)
  ultimately show ?thesis using inv take_tokens r'
    by (auto simp: count_inv_def intro: rtranclp.rtrancl_into_rtrancl)
next
  case (input_closed t f i c)
  let ?t' = "t\<lparr>tn_mappers := (tn_mappers t)[i := MapLeft], tn_closed := c\<rparr>"
  have r: "fan_steps (partition_code U) (\<lambda>_ _. True) (fan_init False docs) f"
    using inv input_closed by (simp add: count_inv_def)
  have "tokens_to_come U docs f = []" by (rule tf_all_received [OF r input_closed(4,5)])
  then have "tf_step (as_input U docs (f, t)) (as_input U docs (f, ?t'))"
    using tf_step.map_leave [of "as_input U docs (f, t)" i c] input_closed by (cases t) simp
  then show ?thesis using inv input_closed
    by (auto simp: count_inv_def intro: rtranclp.rtrancl_into_rtrancl)
qed

lemma count_inv_reach: "count_steps U (count_start n docs) x \<Longrightarrow> count_inv U n docs x"
proof (induction rule: rtranclp_induct)
  case base
  have "as_input U docs (count_start n docs) = tf_start n (map (doc_tokens U) docs)"
    by (simp add: count_start_def tokens_to_come_def fan_init_def tf_start_def)
  then show ?case by (auto simp: count_inv_def count_start_def tf_start_def)
next
  case (step x y)
  then show ?case using count_inv_step by blast
qed

section \<open>Complete runs\<close>

text \<open>When nothing moves, the preprocessor is not waiting for the calculator, nor the calculator for it.\<close>

lemma count_stuck:
  assumes inv: "count_inv U n docs (f, t)" and "0 < n" and stuck: "\<nexists>y. count_step U (f, t) y" and p: "tn_panic t = None"
  shows "\<nexists>f'. fan_step (partition_code U) (\<lambda>_ _. True) f f'"
    and "\<nexists>u. tf_step (as_input U docs (f, t)) u"
proof -
  note no = stuck [unfolded not_ex, rule_format]
  have r: "fan_steps (partition_code U) (\<lambda>_ _. True) (fan_init False docs) f" using inv by (simp add: count_inv_def)
  have drained: "\<nexists>f'. fan_step (partition_code U) (\<lambda>_ _. True) f f'" if "fn_buf f TfChan = []"
  proof
    assume "\<exists>f'. fan_step (partition_code U) (\<lambda>_ _. True) f f'"
    then obtain f' where "fan_step (partition_code U) (\<lambda>_ _. True) f f'" by blast
    from fan_step_without [OF this that] have "fan_step (partition_code U) (\<lambda>c _. c \<noteq> TfChan) f f'" by simp
    from count_step.preprocess [OF this] no show False by blast
  qed
  have busy: "tn_mappers t ! i \<noteq> MapIdle" if i: "i < length (tn_mappers t)" for i
  proof
    assume idle: "tn_mappers t ! i = MapIdle"
    show False
    proof (cases "fn_buf f TfChan")
      case Nil
      then have "fn_closed f TfChan" using partition.stuck_done [OF r drained] by simp
      from count_step.input_closed [OF p this Nil i idle close_out_Inr(2)] no show False by blast
    next
      case (Cons e es)
      with tf_head(1) [OF r Cons] have b: "fn_buf f TfChan = TfOut (doc_tokens U (docs ! length (fn_got f TfChan))) # es" by simp
      from count_step.take_tokens [OF p b i idle] no show False by blast
    qed
  qed
  show tf: "\<nexists>u. tf_step (as_input U docs (f, t)) u"
  proof
    assume "\<exists>u. tf_step (as_input U docs (f, t)) u"
    then obtain u where "tf_step (as_input U docs (f, t)) u" by blast
    from tf_step_input [OF this] busy
    have "\<forall>x. tf_step (t\<lparr>tn_docIn := x\<rparr>) (u\<lparr>tn_docIn := x\<rparr>)" "mappers_left u = mappers_left t"
      by (auto simp: mappers_left_def)
    then have "tf_step t (u\<lparr>tn_docIn := tn_docIn t\<rparr>)" "mappers_left (u\<lparr>tn_docIn := tn_docIn t\<rparr>) = mappers_left t"
      by (metis tf_net.surjective tf_net.update_convs(1)) (simp add: mappers_left_def \<open>mappers_left u = mappers_left t\<close> [unfolded mappers_left_def])
    from count_step.calculate [OF this] no show False by blast
  qed
  have "tf_inv n (map (doc_tokens U) docs) (as_input U docs (f, t))"
    using inv tf_inv_reach by (simp add: count_inv_def)
  from tf_stuck [OF this assms(2) tf] p have "MapLeft \<in> set (tn_mappers t)" by auto
  then have "fn_buf f TfChan = []" using inv by (simp add: count_inv_def)
  then show "\<nexists>f'. fan_step (partition_code U) (\<lambda>_ _. True) f f'" by (rule drained)
qed

lemma count_results:
  assumes reach: "count_steps U (count_start n docs) (f, t)" and "0 < n" and stuck: "\<nexists>y. count_step U (f, t) y" and p: "tn_panic t = None"
  shows "fn_closed f = (\<lambda>_. True)" and "consumed f = event_outs (partitionStreams U docs)"
    and "bloomFilterInitializer (tn_sizes t) =
      (let ws = concat (map (doc_tokens U) docs)
       in Some (map (\<lambda>k. (k, of_nat (card {w \<in> set ws. in_bucket k (count_list ws w)})))
         [Below100, Below1000, Below10000, Below100000]))"
proof -
  have inv: "count_inv U n docs (f, t)" by (rule count_inv_reach [OF reach])
  have r: "fan_steps (partition_code U) (\<lambda>_ _. True) (fan_init False docs) f" using inv by (simp add: count_inv_def)
  note fan = count_stuck(1) [OF inv assms(2) stuck p]
  show "consumed f = event_outs (partitionStreams U docs)"
    using partition.complete_run [OF r fan] by (intro consumed_sends) simp
  show "fn_closed f = (\<lambda>_. True)" using partition.stuck_done [OF r fan] by simp
  have "tf_inv n (map (doc_tokens U) docs) (as_input U docs (f, t))"
    using inv tf_inv_reach by (simp add: count_inv_def)
  from tf_complete [OF this assms(2) count_stuck(2) [OF inv assms(2) stuck p]] p
  show "bloomFilterInitializer (tn_sizes t) =
      (let ws = concat (map (doc_tokens U) docs)
       in Some (map (\<lambda>k. (k, of_nat (card {w \<in> set ws. in_bucket k (count_list ws w)})))
         [Below100, Below1000, Below10000, Below100000]))" by (simp add: Let_def)
qed

lemma count_panic:
  assumes "count_steps U (count_start n docs) (f, t)"
  shows "tn_panic t = None \<or> tn_panic t = Some SendOnClosedChannel" and "n = 1 \<Longrightarrow> tn_panic t = None"
proof -
  have "tf_steps (tf_start n (map (doc_tokens U) docs)) (as_input U docs (f, t))"
    using count_inv_reach [OF assms] by (simp add: count_inv_def)
  from tf_panic_reach [OF this] single_mapper_reach [of "map (doc_tokens U) docs" "as_input U docs (f, t)"] this
  show "tn_panic t = None \<or> tn_panic t = Some SendOnClosedChannel" "n = 1 \<Longrightarrow> tn_panic t = None" by auto
qed

section \<open>Properties\<close>

text \<open>C4: From the documents to the announced bucket sizes, under every schedule.  The preprocessor, the
  mappers, shufflers, reducers and the initializer, connected by channels with room for at most one
  value, cannot block each other: every run ends, and one that cannot go on has either panicked, a
  mapper sending on the channel another has closed, which a single mapper never does; or the three
  other consumers have received everything, all channels are closed, no count was lost, whenever
  each shuffler was launched and the reducers were told to quit, and the initializer announces for
  every bucket the number of distinct tokens of the documents in its range.\<close>

theorem counting_run:
  assumes "0 < numWorkers"
  shows "wf {(y, x). count_step U x y} \<and>
    (\<forall>f t. count_steps U (count_start numWorkers docs) (f, t) \<longrightarrow>
       (numWorkers = 1 \<longrightarrow> tn_panic t = None) \<and>
       ((\<nexists>y. count_step U (f, t) y) \<longrightarrow>
          tn_panic t = Some SendOnClosedChannel \<or>
          tn_panic t = None \<and> fn_closed f = (\<lambda>_. True) \<and> consumed f = event_outs (partitionStreams U docs) \<and>
          bloomFilterInitializer (tn_sizes t) =
            (let ws = concat (map (doc_tokens U) docs)
             in Some (map (\<lambda>k. (k, of_nat (card {w \<in> set ws. in_bucket k (count_list ws w)})))
               [Below100, Below1000, Below10000, Below100000]))))"
proof (intro conjI allI impI)
  show "wf {(y, x). count_step U x y}" by (rule count_wf)
  fix f t
  assume r: "count_steps U (count_start numWorkers docs) (f, t)"
  then show "tn_panic t = None" if "numWorkers = 1" using count_panic(2) that by blast
  assume stuck: "\<nexists>y. count_step U (f, t) y"
  show "tn_panic t = Some SendOnClosedChannel \<or>
      tn_panic t = None \<and> fn_closed f = (\<lambda>_. True) \<and> consumed f = event_outs (partitionStreams U docs) \<and>
      bloomFilterInitializer (tn_sizes t) =
        (let ws = concat (map (doc_tokens U) docs)
         in Some (map (\<lambda>k. (k, of_nat (card {w \<in> set ws. in_bucket k (count_list ws w)})))
           [Below100, Below1000, Below10000, Below100000]))"
  proof (cases "tn_panic t")
    case None
    show ?thesis by (intro disjI2 conjI None count_results [OF r assms stuck None])
  next
    case (Some p)
    then show ?thesis using count_panic(1) [OF r] by simp
  qed
qed

theorem counting_run_witness:
  "\<exists>f t. count_steps demo_unicode (count_start 1 [\<lparr>doc_file = Some ([97], 0), doc_id = 1\<rparr>]) (f, t) \<and>
     tn_panic t = None \<and> map inv_DocId (fst (snd (consumed f))) = [1] \<and>
     bloomFilterInitializer (tn_sizes t) = Some [(Below100, 1), (Below1000, 0), (Below10000, 0), (Below100000, 0)]"
proof -
  let ?docs = "[\<lparr>doc_file = Some ([97], 0), doc_id = 1\<rparr>] :: document list"
  obtain f t where s: "count_steps demo_unicode (count_start 1 ?docs) (f, t)" "\<nexists>y. count_step demo_unicode (f, t) y"
    using wf_steps_end [OF count_wf, of demo_unicode "count_start 1 ?docs"] by (metis surj_pair)
  have ws: "concat (map (doc_tokens demo_unicode) ?docs) = [''a'']"
    by (simp add: doc_tokens_def ParseTokens_def FieldsFunc_def ToLower_def text_of_def runes_def segments_utf8 DecodeRune_def
        rune_string_def EncodeRune_def encode_valid_def valid_rune_def demo_unicode_def Let_def char_of_def bit_0)
  have "{w \<in> set [''a'']. in_bucket k (count_list [''a''] w)} = (if k = Below100 then {''a''} else {})" for k
    by (cases k) auto
  then have sizes: "map (\<lambda>k. (k, of_nat (card {w \<in> set [''a'']. in_bucket k (count_list [''a''] w)}) :: u64))
      [Below100, Below1000, Below10000, Below100000] = [(Below100, 1), (Below1000, 0), (Below10000, 0), (Below100000, 0)]"
    by (simp only:) simp
  note run = counting_run [of 1 demo_unicode ?docs, OF zero_less_one, THEN conjunct2, rule_format, OF s(1), unfolded Let_def ws sizes]
  have p: "tn_panic t = None" using run by blast
  then have "consumed f = event_outs (partitionStreams demo_unicode ?docs)"
    "bloomFilterInitializer (tn_sizes t) = Some [(Below100, 1), (Below1000, 0), (Below10000, 0), (Below100000, 0)]"
    using conjunct2 [OF run, THEN mp, OF s(2)] p by (metis option.distinct(1))+
  with s(1) p show ?thesis
    by (intro exI [of _ f] exI [of _ t])
      (simp add: event_outs_def partitionStreams_outs inv_doc_def del: partitionStreams.simps)
qed

end
