(* ===== verification/Indexer.thy ===== *)
theory Indexer
  imports Corpus BloomMaster
begin

text \<open>
  The top of the indexing run, \<open>client_proxy/index.go\<close>: the keyword summer, the collection of
  document names, and the accounting of the main wait group over all goroutines the components
  launch.
\<close>

section \<open>The keyword summer\<close>

text \<open>\<open>totalKeyWordSummer\<close>: the message it queues and its \<open>Done\<close> on the main wait group.\<close>

definition totalKeyWordSummer :: "InvIndexDocument list \<Rightarrow> bloom_msg list \<Rightarrow> nat \<Rightarrow> (bloom_msg list \<times> nat) go" where
  "totalKeyWordSummer keyWordsIn msgChan mainWg =
     (let cnt = foldl (\<lambda>cnt doc. cnt + card (Words doc)) 0 keyWordsIn;
          (_, msgChan') = InitXSet 0 (of_nat cnt) msgChan
      in gbind (wg_done mainWg) (\<lambda>mainWg'. Inr (msgChan', mainWg')))"

text \<open>\<open>gatherDocumentNames\<close> only leaves the \<open>select\<close> when its channel is closed: it never returns.\<close>

partial_function (option) gatherDocumentNames ::
    "(nat \<Rightarrow> (u32 \<times> string) option) \<Rightarrow> nat \<Rightarrow> (u32 \<rightharpoonup> string) \<Rightarrow> (u32 \<rightharpoonup> string) option" where
  "gatherDocumentNames dChan n docNames =
     (case dChan n of
        None \<Rightarrow> gatherDocumentNames dChan (n + 1) docNames
      | Some (docId, name) \<Rightarrow> gatherDocumentNames dChan (n + 1) (docNames(docId \<mapsto> name)))"

section \<open>Wait groups\<close>

definition AddToWg :: "nat \<Rightarrow> nat \<Rightarrow> nat \<Rightarrow> nat \<times> nat" where
  "AddToWg local main val = (wg_add local val, wg_add main val)"

definition WgDone :: "nat \<Rightarrow> nat \<Rightarrow> (nat \<times> nat) go" where
  "WgDone local main = gbind (wg_done local) (\<lambda>l. gbind (wg_done main) (\<lambda>m. Inr (l, m)))"

text \<open>Everything \<open>Index\<close> launches on a first run, in order: the key manager, the summer (without an
  \<open>Add\<close>), the corpus reader, the preprocessor, the bloom master, the term frequency calculator, the
  document streamer and the index generator.\<close>

definition Index_starts :: "nat \<Rightarrow> (service \<Rightarrow> service go) list" where
  "Index_starts numWorkers =
     [KeyManager_Start, service_Start [(KeyWordSummer, 0, 0)], CorpusReader_Start, DocPreprocessor_Start,
      bloomMaster_Start True False numWorkers, TermFrequency_Start numWorkers,
      EncryptedDocStreamer_Start numWorkers, EncryptedIndexGenerator_Start numWorkers]"

text \<open>The goroutines launched, and the counter of the main wait group when every \<open>Start\<close> has
  returned.\<close>

definition Index_launched :: "nat \<Rightarrow> goroutine list" where
  "Index_launched numWorkers = concat (map (\<lambda>start. sv_launched (started start)) (Index_starts numWorkers))"

definition Index_mainWg :: "nat \<Rightarrow> nat" where
  "Index_mainWg numWorkers = foldl (\<lambda>m start. wg_add m (sv_mainAdds (started start))) 0 (Index_starts numWorkers)"

text \<open>How often a goroutine calls \<open>Done\<close> on the main group when it ends: a t-set worker once for
  itself and once for the janitor's group.\<close>

fun main_dones :: "goroutine \<Rightarrow> nat" where
  "main_dones TSetWorker = 2"
| "main_dones g = (if g \<in> {DirWalker, DocReader, StreamPartitioner, KeyRequestHandler, DocEncrypterG,
     DocUploaderG, ReadHandler, WriteHandler, BloomWorker, QueryHandler} then 0 else 1)"

fun dones :: "nat \<Rightarrow> nat \<Rightarrow> nat go" where
  "dones 0 m = Inr m"
| "dones (Suc k) m = gbind (wg_done m) (dones k)"

text \<open>Goroutines leaving one after the other.\<close>

fun leave_all :: "goroutine list \<Rightarrow> nat \<Rightarrow> nat go" where
  "leave_all [] m = Inr m"
| "leave_all (g # gs) m = gbind (dones (main_dones g) m) (leave_all gs)"

section \<open>Lemmas\<close>

lemma gatherDocumentNames_never:
  "gatherDocumentNames dChan n m = Some r \<Longrightarrow> False"
  by (rule gatherDocumentNames.raw_induct [where P = "\<lambda>_ _ _ _. False"]) (auto split: option.splits)

lemma dones_result: "dones k m = (if k \<le> m then Inr (m - k) else Inl NegativeWaitGroup)"
proof (induction k arbitrary: m)
  case 0
  show ?case by simp
next
  case (Suc k)
  then show ?case by (cases m) simp_all
qed

lemma leave_all_result:
  "leave_all gs m = (if sum_list (map main_dones gs) \<le> m then Inr (m - sum_list (map main_dones gs))
     else Inl NegativeWaitGroup)"
  by (induction gs arbitrary: m) (auto simp: dones_result)

lemma Index_sums:
  "Index_mainWg n = 59 + 4 * n"
  "sum_list (map main_dones (Index_launched n)) = 60 + 4 * n"
  by (simp_all add: Index_mainWg_def Index_launched_def Index_starts_def service_defs started_service_Start
      wg_add_def sum_list_replicate map_replicate_const)

lemma summer_count: "foldl (\<lambda>cnt doc. cnt + card (Words doc)) c docs = c + sum_list (map (\<lambda>d. card (Words d)) docs)"
  by (induction docs arbitrary: c) simp_all

text \<open>What the counter is while some goroutines are still to leave.\<close>

lemma leave_all_missing:
  assumes "mset gs + missing = mset (Index_launched numWorkers)"
  shows "leave_all gs (Index_mainWg numWorkers) =
    (let k = sum_mset (image_mset main_dones missing) in if k = 0 then Inl NegativeWaitGroup else Inr (k - 1))"
proof -
  have "sum_list (map main_dones gs) + sum_mset (image_mset main_dones missing) = 60 + 4 * numWorkers"
    using arg_cong [OF assms, of "\<lambda>M. sum_mset (image_mset main_dones M)"] Index_sums(2) [of numWorkers]
    by (simp flip: sum_mset_sum_list mset_map)
  moreover have "leave_all gs (Index_mainWg numWorkers) = (if k = 0 then Inl NegativeWaitGroup else Inr (k - 1))"
    if "sum_list (map main_dones gs) + k = 60 + 4 * numWorkers" for k
    using that by (auto simp: leave_all_result Index_sums)
  ultimately show ?thesis unfolding Let_def by blast
qed

section \<open>Properties\<close>



end
