(* ===== verification/FirstRun.thy ===== *)
theory FirstRun
  imports CountingRun Indexer
begin

text \<open>
  How a first indexing run ends (\<open>Index\<close> in \<open>client_proxy/index.go\<close>): the counting run of
  \<open>CountingRun\<close>, the population and the saving of the frequency filters of \<open>TermFreq\<close> and
  \<open>BloomMaster\<close>, and the main wait group of \<open>Indexer\<close> put together.
\<close>

section \<open>Properties\<close>



end
