(* ===== verification/TSetNetwork.thy ===== *)
theory TSetNetwork
  imports TSetIndex Corpus
begin

text \<open>
  The t-set half of the index generator (\<open>client_proxy/encrypted_index.go\<close>) with all its workers:
  they take documents off the splitter's channel, call the shared counter under its mutex between
  their own computations, and leave when the channel is closed; the janitor waits for all of them on
  \<open>janitorWG\<close> and then reads the counter.  \<open>TSetIndex\<close> has what each of them computes.
\<close>

section \<open>The network\<close>

text \<open>A worker at its \<open>select\<close>, in the loop over the words of a document, or gone.\<close>

datatype tset_goroutine = TIdle tset_worker | TWords u32 "string list" tset_worker | TLeft

record tset_net =
  tt_docs :: "InvIndexDocument list"
  tt_workers :: "tset_goroutine list"
  tt_counter :: wordIndexCounter
  tt_sent :: "tset_event list"
  tt_janitorWG :: nat
  tt_janitor :: "tset_event list option"
  tt_panic :: "panic option"

definition tset_start :: "prf_lib \<Rightarrow> keyMap \<Rightarrow> nat \<Rightarrow> InvIndexDocument list \<Rightarrow> tset_net" where
  "tset_start L K numWorkers docs =
     \<lparr>tt_docs = docs, tt_workers = replicate numWorkers (TIdle (fst (tSetWorker_init L K True))),
      tt_counter = newWordIndexCounter, tt_sent = [], tt_janitorWG = wg_add 0 numWorkers,
      tt_janitor = None, tt_panic = None\<rparr>"

text \<open>One call of the counter is atomic; the computation and the send of the word's fragment concern
  only the worker and its own stream.\<close>

inductive tset_step :: "prf_lib \<Rightarrow> keyMap \<Rightarrow> (TSetFragment \<Rightarrow> bool) \<Rightarrow> tset_net \<Rightarrow> tset_net \<Rightarrow> bool"
  for L K sendOk where
  take_doc: "tt_panic s = None \<Longrightarrow> tt_docs s = d # ds \<Longrightarrow> i < length (tt_workers s) \<Longrightarrow> tt_workers s ! i = TIdle w \<Longrightarrow>
    ranges_set (Words d) ws \<Longrightarrow>
    tset_step L K sendOk s (s\<lparr>tt_docs := ds, tt_workers := (tt_workers s)[i := TWords (inv_DocId d) ws w]\<rparr>)"
| next_word: "tt_panic s = None \<Longrightarrow> i < length (tt_workers s) \<Longrightarrow> tt_workers s ! i = TWords docId (word # ws) w \<Longrightarrow>
    tSetWorker_word L sendOk docId word (tt_counter s) w = Inr (ctr', w', evs) \<Longrightarrow>
    tset_step L K sendOk s (s\<lparr>tt_workers := (tt_workers s)[i := TWords docId ws w'], tt_counter := ctr', tt_sent := tt_sent s @ evs\<rparr>)"
| word_panic: "tt_panic s = None \<Longrightarrow> i < length (tt_workers s) \<Longrightarrow> tt_workers s ! i = TWords docId (word # ws) w \<Longrightarrow>
    tSetWorker_word L sendOk docId word (tt_counter s) w = Inl p \<Longrightarrow>
    tset_step L K sendOk s (s\<lparr>tt_panic := Some p\<rparr>)"
| doc_done: "tt_panic s = None \<Longrightarrow> i < length (tt_workers s) \<Longrightarrow> tt_workers s ! i = TWords docId [] w \<Longrightarrow>
    reset_prfs w = Inr w' \<Longrightarrow>
    tset_step L K sendOk s (s\<lparr>tt_workers := (tt_workers s)[i := TIdle w']\<rparr>)"
| reset_panic: "tt_panic s = None \<Longrightarrow> i < length (tt_workers s) \<Longrightarrow> tt_workers s ! i = TWords docId [] w \<Longrightarrow>
    reset_prfs w = Inl p \<Longrightarrow>
    tset_step L K sendOk s (s\<lparr>tt_panic := Some p\<rparr>)"
| leave: "tt_panic s = None \<Longrightarrow> tt_docs s = [] \<Longrightarrow> i < length (tt_workers s) \<Longrightarrow> tt_workers s ! i = TIdle w \<Longrightarrow>
    tSetWorker_run L sendOk ChannelClosed [] (tt_counter s) w = Inr (ctr', w', evs) \<Longrightarrow> wg_done (tt_janitorWG s) = Inr n \<Longrightarrow>
    tset_step L K sendOk s (s\<lparr>tt_workers := (tt_workers s)[i := TLeft], tt_sent := tt_sent s @ evs, tt_janitorWG := n\<rparr>)"
| leave_panic: "tt_panic s = None \<Longrightarrow> tt_docs s = [] \<Longrightarrow> i < length (tt_workers s) \<Longrightarrow> tt_workers s ! i = TIdle w \<Longrightarrow>
    tSetWorker_run L sendOk ChannelClosed [] (tt_counter s) w = Inl p \<or> wg_done (tt_janitorWG s) = Inl p \<Longrightarrow>
    tset_step L K sendOk s (s\<lparr>tt_panic := Some p\<rparr>)"
| janitor: "tt_panic s = None \<Longrightarrow> tt_janitorWG s = 0 \<Longrightarrow> tt_janitor s = None \<Longrightarrow> ranges (tt_counter s) kvs \<Longrightarrow>
    tSetJanitor L K True sendOk kvs = Inr (w, evs) \<Longrightarrow>
    tset_step L K sendOk s (s\<lparr>tt_janitor := Some evs\<rparr>)"
| janitor_panic: "tt_panic s = None \<Longrightarrow> tt_janitorWG s = 0 \<Longrightarrow> tt_janitor s = None \<Longrightarrow> ranges (tt_counter s) kvs \<Longrightarrow>
    tSetJanitor L K True sendOk kvs = Inl p \<Longrightarrow>
    tset_step L K sendOk s (s\<lparr>tt_panic := Some p\<rparr>)"

inductive_cases tset_stepE: "tset_step L K sendOk s t"

abbreviation tset_steps where
  "tset_steps L K sendOk \<equiv> (tset_step L K sendOk)\<^sup>*\<^sup>*"

section \<open>Every run ends\<close>

fun tset_weight :: "tset_goroutine \<Rightarrow> nat" where
  "tset_weight (TIdle w) = 1"
| "tset_weight (TWords d ws w) = 2 + length ws"
| "tset_weight TLeft = 0"

definition tset_measure :: "tset_net \<Rightarrow> nat" where
  "tset_measure s =
     (if tt_panic s = None then
        1 + sum_list (map (\<lambda>d. 2 + card (Words d)) (tt_docs s)) + sum_list (map tset_weight (tt_workers s)) +
        (if tt_janitor s = None then 1 else 0)
      else 0)"

lemma tset_decreases: "tset_step L K sendOk s t \<Longrightarrow> tset_measure t < tset_measure s"
proof (induction rule: tset_step.induct)
  case (take_doc s d ds i w ws)
  then show ?case
    using sum_list_upd [of i "tt_workers s" "TIdle w" tset_weight "TWords (inv_DocId d) ws w"] ranges_set_card [of "Words d" ws]
    by (simp add: tset_measure_def)
next
  case (next_word s i docId word ws w ctr' w' evs)
  then show ?case
    using sum_list_upd [of i "tt_workers s" "TWords docId (word # ws) w" tset_weight "TWords docId ws w'"]
    by (simp add: tset_measure_def)
next
  case (doc_done s i docId w w')
  then show ?case
    using sum_list_upd [of i "tt_workers s" "TWords docId [] w" tset_weight "TIdle w'"] by (simp add: tset_measure_def)
next
  case (leave s i w ctr' w' evs n)
  then show ?case
    using sum_list_upd [of i "tt_workers s" "TIdle w" tset_weight TLeft] by (simp add: tset_measure_def)
qed (auto simp: tset_measure_def)

lemma tset_wf: "wf {(t, s). tset_step L K sendOk s t}"
  by (rule wf_subset [OF wf_measure [of tset_measure]]) (auto simp: tset_decreases)

section \<open>The calls of the counter\<close>

text \<open>The postings still to be counted: of documents not yet taken, and of words not yet visited.\<close>

definition doc_postings :: "InvIndexDocument \<Rightarrow> (string \<times> u32) multiset" where
  "doc_postings d = image_mset (\<lambda>w. (w, inv_DocId d)) (mset_set (Words d))"

fun open_postings :: "tset_goroutine \<Rightarrow> (string \<times> u32) multiset" where
  "open_postings (TWords docId ws w) = mset (map (\<lambda>w. (w, docId)) ws)"
| "open_postings _ = {#}"

lemma ranges_set_postings:
  assumes "ranges_set (Words d) ws"
  shows "mset (map (\<lambda>w. (w, inv_DocId d)) ws) = doc_postings d"
  using assms mset_set_set [of ws] by (simp add: ranges_set_def doc_postings_def)

text \<open>A worker whose PRFs have been fed the words \<open>vs\<close> of a document, each with its counter value; and the
  cell it computes for the last of them.\<close>

definition fed_worker :: "keyMap \<Rightarrow> u32 \<Rightarrow> (string \<times> u32) list \<Rightarrow> tset_worker" where
  "fed_worker K docId vs =
     worker_at K (concat (map (\<lambda>v. str_bytes (fst v)) vs)) (concat (map (\<lambda>v. str_bytes (fst v) @ be32 (snd v)) vs))
       (concat (map (\<lambda>_. be32 docId) vs))"

definition fed_cell :: "prf_lib \<Rightarrow> keyMap \<Rightarrow> u32 \<Rightarrow> (string \<times> u32) list \<Rightarrow> TSetFragment go" where
  "fed_cell L K docId vs =
     tset_cell L K (concat (map (\<lambda>v. str_bytes (fst v)) vs)) (concat (map (\<lambda>v. str_bytes (fst v) @ be32 (snd v)) vs))
       (concat (map (\<lambda>_. be32 docId) vs)) (snd (last vs) + 1) docId False"

lemma fed_cell_oxt: "fed_cell L K docId [(word, c)] = oxt_cell L K word c docId False"
  by (simp add: fed_cell_def oxt_cell_def)

text \<open>A fragment is the posting's cell, computed from PRFs that were fed some other words of the same
  document before (\<open>before\<close>).\<close>

definition posting_cell :: "prf_lib \<Rightarrow> keyMap \<Rightarrow> InvIndexDocument list \<Rightarrow> (string \<times> u32) \<times> u32 \<Rightarrow> TSetFragment \<Rightarrow> bool" where
  "posting_cell L K docs p f \<longleftrightarrow> (case p of ((word, docId), c) \<Rightarrow>
     (\<exists>d \<in> set docs. \<exists>before. inv_DocId d = docId \<and> distinct (map fst before @ [word]) \<and>
        set (map fst before @ [word]) \<subseteq> Words d \<and> fed_cell L K docId (before @ [(word, c)]) = Inr f))"

lemma run_counter_snoc:
  "run_counter m (calls @ [(w, d)]) =
     (let (cs, m') = run_counter m calls; (c, m'') = readThenIncrement m' w d in (cs @ [c], m''))"
  by (induction calls arbitrary: m) (auto simp: Let_def split: prod.splits)

text \<open>The invariant: the counter and what was sent are those of some sequence of calls, and these with the
  postings still to come are all postings.\<close>

definition tset_calls :: "prf_lib \<Rightarrow> keyMap \<Rightarrow> InvIndexDocument list \<Rightarrow> (string \<times> u32) list \<Rightarrow> tset_net \<Rightarrow> bool" where
  "tset_calls L K docs calls s \<longleftrightarrow>
     tt_counter s = snd (run_counter newWordIndexCounter calls) \<and>
     list_all2 (posting_cell L K docs) (zip calls (fst (run_counter newWordIndexCounter calls))) (sent (tt_sent s)) \<and>
     mset calls + sum_list (map open_postings (tt_workers s)) + sum_list (map doc_postings (tt_docs s)) =
       sum_list (map doc_postings docs)"

fun worker_ok :: "keyMap \<Rightarrow> InvIndexDocument list \<Rightarrow> tset_goroutine \<Rightarrow> bool" where
  "worker_ok K docs (TIdle w) \<longleftrightarrow> w = fresh_worker K"
| "worker_ok K docs (TWords docId ws w) \<longleftrightarrow>
     (\<exists>d \<in> set docs. \<exists>before. inv_DocId d = docId \<and> distinct (map fst before @ ws) \<and>
        set (map fst before @ ws) \<subseteq> Words d \<and> w = fed_worker K docId before)"
| "worker_ok K docs TLeft \<longleftrightarrow> True"

definition staying :: "tset_goroutine \<Rightarrow> nat" where
  "staying x = (case x of TLeft \<Rightarrow> 0 | _ \<Rightarrow> 1)"

lemma staying_simps [simp]: "staying (TIdle w) = 1" "staying (TWords d ws w) = 1" "staying TLeft = 0"
  by (simp_all add: staying_def)

definition tset_shape :: "keyMap \<Rightarrow> InvIndexDocument list \<Rightarrow> nat \<Rightarrow> tset_net \<Rightarrow> bool" where
  "tset_shape K docs n s \<longleftrightarrow> tt_panic s = None \<and> length (tt_workers s) = n \<and>
     (\<forall>x \<in> set (tt_workers s). worker_ok K docs x) \<and> set (tt_docs s) \<subseteq> set docs \<and>
     tt_janitorWG s = sum_list (map staying (tt_workers s)) \<and>
     (0 < n \<and> tt_janitorWG s = 0 \<longrightarrow> tt_docs s = [])"

lemma tSetWorker_word_at:
  assumes "cmac_doc L" and "blinds_ok L K"
  shows "\<exists>f. tSetWorker_word L sendOk docId word ctr (fed_worker K docId vs) =
      (let (c, ctr') = readThenIncrement ctr word docId
       in Inr (ctr', fed_worker K docId (vs @ [(word, c)]), emitted sendOk [f])) \<and>
    fed_cell L K docId (vs @ [(word, fst (readThenIncrement ctr word docId))]) = Inr f"
proof -
  obtain c ctr' where r: "readThenIncrement ctr word docId = (c, ctr')" by fastforce
  obtain f where f: "fed_cell L K docId (vs @ [(word, c)]) = Inr f"
    unfolding fed_cell_def using tset_cell_ok [OF assms] by blast
  then show ?thesis
    by (intro exI [of _ f]) (simp add: tSetWorker_word_def tset_tuple_at r fed_worker_def fed_cell_def Let_def)
qed

lemma reset_fed [simp]: "reset_prfs (fed_worker K docId vs) = Inr (fresh_worker K)"
  by (simp add: fed_worker_def)

lemma tSetJanitor_at:
  "cmac_doc L \<Longrightarrow> keys_wf K \<Longrightarrow> blinds_ok L K \<Longrightarrow> tSetJanitor L K True sendOk kvs =
     Inr (fresh_worker K, emitted sendOk (map (\<lambda>(w, p). projr (oxt_cell L K w (count p) (lastId p) True)) kvs) @ [CloseAndRecv])"
  by (simp add: tSetJanitor_def tSetWorker_init_at tSetJanitor_run_at)

lemma worker_of:
  assumes "tset_shape K docs n s" and "i < length (tt_workers s)" and "tt_workers s ! i = x"
  shows "worker_ok K docs x"
  using assms nth_mem [of i "tt_workers s"] by (auto simp: tset_shape_def simp del: worker_ok.simps)

lemma shape_upd:
  assumes "tset_shape K docs n s" and "i < length (tt_workers s)" and "staying y = staying (tt_workers s ! i)" and "worker_ok K docs y"
  shows "sum_list (map staying ((tt_workers s)[i := y])) = sum_list (map staying (tt_workers s)) \<and>
    (\<forall>x \<in> set ((tt_workers s)[i := y]). worker_ok K docs x)"
  using assms sum_list_upd [of i "tt_workers s" "tt_workers s ! i" staying y]
  by (auto simp: tset_shape_def simp del: worker_ok.simps dest!: in_upd)

text \<open>A worker's next word: one more call of the counter, and its cell.\<close>

lemma tset_next_word:
  assumes "cmac_doc L" and "blinds_ok L K" and shape: "tset_shape K docs n s" and calls: "tset_calls L K docs calls s"
    and i: "i < length (tt_workers s)" "tt_workers s ! i = TWords docId (word # ws) w"
    and step: "tSetWorker_word L sendOk docId word (tt_counter s) w = Inr (ctr', w', evs)"
  defines "t \<equiv> s\<lparr>tt_workers := (tt_workers s)[i := TWords docId ws w'], tt_counter := ctr', tt_sent := tt_sent s @ evs\<rparr>"
  shows "tset_shape K docs n t \<and> tset_calls L K docs (calls @ [(word, docId)]) t"
proof -
  obtain d before where d: "d \<in> set docs" "inv_DocId d = docId" "distinct (map fst before @ word # ws)"
    "set (map fst before @ word # ws) \<subseteq> Words d" "w = fed_worker K docId before"
    using worker_of [OF shape i] by auto
  obtain c ctr'' where r0: "readThenIncrement (tt_counter s) word docId = (c, ctr'')" by fastforce
  obtain f where f: "fed_cell L K docId (before @ [(word, c)]) = Inr f"
    and "tSetWorker_word L sendOk docId word (tt_counter s) w =
      Inr (ctr'', fed_worker K docId (before @ [(word, c)]), emitted sendOk [f])"
    using tSetWorker_word_at [OF assms(1,2), of sendOk docId word "tt_counter s" before] by (auto simp: d(5) r0)
  with step have w': "w' = fed_worker K docId (before @ [(word, c)])" and evs: "evs = emitted sendOk [f]"
    and r: "readThenIncrement (tt_counter s) word docId = (c, ctr')" by (simp_all add: r0)
  have "worker_ok K docs (TWords docId ws w')"
    using d unfolding worker_ok.simps w' by (intro bexI [of _ d] exI [of _ "before @ [(word, c)]"]) simp_all
  from shape_upd [OF shape i(1) _ this] have "tset_shape K docs n t"
    using i shape by (simp add: t_def tset_shape_def del: worker_ok.simps)
  moreover have "tset_calls L K docs (calls @ [(word, docId)]) t"
  proof -
    obtain cs where rc: "run_counter newWordIndexCounter calls = (cs, tt_counter s)"
      using calls by (cases "run_counter newWordIndexCounter calls") (simp add: tset_calls_def)
    have len: "length cs = length calls"
      using arg_cong [OF rc, of "\<lambda>r. length (fst r)"] by (simp add: run_counter_run wc.length_run)
    have "posting_cell L K docs ((word, docId), c) f"
      using d f unfolding posting_cell_def prod.case by (intro bexI [of _ d] exI [of _ before]) simp_all
    moreover have "list_all2 (posting_cell L K docs) (zip calls cs) (sent (tt_sent s))"
      using calls rc by (simp add: tset_calls_def)
    ultimately have "list_all2 (posting_cell L K docs) (zip (calls @ [(word, docId)]) (cs @ [c])) (sent (tt_sent s @ evs))"
      using len by (simp add: evs list_all2_appendI)
    moreover have "sum_list (map open_postings (tt_workers s)) =
        add_mset (word, docId) (sum_list (map open_postings ((tt_workers s)[i := TWords docId ws w'])))"
      using i sum_list_upd [of i "tt_workers s" "TWords docId (word # ws) w" open_postings "TWords docId ws w'"] by simp
    ultimately show ?thesis
      using calls by (simp add: t_def tset_calls_def run_counter_snoc rc r Let_def)
  qed
  ultimately show ?thesis by blast
qed

lemma tset_step_inv:
  assumes "cmac_doc L" and "keys_wf K" and "blinds_ok L K" and "tset_step L K sendOk s t"
    and "tset_shape K docs n s" and "tset_calls L K docs calls s"
  shows "tset_shape K docs n t \<and> (\<exists>calls'. tset_calls L K docs calls' t)"
  using assms(4-6)
proof (induction rule: tset_step.induct)
  case (take_doc s d ds i w ws)
  note shape = take_doc.prems(1)
  have "w = fresh_worker K" using worker_of [OF shape take_doc(3,4)] by simp
  then have "w = fed_worker K (inv_DocId d) []" by (simp add: fed_worker_def)
  moreover have "d \<in> set docs" using shape take_doc(2) by (auto simp: tset_shape_def)
  ultimately have ok: "worker_ok K docs (TWords (inv_DocId d) ws w)"
    using take_doc(5) unfolding worker_ok.simps ranges_set_def by (intro bexI [of _ d] exI [of _ "[]"]) simp_all
  have "tset_shape K docs n (s\<lparr>tt_docs := ds, tt_workers := (tt_workers s)[i := TWords (inv_DocId d) ws w]\<rparr>)"
    using shape_upd [OF shape take_doc(3) _ ok] take_doc(2,4) shape by (auto simp: tset_shape_def simp del: worker_ok.simps sum_list_eq_0_iff)
  moreover have "tset_calls L K docs calls (s\<lparr>tt_docs := ds, tt_workers := (tt_workers s)[i := TWords (inv_DocId d) ws w]\<rparr>)"
    using take_doc sum_list_upd [of i "tt_workers s" "TIdle w" open_postings "TWords (inv_DocId d) ws w"] ranges_set_postings
    by (simp add: tset_calls_def ac_simps)
  ultimately show ?case by blast
next
  case (next_word s i docId word ws w ctr' w' evs)
  then show ?case using tset_next_word [OF assms(1,3)] by blast
next
  case (word_panic s i docId word ws w p)
  obtain vs where w: "w = fed_worker K docId vs" using worker_of [OF word_panic.prems(1) word_panic(2,3)] by auto
  show ?case using word_panic(4) tSetWorker_word_at [OF assms(1,3), of sendOk docId word "tt_counter s" vs]
    by (auto simp: w Let_def split: prod.splits)
next
  case (doc_done s i docId w w')
  note shape = doc_done.prems(1)
  obtain vs where w: "w = fed_worker K docId vs" using worker_of [OF shape doc_done(2,3)] by auto
  then have ok: "worker_ok K docs (TIdle w')" using doc_done(4) by simp
  let ?t = "s\<lparr>tt_workers := (tt_workers s)[i := TIdle w']\<rparr>"
  have "tset_shape K docs n ?t"
    using shape_upd [OF shape doc_done(2) _ ok] doc_done(3) shape by (simp add: tset_shape_def del: worker_ok.simps sum_list_eq_0_iff)
  moreover have "tset_calls L K docs calls ?t"
    using doc_done sum_list_upd [of i "tt_workers s" "TWords docId [] w" open_postings "TIdle w'"] by (simp add: tset_calls_def)
  ultimately show ?case by blast
next
  case (reset_panic s i docId w p)
  obtain vs where w: "w = fed_worker K docId vs" using worker_of [OF reset_panic.prems(1) reset_panic(2,3)] by auto
  show ?case using reset_panic(4) by (simp add: w)
next
  case (leave s i w ctr' w' evs n')
  have w: "w = fresh_worker K" using leave nth_mem [of i "tt_workers s"] by (force simp: tset_shape_def)
  then have evs: "sent evs = []" using leave(5) by (auto simp: worker_at_def)
  have "n' = tt_janitorWG s - 1" using leave(6) by (cases "tt_janitorWG s") auto
  let ?t = "s\<lparr>tt_workers := (tt_workers s)[i := TLeft], tt_sent := tt_sent s @ evs, tt_janitorWG := n'\<rparr>"
  have "tset_shape K docs n ?t"
    using leave \<open>n' = _\<close> sum_list_upd [of i "tt_workers s" "TIdle w" staying TLeft]
    by (auto simp: tset_shape_def simp del: sum_list_eq_0_iff dest!: in_upd)
  moreover have "tset_calls L K docs calls ?t"
    using leave evs sum_list_upd [of i "tt_workers s" "TIdle w" open_postings TLeft] by (simp add: tset_calls_def)
  ultimately show ?case by blast
next
  case (leave_panic s i w p)
  have w: "w = fresh_worker K" using leave_panic nth_mem [of i "tt_workers s"] by (force simp: tset_shape_def)
  have "0 < tt_janitorWG s"
    using leave_panic sum_list_upd [of i "tt_workers s" "TIdle w" staying TLeft] by (simp add: tset_shape_def)
  then show ?case using leave_panic(5) by (cases "tt_janitorWG s") (auto simp: w worker_at_def)
next
  case (janitor s kvs w evs)
  then show ?case by (auto simp: tset_shape_def tset_calls_def)
next
  case (janitor_panic s kvs p)
  then show ?case by (simp add: tSetJanitor_at assms)
qed

section \<open>Complete runs\<close>

text \<open>After the last worker has left only the janitor moves.\<close>

lemma tset_late:
  assumes "tset_step L K sendOk s t" and "tset_shape K docs n s" and "tt_janitorWG s = 0"
  shows "tt_janitorWG t = 0 \<and> tt_counter t = tt_counter s \<and> tt_janitor s = None"
proof -
  have "x = TLeft" if x: "x \<in> set (tt_workers s)" for x
  proof -
    have "staying x = 0" using x assms(2,3) by (simp add: tset_shape_def)
    then show ?thesis by (cases x) simp_all
  qed
  then have "i < length (tt_workers s) \<Longrightarrow> tt_workers s ! i = TLeft" for i by simp
  with assms show ?thesis by (cases rule: tset_step.cases) (auto simp: tset_shape_def)
qed

definition janitor_done :: "prf_lib \<Rightarrow> keyMap \<Rightarrow> (TSetFragment \<Rightarrow> bool) \<Rightarrow> tset_net \<Rightarrow> bool" where
  "janitor_done L K sendOk s \<longleftrightarrow> (\<forall>evs. tt_janitor s = Some evs \<longrightarrow> tt_janitorWG s = 0 \<and>
     (\<exists>kvs. ranges (tt_counter s) kvs \<and>
        evs = emitted sendOk (map (\<lambda>(w, p). projr (oxt_cell L K w (count p) (lastId p) True)) kvs) @ [CloseAndRecv]))"

lemma janitor_done_step:
  assumes "cmac_doc L" and "keys_wf K" and "blinds_ok L K" and "tset_step L K sendOk s t"
    and "tset_shape K docs n s" and "janitor_done L K sendOk s"
  shows "janitor_done L K sendOk t"
proof (cases "tt_janitor s")
  case None
  from assms(4) show ?thesis
  proof (cases rule: tset_step.cases)
    case (janitor kvs w evs)
    then show ?thesis using tSetJanitor_at [OF assms(1-3), of sendOk kvs] by (auto simp: janitor_done_def)
  qed (auto simp: janitor_done_def None)
next
  case (Some evs)
  then have "tt_janitorWG s = 0" using assms(6) by (simp add: janitor_done_def)
  with tset_late [OF assms(4,5)] Some show ?thesis by simp
qed

lemma tset_reach:
  assumes "cmac_doc L" and "keys_wf K" and "blinds_ok L K" and "tset_steps L K sendOk (tset_start L K n docs) s"
  obtains calls where "tset_shape K docs n s" and "tset_calls L K docs calls s" and "janitor_done L K sendOk s"
proof -
  have "tset_shape K docs n s \<and> (\<exists>calls. tset_calls L K docs calls s) \<and> janitor_done L K sendOk s"
    using assms(4)
  proof (induction rule: rtranclp_induct)
    case base
    have "sum_list (map staying (replicate n (TIdle (fresh_worker K)))) = n" by (induction n) simp_all
    moreover have "sum_list (map open_postings (replicate n (TIdle (fresh_worker K)))) = {#}" by (induction n) simp_all
    ultimately have "tset_shape K docs n (tset_start L K n docs)" "tset_calls L K docs [] (tset_start L K n docs)"
      "janitor_done L K sendOk (tset_start L K n docs)"
      by (auto simp: tset_start_def tSetWorker_init_at assms tset_shape_def tset_calls_def janitor_done_def wg_add_def
          simp del: map_replicate)
    then show ?case by blast
  next
    case (step s t)
    then show ?case using tset_step_inv [OF assms(1-3) step(2)] janitor_done_step [OF assms(1-3) step(2)] by blast
  qed
  then show thesis using that by blast
qed

lemma counter_dom: "dom (snd (run_counter newWordIndexCounter calls)) \<subseteq> fst ` set calls"
proof
  fix w
  assume "w \<in> dom (snd (run_counter newWordIndexCounter calls))"
  then have "filter (\<lambda>c. fst c = w) (rev calls) \<noteq> []" by (auto simp: counter_final_state)
  then show "w \<in> fst ` set calls" by (auto simp: filter_empty_conv)
qed

lemma tset_stuck:
  assumes "cmac_doc L" and "keys_wf K" and "blinds_ok L K" and shape: "tset_shape K docs n s" and calls: "tset_calls L K docs calls s"
    and "0 < n" and fin: "\<forall>d \<in> set (tt_docs s). finite (Words d)" and stuck: "\<nexists>t. tset_step L K sendOk s t"
  shows "tt_docs s = [] \<and> set (tt_workers s) = {TLeft} \<and> tt_janitor s \<noteq> None"
proof -
  note no = stuck [unfolded not_ex, rule_format]
  have p: "tt_panic s = None" and len: "length (tt_workers s) = n" using shape by (simp_all add: tset_shape_def)
  have left: "x = TLeft" if x: "x \<in> set (tt_workers s)" for x
  proof -
    obtain i where i: "i < length (tt_workers s)" "tt_workers s ! i = x" using x by (metis in_set_conv_nth)
    have ok: "worker_ok K docs x" using shape x by (simp add: tset_shape_def)
    show ?thesis
    proof (cases x)
      case (TIdle w)
      with ok have w: "w = fresh_worker K" by simp
      show ?thesis
      proof (cases "tt_docs s")
        case Nil
        have "0 < sum_list (map staying (tt_workers s))"
          using sum_list_upd [OF i(1), of x staying TLeft] i(2) TIdle by simp
        then obtain m where "wg_done (tt_janitorWG s) = Inr m" using shape by (auto simp: tset_shape_def gr0_conv_Suc)
        moreover have "tSetWorker_run L sendOk ChannelClosed [] (tt_counter s) w = Inr (tt_counter s, w, [CloseAndRecv])"
          by (simp add: w worker_at_def)
        ultimately show ?thesis using tset_step.leave [OF p Nil i(1)] i(2) TIdle no by blast
      next
        case (Cons d ds)
        then have "finite (Words d)" using fin by simp
        then obtain ws where "ranges_set (Words d) ws" using finite_distinct_list by (auto simp: ranges_set_def)
        with tset_step.take_doc [OF p Cons i(1)] i(2) TIdle no show ?thesis by blast
      qed
    next
      case (TWords docId ws w)
      with ok obtain vs where w: "w = fed_worker K docId vs" by auto
      show ?thesis
      proof (cases ws)
        case Nil
        have "reset_prfs w = Inr (fresh_worker K)" by (simp add: w)
        with tset_step.doc_done [OF p i(1)] i(2) TWords Nil no show ?thesis by blast
      next
        case (Cons word ws')
        obtain ctr' w' evs where "tSetWorker_word L sendOk docId word (tt_counter s) w = Inr (ctr', w', evs)"
          using tSetWorker_word_at [OF assms(1,3), of sendOk docId word "tt_counter s" vs]
          by (cases "readThenIncrement (tt_counter s) word docId") (auto simp: w Let_def)
        with tset_step.next_word [OF p i(1)] i(2) TWords Cons no show ?thesis by blast
      qed
    qed
  qed
  then have all: "set (tt_workers s) = {TLeft}" using len assms(6) by (cases "tt_workers s") auto
  then have wg: "tt_janitorWG s = 0" using shape by (simp add: tset_shape_def)
  then have docs: "tt_docs s = []" using shape assms(6) by (simp add: tset_shape_def)
  have "finite (dom (tt_counter s))"
    using calls finite_subset [OF counter_dom [of calls]] by (simp add: tset_calls_def)
  then obtain kvs where "ranges (tt_counter s) kvs" using finite_ranges by blast
  with tset_step.janitor [OF p wg] tSetJanitor_at [OF assms(1-3)] no have "tt_janitor s \<noteq> None" by blast
  with all docs show ?thesis by blast
qed

lemma filter_zip_fst: "length xs = length ys \<Longrightarrow> map fst (filter (\<lambda>p. P (fst p)) (zip xs ys)) = filter P xs"
  by (induction xs ys rule: list_induct2) simp_all

text \<open>The postings of one word.\<close>

lemma word_postings:
  assumes "\<forall>d \<in> set docs. finite (Words d)"
  shows "filter_mset (\<lambda>p. fst p = w) (sum_list (map doc_postings docs)) =
    mset (map (\<lambda>d. (w, inv_DocId d)) (filter (\<lambda>d. w \<in> Words d) docs))"
  using assms
proof (induction docs)
  case (Cons d docs)
  then have fin: "finite (Words d)" by simp
  have "{v \<in> Words d. v = w} = (if w \<in> Words d then {w} else {})" by auto
  then have "filter_mset (\<lambda>p. fst p = w) (doc_postings d) = (if w \<in> Words d then {#(w, inv_DocId d)#} else {#})"
    using fin by (simp add: doc_postings_def filter_mset_image_mset)
  with Cons show ?case by simp
qed simp

section \<open>Properties\<close>



end
