(* ===== verification/XSetNetwork.thy ===== *)
theory XSetNetwork
  imports XSetIndex Corpus Indexer
begin

text \<open>
  The x-set half of the index generator (\<open>client_proxy/encrypted_index.go\<close>) with everything it talks
  to: the workers, the goroutine each of them starts per document to hand over its tags, the goroutine
  that closes the tag channel, the bloom streamer, the keyword summer, the bloom worker behind the
  bounded message channel and the uploader of the finished filter.  \<open>XSetIndex\<close>, \<open>Indexer\<close> and
  \<open>BloomMaster\<close> have what each of them computes; here they run in any interleaving.
\<close>

section \<open>The network\<close>

text \<open>A worker at its \<open>select\<close>, with a document it computes the tags of, or gone.\<close>

datatype xset_goroutine = XIdle xset_worker | XBusy InvIndexDocument "string list" xset_worker | XLeft

text \<open>The streamer waits for the size, receives, has a list to queue, or is gone.\<close>

datatype streamer_state = StreamInit | StreamReady | StreamHolds "bytes list" | StreamLeft

text \<open>\<open>xn_waiting\<close>: the lists of the hand-over goroutines that have not sent yet; \<open>xn_handed\<close>: those that
  have sent and not decremented \<open>pendingXSends\<close>.  \<open>xn_summer\<close>: the documents the summer has not received
  and its count, \<open>None\<close> after the announcement.\<close>

record 'f xset_net =
  xn_docs :: "InvIndexDocument list"
  xn_workers :: "xset_goroutine list"
  xn_waiting :: "bytes list list"
  xn_handed :: nat
  xn_pendingXSends :: "32 word"
  xn_once :: bool
  xn_closed :: bool
  xn_streamer :: streamer_state
  xn_summer :: "(InvIndexDocument list \<times> nat) option"
  xn_msgChan :: "bloom_msg list"
  xn_bloom :: "'f bloomMaster"
  xn_uploaded :: "(bytes \<times> nat) option"
  xn_panic :: "panic option"

definition xset_start :: "prf_lib \<Rightarrow> keyMap \<Rightarrow> nat \<Rightarrow> InvIndexDocument list \<Rightarrow> 'f xset_net" where
  "xset_start P K numWorkers docs =
     \<lparr>xn_docs = docs, xn_workers = replicate numWorkers (XIdle (xSetWorker_init P K)), xn_waiting = [],
      xn_handed = 0, xn_pendingXSends = 0, xn_once = False, xn_closed = False, xn_streamer = StreamInit,
      xn_summer = Some (docs, 0), xn_msgChan = [], xn_bloom = newBloomMaster, xn_uploaded = None,
      xn_panic = None\<rparr>"

text \<open>\<open>finishedXtags\<close> is unbuffered: a hand-over needs the streamer at its \<open>select\<close>.  \<open>msgChan\<close> holds
  three messages per worker.  The bloom worker handles one message at a time.\<close>

inductive xset_step ::
    "'p curve \<Rightarrow> prf_lib \<Rightarrow> 'f bloom_lib \<Rightarrow> (bytes \<Rightarrow> bool) \<Rightarrow> nat \<Rightarrow> 'f xset_net \<Rightarrow> 'f xset_net \<Rightarrow> bool"
  for C P L uploadOk numWorkers where
  sum_doc: "xn_panic s = None \<Longrightarrow> xn_summer s = Some (d # ds, cnt) \<Longrightarrow>
    xset_step C P L uploadOk numWorkers s (s\<lparr>xn_summer := Some (ds, cnt + card (Words d))\<rparr>)"
| announce: "xn_panic s = None \<Longrightarrow> xn_summer s = Some ([], cnt) \<Longrightarrow> length (xn_msgChan s) < numWorkers * 3 \<Longrightarrow>
    xset_step C P L uploadOk numWorkers s
      (s\<lparr>xn_summer := None, xn_msgChan := snd (InitXSet 0 (of_nat cnt) (xn_msgChan s))\<rparr>)"
| take_doc: "xn_panic s = None \<Longrightarrow> xn_docs s = d # ds \<Longrightarrow> i < length (xn_workers s) \<Longrightarrow> xn_workers s ! i = XIdle w \<Longrightarrow>
    ranges_set (Words d) ws \<Longrightarrow>
    xset_step C P L uploadOk numWorkers s (s\<lparr>xn_docs := ds, xn_workers := (xn_workers s)[i := XBusy d ws w]\<rparr>)"
| publish: "xn_panic s = None \<Longrightarrow> i < length (xn_workers s) \<Longrightarrow> xn_workers s ! i = XBusy d ws w \<Longrightarrow>
    xSetWorker_doc C P (inv_DocId d) ws w = Inr (xTags, w') \<Longrightarrow>
    xset_step C P L uploadOk numWorkers s
      (s\<lparr>xn_workers := (xn_workers s)[i := XIdle w'], xn_waiting := xTags # xn_waiting s,
         xn_pendingXSends := xn_pendingXSends s + 1\<rparr>)"
| worker_panic: "xn_panic s = None \<Longrightarrow> i < length (xn_workers s) \<Longrightarrow> xn_workers s ! i = XBusy d ws w \<Longrightarrow>
    xSetWorker_doc C P (inv_DocId d) ws w = Inl p \<Longrightarrow>
    xset_step C P L uploadOk numWorkers s (s\<lparr>xn_panic := Some p\<rparr>)"
| leave: "xn_panic s = None \<Longrightarrow> xn_docs s = [] \<Longrightarrow> i < length (xn_workers s) \<Longrightarrow> xn_workers s ! i = XIdle w \<Longrightarrow>
    xset_step C P L uploadOk numWorkers s (s\<lparr>xn_workers := (xn_workers s)[i := XLeft], xn_once := True\<rparr>)"
| send: "xn_panic s = None \<Longrightarrow> xTags \<in> set (xn_waiting s) \<Longrightarrow> WaitForXSetInit (xn_bloom s) \<Longrightarrow> \<not> xn_closed s \<Longrightarrow>
    xn_streamer s = StreamReady \<Longrightarrow>
    xset_step C P L uploadOk numWorkers s
      (s\<lparr>xn_waiting := remove1 xTags (xn_waiting s), xn_handed := xn_handed s + 1, xn_streamer := StreamHolds xTags\<rparr>)"
| send_closed: "xn_panic s = None \<Longrightarrow> xTags \<in> set (xn_waiting s) \<Longrightarrow> WaitForXSetInit (xn_bloom s) \<Longrightarrow> xn_closed s \<Longrightarrow>
    xset_step C P L uploadOk numWorkers s (s\<lparr>xn_panic := Some SendOnClosedChannel\<rparr>)"
| decrement: "xn_panic s = None \<Longrightarrow> 0 < xn_handed s \<Longrightarrow>
    xset_step C P L uploadOk numWorkers s
      (s\<lparr>xn_handed := xn_handed s - 1, xn_pendingXSends := xn_pendingXSends s - 1\<rparr>)"
| close: "xn_panic s = None \<Longrightarrow> xn_once s \<Longrightarrow> \<not> xn_closed s \<Longrightarrow> xn_pendingXSends s = 0 \<Longrightarrow>
    xset_step C P L uploadOk numWorkers s (s\<lparr>xn_closed := True\<rparr>)"
| stream_start: "xn_panic s = None \<Longrightarrow> xn_streamer s = StreamInit \<Longrightarrow> WaitForXSetInit (xn_bloom s) \<Longrightarrow>
    xset_step C P L uploadOk numWorkers s (s\<lparr>xn_streamer := StreamReady\<rparr>)"
| stream_queue: "xn_panic s = None \<Longrightarrow> xn_streamer s = StreamHolds xTags \<Longrightarrow> length (xn_msgChan s) < numWorkers * 3 \<Longrightarrow>
    xset_step C P L uploadOk numWorkers s
      (s\<lparr>xn_streamer := StreamReady, xn_msgChan := snd (QueueXSetAdd 0 xTags (xn_msgChan s))\<rparr>)"
| stream_leave: "xn_panic s = None \<Longrightarrow> xn_streamer s = StreamReady \<Longrightarrow> xn_closed s \<Longrightarrow>
    xset_step C P L uploadOk numWorkers s (s\<lparr>xn_streamer := StreamLeft\<rparr>)"
| bloom_work: "xn_panic s = None \<Longrightarrow> xn_msgChan s = m # ms \<Longrightarrow> handle_msg L m (xn_bloom s) = Inr b \<Longrightarrow>
    xset_step C P L uploadOk numWorkers s (s\<lparr>xn_msgChan := ms, xn_bloom := b\<rparr>)"
| bloom_panic: "xn_panic s = None \<Longrightarrow> xn_msgChan s = m # ms \<Longrightarrow> handle_msg L m (xn_bloom s) = Inl p \<Longrightarrow>
    xset_step C P L uploadOk numWorkers s (s\<lparr>xn_panic := Some p\<rparr>)"
| upload: "xn_panic s = None \<Longrightarrow> bm_xFilterFinished (xn_bloom s) \<Longrightarrow> xn_uploaded s = None \<Longrightarrow>
    xFilterUploader L uploadOk (xn_bloom s) = Inr r \<Longrightarrow>
    xset_step C P L uploadOk numWorkers s (s\<lparr>xn_uploaded := Some r\<rparr>)"
| upload_panic: "xn_panic s = None \<Longrightarrow> bm_xFilterFinished (xn_bloom s) \<Longrightarrow> xn_uploaded s = None \<Longrightarrow>
    xFilterUploader L uploadOk (xn_bloom s) = Inl p \<Longrightarrow>
    xset_step C P L uploadOk numWorkers s (s\<lparr>xn_panic := Some p\<rparr>)"

abbreviation xset_steps where
  "xset_steps C P L uploadOk numWorkers \<equiv> (xset_step C P L uploadOk numWorkers)\<^sup>*\<^sup>*"

section \<open>Every run ends\<close>

fun xset_weight :: "xset_goroutine \<Rightarrow> nat" where
  "xset_weight (XIdle w) = 1"
| "xset_weight (XBusy d ws w) = 10"
| "xset_weight XLeft = 0"

fun stream_weight :: "streamer_state \<Rightarrow> nat" where
  "stream_weight StreamInit = 2"
| "stream_weight StreamReady = 1"
| "stream_weight (StreamHolds ts) = 4"
| "stream_weight StreamLeft = 0"

definition xset_measure :: "'f xset_net \<Rightarrow> nat" where
  "xset_measure s =
     (if xn_panic s = None then
        1 + 10 * length (xn_docs s) + sum_list (map xset_weight (xn_workers s)) + 7 * length (xn_waiting s) + xn_handed s +
        (if xn_once s then 0 else 1) + (if xn_closed s then 0 else 1) + stream_weight (xn_streamer s) +
        (case xn_summer s of None \<Rightarrow> 0 | Some (ds, cnt) \<Rightarrow> 2 + length ds) + length (xn_msgChan s) +
        (if xn_uploaded s = None then 1 else 0)
      else 0)"

lemma xset_decreases: "xset_step C P L uploadOk n s t \<Longrightarrow> xset_measure t < xset_measure s"
proof (induction rule: xset_step.induct)
  case (take_doc s d ds i w ws)
  then show ?case
    using sum_list_upd [of i "xn_workers s" "XIdle w" xset_weight "XBusy d ws w"] by (simp add: xset_measure_def)
next
  case (publish s i d ws w xTags w')
  then show ?case
    using sum_list_upd [of i "xn_workers s" "XBusy d ws w" xset_weight "XIdle w'"] by (simp add: xset_measure_def)
next
  case (leave s i w)
  then show ?case
    using sum_list_upd [of i "xn_workers s" "XIdle w" xset_weight XLeft] by (simp add: xset_measure_def)
next
  case (send s xTags)
  then have "Suc (length (remove1 xTags (xn_waiting s))) = length (xn_waiting s)"
    using length_pos_if_in_set [of xTags "xn_waiting s"] by (simp add: length_remove1)
  with send show ?case by (simp add: xset_measure_def)
qed (auto simp: xset_measure_def InitXSet_def QueueXSetAdd_def queue_msg_def)

lemma xset_wf: "wf {(t, s). xset_step C P L uploadOk n s t}"
  by (rule wf_subset [OF wf_measure [of xset_measure]]) (auto simp: xset_decreases)

section \<open>What the network keeps\<close>

fun xworker_ok :: "keyMap \<Rightarrow> xset_goroutine \<Rightarrow> bool" where
  "xworker_ok K (XIdle w) \<longleftrightarrow> (\<exists>buf \<in> {[], replicate 4 0}. w = xworker_at K [] [] buf)"
| "xworker_ok K (XBusy d ws w) \<longleftrightarrow> ranges_set (Words d) ws \<and> (\<exists>buf \<in> {[], replicate 4 0}. w = xworker_at K [] [] buf)"
| "xworker_ok K XLeft \<longleftrightarrow> True"

text \<open>Workers, closer and streamer.\<close>

definition xset_shape :: "keyMap \<Rightarrow> nat \<Rightarrow> 'f xset_net \<Rightarrow> bool" where
  "xset_shape K n s \<longleftrightarrow> length (xn_workers s) = n \<and> (\<forall>x \<in> set (xn_workers s). xworker_ok K x) \<and>
     (xn_once s \<longrightarrow> xn_docs s = []) \<and> (\<not> xn_once s \<longrightarrow> XLeft \<notin> set (xn_workers s)) \<and>
     (xn_closed s \<longrightarrow> xn_once s) \<and> (xn_streamer s = StreamLeft \<longrightarrow> xn_closed s)"

lemma xworker_of: "xset_shape K n s \<Longrightarrow> i < length (xn_workers s) \<Longrightarrow> xn_workers s ! i = x \<Longrightarrow> xworker_ok K x"
  using nth_mem [of i "xn_workers s"] by (auto simp: xset_shape_def)

lemma publish_at:
  assumes "xset_shape K n s" and "i < length (xn_workers s)" and "xn_workers s ! i = XBusy d ws w"
  obtains buf where "ranges_set (Words d) ws" and "buf \<in> {[], replicate 4 0}" and "w = xworker_at K [] [] buf"
    and "xSetWorker_doc C P (inv_DocId d) ws w = Inr (tags_from C P K (inv_DocId d) buf [] ws, xworker_at K [] [] [])"
proof -
  obtain buf where "ranges_set (Words d) ws" "buf \<in> {[], replicate 4 0}" "w = xworker_at K [] [] buf"
    using xworker_of [OF assms] by auto
  then show thesis by (intro that) (simp_all add: xSetWorker_doc_at)
qed

lemma xset_shape_step:
  assumes "xset_step C P L uploadOk n s t" and "xset_shape K n s"
  shows "xset_shape K n t"
  using assms
proof (induction rule: xset_step.induct)
  case (take_doc s d ds i w ws)
  from xworker_of [OF take_doc.prems take_doc(3,4)] take_doc(5) have "xworker_ok K (XBusy d ws w)" by simp
  with take_doc show ?case by (auto simp: xset_shape_def dest!: in_upd)
next
  case (publish s i d ws w xTags w')
  obtain buf where "w' = xworker_at K [] [] []"
    using publish_at [OF publish.prems publish(2,3), of C P] publish(4) by (metis Inr_inject Pair_inject)
  then have "xworker_ok K (XIdle w')" by simp
  with publish show ?case by (auto simp: xset_shape_def dest!: in_upd)
next
  case (leave s i w)
  then show ?case by (auto simp: xset_shape_def dest!: in_upd)
qed (auto simp: xset_shape_def)

text \<open>One worker: nothing is published after it left, so nothing waits when the channel is closed.\<close>

definition one_worker :: "'f xset_net \<Rightarrow> bool" where
  "one_worker s \<longleftrightarrow> (xn_once s \<longrightarrow> set (xn_workers s) \<subseteq> {XLeft}) \<and> (xn_closed s \<longrightarrow> xn_waiting s = [])"

text \<open>The lists published, each with its document and what the buffer held before (the four zero bytes
  for a worker's first document).\<close>

definition doc_tags :: "'p curve \<Rightarrow> prf_lib \<Rightarrow> keyMap \<Rightarrow> InvIndexDocument \<times> bytes \<times> bytes list \<Rightarrow> bool" where
  "doc_tags C P K p \<longleftrightarrow> (case p of (d, buf, ts) \<Rightarrow> buf \<in> {[], replicate 4 0} \<and>
     (\<exists>ws. ranges_set (Words d) ws \<and> ts = tags_from C P K (inv_DocId d) buf [] ws))"

fun taken :: "xset_goroutine \<Rightarrow> InvIndexDocument multiset" where
  "taken (XBusy d ws w) = {#d#}"
| "taken _ = {#}"

fun at_start :: "xset_goroutine \<Rightarrow> nat" where
  "at_start (XIdle w) = (if xw_indBuf w = [] then 0 else 1)"
| "at_start (XBusy d ws w) = (if xw_indBuf w = [] then 0 else 1)"
| "at_start XLeft = 0"

fun add_lists :: "bloom_msg list \<Rightarrow> bytes list multiset" where
  "add_lists [] = {#}"
| "add_lists (XSetAdd ts # ms) = add_mset ts (add_lists ms)"
| "add_lists (_ # ms) = add_lists ms"

fun streamer_held :: "streamer_state \<Rightarrow> bytes list multiset" where
  "streamer_held (StreamHolds ts) = {#ts#}"
| "streamer_held _ = {#}"

lemma add_lists_append [simp]: "add_lists (ms @ ms') = add_lists ms + add_lists ms'"
  by (induction ms rule: add_lists.induct) simp_all

lemma add_lists_adds [simp]: "add_lists (map XSetAdd us) = mset us"
  by (induction us) simp_all

definition pending_ok :: "(InvIndexDocument \<times> bytes \<times> bytes list) list \<Rightarrow> 'f xset_net \<Rightarrow> bool" where
  "pending_ok pub s \<longleftrightarrow> xn_pendingXSends s = of_nat (length (xn_waiting s) + xn_handed s) \<and>
     length (xn_waiting s) + xn_handed s \<le> length pub"

definition xset_flow ::
    "'p curve \<Rightarrow> prf_lib \<Rightarrow> keyMap \<Rightarrow> nat \<Rightarrow> InvIndexDocument list \<Rightarrow> (InvIndexDocument \<times> bytes \<times> bytes list) list \<Rightarrow>
       'f xset_net \<Rightarrow> bool" where
  "xset_flow C P K n docs pub s \<longleftrightarrow>
     mset (map fst pub) + sum_list (map taken (xn_workers s)) + mset (xn_docs s) = mset docs \<and>
     (\<forall>p \<in> set pub. doc_tags C P K p) \<and>
     length (filter (\<lambda>p. fst (snd p) \<noteq> []) pub) + sum_list (map at_start (xn_workers s)) \<le> n"

definition xset_lists :: "(InvIndexDocument \<times> bytes \<times> bytes list) list \<Rightarrow> bytes list list \<Rightarrow> 'f xset_net \<Rightarrow> bool" where
  "xset_lists pub uss s \<longleftrightarrow> mset (map (snd \<circ> snd) pub) =
     mset uss + add_lists (xn_msgChan s) + streamer_held (xn_streamer s) + mset (xn_waiting s)"

lemma sum_list_image: "sum_list (map f xs) = sum_mset (image_mset f (mset xs))"
  by (induction xs) simp_all

lemma flow_totals:
  assumes "xset_flow C P K n docs pub s" and "\<forall>d \<in> set docs. finite (Words d) \<and> Words d \<noteq> {}"
  shows "sum_list (map (\<lambda>p. length (snd (snd p))) pub) \<le> sum_list (map (\<lambda>d. card (Words d)) docs)"
    and "p \<in> set pub \<Longrightarrow> snd (snd p) \<noteq> []"
proof -
  have len: "length (snd (snd p)) = card (Words (fst p))" if "p \<in> set pub" for p
    using that assms(1) ranges_set_card by (fastforce simp: xset_flow_def doc_tags_def)
  define M where "M = sum_list (map taken (xn_workers s)) + mset (xn_docs s)"
  have M: "mset docs = mset (map fst pub) + M" using assms(1) by (simp add: xset_flow_def M_def add.assoc)
  have "map (\<lambda>p. length (snd (snd p))) pub = map (\<lambda>d. card (Words d)) (map fst pub)"
    using len by simp
  then have "sum_list (map (\<lambda>p. length (snd (snd p))) pub) = sum_mset (image_mset (\<lambda>d. card (Words d)) (mset (map fst pub)))"
    by (simp only: sum_list_image)
  also have "\<dots> \<le> sum_mset (image_mset (\<lambda>d. card (Words d)) (mset docs))" by (simp add: M)
  also have "\<dots> = sum_list (map (\<lambda>d. card (Words d)) docs)" by (rule sum_list_image [symmetric])
  finally show "sum_list (map (\<lambda>p. length (snd (snd p))) pub) \<le> sum_list (map (\<lambda>d. card (Words d)) docs)" .
  show "snd (snd p) \<noteq> []" if p: "p \<in> set pub"
  proof -
    have "fst p \<in># mset docs" using p by (simp add: M)
    then have "fst p \<in> set docs" by simp
    with assms(2) len [OF p] show ?thesis by auto
  qed
qed

text \<open>Summer, message channel and bloom worker: \<open>N\<close> tags are announced, \<open>uss\<close> were added.\<close>

definition bloom_ok :: "'f bloom_lib \<Rightarrow> nat \<Rightarrow> bytes list list \<Rightarrow> 'f xset_net \<Rightarrow> bool" where
  "bloom_ok L N uss s \<longleftrightarrow> (case xn_summer s of
       Some (ds, cnt) \<Rightarrow> cnt + sum_list (map (\<lambda>d. card (Words d)) ds) = N \<and> xn_msgChan s = [] \<and> uss = [] \<and>
         xn_bloom s = newBloomMaster \<and> xn_streamer s = StreamInit
     | None \<Rightarrow> xn_msgChan s = [XSetSizeInit (of_nat N)] \<and> uss = [] \<and> xn_bloom s = newBloomMaster \<and> xn_streamer s = StreamInit \<or>
         xn_msgChan s \<in> range (map XSetAdd) \<and>
         bloomWorker L (XSetSizeInit (of_nat N) # map XSetAdd uss) newBloomMaster = Inr (xn_bloom s))"

definition upload_ok :: "'f bloom_lib \<Rightarrow> (bytes \<Rightarrow> bool) \<Rightarrow> 'f xset_net \<Rightarrow> bool" where
  "upload_ok L uploadOk s \<longleftrightarrow> (\<forall>r. xn_uploaded s = Some r \<longrightarrow>
     bm_xFilterFinished (xn_bloom s) \<and> xFilterUploader L uploadOk (xn_bloom s) = Inr r)"

lemma not_ready_new: "\<not> WaitForXSetInit newBloomMaster" "\<not> bm_xFilterFinished newBloomMaster"
  by (simp_all add: WaitForXSetInit_def newBloomMaster_def)

text \<open>Steps other than a publication and the bloom worker's leave what was published and added.\<close>

lemma pending_quiet:
  assumes "xset_step C P L up n s t" and "length (xn_waiting t) \<le> length (xn_waiting s)" and "pending_ok pub s"
  shows "pending_ok pub t"
  using assms
proof (induction rule: xset_step.induct)
  case (send s xTags)
  then have len: "length (xn_waiting s) = Suc (length (remove1 xTags (xn_waiting s)))"
    using length_pos_if_in_set [of xTags "xn_waiting s"] by (simp add: length_remove1)
  from send show ?case by (simp add: pending_ok_def len)
next
  case (decrement s)
  then obtain m where "xn_handed s = Suc m" by (auto simp: gr0_conv_Suc)
  with decrement show ?case by (simp add: pending_ok_def)
qed (simp_all add: pending_ok_def)

lemma flow_quiet:
  assumes "xset_step C P L up n s t" and "length (xn_waiting t) \<le> length (xn_waiting s)" and "xset_flow C P K n docs pub s"
  shows "xset_flow C P K n docs pub t"
  using assms
proof (induction rule: xset_step.induct)
  case (take_doc s d ds i w ws)
  then show ?case
    using sum_list_upd [of i "xn_workers s" "XIdle w" taken "XBusy d ws w"]
      sum_list_upd [of i "xn_workers s" "XIdle w" at_start "XBusy d ws w"] by (simp add: xset_flow_def ac_simps)
next
  case (leave s i w)
  then show ?case
    using sum_list_upd [of i "xn_workers s" "XIdle w" taken XLeft] sum_list_upd [of i "xn_workers s" "XIdle w" at_start XLeft]
    by (simp add: xset_flow_def split: if_splits)
qed (simp_all add: xset_flow_def)

lemma lists_quiet:
  assumes "xset_step C P L up n s t" and "length (xn_waiting t) \<le> length (xn_waiting s)"
    and "length (xn_msgChan s) \<le> length (xn_msgChan t)" and "xset_lists pub uss s"
  shows "xset_lists pub uss t"
  using assms
  by (induction rule: xset_step.induct) (auto simp: xset_lists_def InitXSet_def QueueXSetAdd_def queue_msg_def)

lemma adds_snoc: "ms \<in> range (map XSetAdd) \<Longrightarrow> ms @ [XSetAdd ts] \<in> range (map XSetAdd)"
proof -
  assume "ms \<in> range (map XSetAdd)"
  then obtain us where "ms = map XSetAdd us" by blast
  then have "ms @ [XSetAdd ts] = map XSetAdd (us @ [ts])" by simp
  then show "ms @ [XSetAdd ts] \<in> range (map XSetAdd)" by (rule range_eqI)
qed

lemma bloom_quiet:
  assumes "xset_step C P L up n s t" and "length (xn_msgChan s) \<le> length (xn_msgChan t)" and "bloom_ok L N uss s"
  shows "bloom_ok L N uss t"
  using assms
proof (induction rule: xset_step.induct)
  case (stream_queue s xTags)
  then show ?case
    by (auto simp: bloom_ok_def QueueXSetAdd_def queue_msg_def adds_snoc simp del: bloomWorker.simps split: option.splits)
qed (auto simp: bloom_ok_def InitXSet_def queue_msg_def not_ready_new split: option.splits)

lemma upload_quiet:
  assumes "xset_step C P L up n s t" and "length (xn_msgChan s) \<le> length (xn_msgChan t)" and "upload_ok L up s"
  shows "upload_ok L up t"
  using assms by (induction rule: xset_step.induct) (auto simp: upload_ok_def)

text \<open>A publication.\<close>

lemma publish_inv:
  assumes "xset_shape K n s" and i: "i < length (xn_workers s)" "xn_workers s ! i = XBusy d ws w"
    and "xSetWorker_doc C P (inv_DocId d) ws w = Inr (xTags, w')"
    and "pending_ok pub s" and "xset_flow C P K n docs pub s" and "xset_lists pub uss s"
  defines "t \<equiv> s\<lparr>xn_workers := (xn_workers s)[i := XIdle w'], xn_waiting := xTags # xn_waiting s,
         xn_pendingXSends := xn_pendingXSends s + 1\<rparr>"
  shows "\<exists>pub'. pending_ok pub' t \<and> xset_flow C P K n docs pub' t \<and> xset_lists pub' uss t"
proof -
  obtain buf where buf: "ranges_set (Words d) ws" "buf \<in> {[], replicate 4 0}" "w = xworker_at K [] [] buf"
    and eq: "xSetWorker_doc C P (inv_DocId d) ws w = Inr (tags_from C P K (inv_DocId d) buf [] ws, xworker_at K [] [] [])"
    by (rule publish_at [OF assms(1-3)])
  let ?p = "(d, buf, xTags)"
  have w': "w' = xworker_at K [] [] []" and tags: "doc_tags C P K ?p"
    using buf(1,2) eq assms(4) by (auto simp: doc_tags_def)
  have start: "at_start (XBusy d ws w) = (if buf = [] then 0 else 1)" "at_start (XIdle w') = 0"
    by (simp_all add: buf(3) w' xworker_at_def)
  have "pending_ok (pub @ [?p]) t" using assms(5) by (simp add: pending_ok_def t_def)
  moreover have "xset_flow C P K n docs (pub @ [?p]) t"
  proof -
    have "sum_list (map taken (xn_workers s)) = add_mset d (sum_list (map taken ((xn_workers s)[i := XIdle w'])))"
      using sum_list_upd [OF i, of taken "XIdle w'"] by simp
    moreover have "sum_list (map at_start (xn_workers s)) =
        sum_list (map at_start ((xn_workers s)[i := XIdle w'])) + (if buf = [] then 0 else 1)"
      using sum_list_upd [OF i, of at_start "XIdle w'"] unfolding start by simp
    ultimately show ?thesis using assms(6) tags by (auto simp: xset_flow_def t_def)
  qed
  moreover have "xset_lists (pub @ [?p]) uss t" using assms(7) by (simp add: xset_lists_def t_def)
  ultimately show ?thesis by blast
qed

text \<open>What the bloom worker finds on the channel.\<close>

definition xset_size :: "InvIndexDocument list \<Rightarrow> nat" where
  "xset_size docs = sum_list (map (\<lambda>d. card (Words d)) docs)"

definition docs_fit :: "InvIndexDocument list \<Rightarrow> bool" where
  "docs_fit docs \<longleftrightarrow> (\<forall>d \<in> set docs. finite (Words d) \<and> Words d \<noteq> {}) \<and> xset_size docs < 2 ^ 32"

lemma lists_bound:
  assumes "docs_fit docs" and "xset_flow C P K n docs pub s" and "mset uss \<subseteq># mset (map (snd \<circ> snd) pub)"
  shows "length (concat uss) \<le> xset_size docs \<and> (\<forall>ts \<in> set uss. ts \<noteq> [])"
proof -
  have fin: "\<forall>d \<in> set docs. finite (Words d) \<and> Words d \<noteq> {}" using assms(1) by (simp add: docs_fit_def)
  obtain M where M: "mset (map (snd \<circ> snd) pub) = mset uss + M" using assms(3) by (auto simp: mset_subset_eq_exists_conv)
  have "length (concat uss) = sum_mset (image_mset length (mset uss))"
    unfolding length_concat by (rule sum_list_image)
  also have "\<dots> \<le> sum_mset (image_mset length (mset (map (snd \<circ> snd) pub)))" by (simp only: M) simp
  also have "\<dots> = sum_list (map length (map (snd \<circ> snd) pub))" by (rule sum_list_image [symmetric])
  also have "\<dots> \<le> xset_size docs" using flow_totals(1) [OF assms(2) fin] by (simp add: xset_size_def o_def)
  finally have "length (concat uss) \<le> xset_size docs" .
  moreover have "ts \<noteq> []" if ts: "ts \<in> set uss" for ts
  proof -
    from ts have "ts \<in># mset (map (snd \<circ> snd) pub)" unfolding M by simp
    then obtain p where p: "p \<in> set pub" "ts = snd (snd p)" by auto
    show ?thesis using flow_totals(2) [OF assms(2) fin p(1)] p(2) by simp
  qed
  ultimately show ?thesis by blast
qed

lemma bloom_next:
  assumes "docs_fit docs" and "xset_flow C P K n docs pub s" and lists: "xset_lists pub uss s"
    and ok: "bloom_ok L (xset_size docs) uss s" and msg: "xn_msgChan s = m # ms"
  defines "t \<equiv> \<lambda>b. s\<lparr>xn_msgChan := ms, xn_bloom := b\<rparr>"
  shows "\<not> bm_xFilterFinished (xn_bloom s) \<and> (\<exists>b. handle_msg L m (xn_bloom s) = Inr b \<and>
    (\<exists>uss'. xset_lists pub uss' (t b) \<and> bloom_ok L (xset_size docs) uss' (t b)))"
proof -
  let ?N = "xset_size docs"
  have N: "?N < 2 ^ 32" using assms(1) by (simp add: docs_fit_def)
  have summer: "xn_summer s = None" using ok msg by (auto simp: bloom_ok_def split: option.splits)
  show ?thesis
  proof (cases "m = XSetSizeInit (of_nat ?N)")
    case True
    with ok msg summer have u: "uss = []" "xn_bloom s = newBloomMaster" "ms = []" by (auto simp: bloom_ok_def)
    obtain b where b: "bloomWorker L [XSetSizeInit (of_nat ?N)] newBloomMaster = Inr b" using xset_run [of "[]" ?N L] N by auto
    then have h: "handle_msg L m (xn_bloom s) = Inr b" by (auto simp: u True gbind_def split: sum.splits)
    moreover have "xset_lists pub [] (t b)" using lists by (simp add: xset_lists_def t_def msg u True)
    moreover have "bloom_ok L ?N [] (t b)" using b by (simp add: bloom_ok_def t_def summer u del: bloomWorker.simps)
    ultimately show ?thesis using not_ready_new by (auto simp: u)
  next
    case False
    with ok msg summer have range: "m # ms \<in> range (map XSetAdd)"
      and run: "bloomWorker L (XSetSizeInit (of_nat ?N) # map XSetAdd uss) newBloomMaster = Inr (xn_bloom s)"
      by (simp_all add: bloom_ok_def del: bloomWorker.simps)
    from range obtain us where "m # ms = map XSetAdd us" by (rule imageE)
    then obtain ts us' where m: "m = XSetAdd ts" "ms = map XSetAdd us'" by (cases us) auto
    have "mset (uss @ [ts]) \<subseteq># mset (map (snd \<circ> snd) pub)"
      using lists by (simp add: xset_lists_def msg m)
    note bound = lists_bound [OF assms(1,2) this]
    then have "length (concat uss) + length ts \<le> ?N" and "ts \<noteq> []" by simp_all
    then have "length (concat uss) < ?N" using length_greater_0_conv [of ts] by linarith
    moreover have "\<forall>ts \<in> set uss. ts \<noteq> []" using bound by simp
    ultimately have unfinished: "\<not> bm_xFilterFinished (xn_bloom s)"
      using xset_run [of uss ?N L] N run by (auto simp del: bloomWorker.simps)
    obtain b where b: "bloomWorker L (XSetSizeInit (of_nat ?N) # map XSetAdd (uss @ [ts])) newBloomMaster = Inr b"
      using xset_run [of "uss @ [ts]" ?N L] bound N by blast
    then have "bloomWorker L [XSetAdd ts] (xn_bloom s) = Inr b"
      using bloomWorker_append [of L "XSetSizeInit (of_nat ?N) # map XSetAdd uss" "[XSetAdd ts]" newBloomMaster] run
      by (simp del: bloomWorker.simps)
    then have h: "handle_msg L m (xn_bloom s) = Inr b"
      by (auto simp: m gbind_def simp del: handle_msg.simps split: sum.splits)
    have "xset_lists pub (uss @ [ts]) (t b)" using lists by (simp add: xset_lists_def t_def msg m)
    moreover have "bloom_ok L ?N (uss @ [ts]) (t b)" using b by (simp add: bloom_ok_def t_def summer m del: bloomWorker.simps)
    ultimately show ?thesis using unfinished h by blast
  qed
qed

section \<open>Reachable states\<close>

lemma pub_bound:
  assumes "docs_fit docs" and "xset_flow C P K n docs pub s"
  shows "length pub < 2 ^ 32"
proof -
  have "\<forall>ts \<in> set uss. ts \<noteq> [] \<Longrightarrow> length uss \<le> length (concat uss)" for uss :: "bytes list list"
  proof (induction uss)
    case (Cons a uss)
    then have "Suc 0 \<le> length a" by (cases a) simp_all
    with Cons show ?case by simp
  qed simp
  from this [of "map (snd \<circ> snd) pub"] lists_bound [OF assms, of "map (snd \<circ> snd) pub"] assms(1)
  show ?thesis by (auto simp: docs_fit_def)
qed

lemma nothing_pending:
  assumes "docs_fit docs" and "xset_flow C P K n docs pub s" and "pending_ok pub s" and "xn_pendingXSends s = 0"
  shows "xn_waiting s = [] \<and> xn_handed s = 0"
proof -
  let ?k = "length (xn_waiting s) + xn_handed s"
  have "(of_nat ?k :: 32 word) = 0" and "?k < 2 ^ 32"
    using assms(3,4) pub_bound [OF assms(1,2)] by (simp_all add: pending_ok_def)
  then have "?k = 0" unfolding word_of_nat_eq_0_iff by (auto dest: nat_dvd_not_less simp del: of_nat_add)
  then show ?thesis by simp
qed

definition xset_inv ::
    "'p curve \<Rightarrow> prf_lib \<Rightarrow> 'f bloom_lib \<Rightarrow> (bytes \<Rightarrow> bool) \<Rightarrow> keyMap \<Rightarrow> nat \<Rightarrow> InvIndexDocument list \<Rightarrow> 'f xset_net \<Rightarrow> bool" where
  "xset_inv C P L up K n docs s \<longleftrightarrow> xset_shape K n s \<and> upload_ok L up s \<and> (n = 1 \<longrightarrow> one_worker s) \<and>
     (\<exists>pub uss. pending_ok pub s \<and> xset_flow C P K n docs pub s \<and> xset_lists pub uss s \<and> bloom_ok L (xset_size docs) uss s)"

lemma one_worker_step:
  assumes "xset_step C P L up n s t" and "docs_fit docs" and "xset_shape K n s" and "n = 1" and "one_worker s"
    and "pending_ok pub s" and "xset_flow C P K n docs pub s"
  shows "one_worker t"
proof -
  have single: "set ((xn_workers s)[i := y]) = {y}" if "i < length (xn_workers s)" for i y
    using that assms(3,4) by (cases "xn_workers s") (auto simp: xset_shape_def)
  have busy: "\<not> xn_once s" if "i < length (xn_workers s)" "xn_workers s ! i = XBusy d ws w" for i d ws w
    using that assms(5) nth_mem [of i "xn_workers s"] by (auto simp: one_worker_def)
  from assms(1) show ?thesis
  proof (cases rule: xset_step.cases)
    case (take_doc d ds i w ws)
    then show ?thesis using assms(3,5) by (auto simp: one_worker_def xset_shape_def)
  next
    case (publish i d ws w xTags w')
    then show ?thesis using busy assms(3,5) by (auto simp: one_worker_def xset_shape_def)
  next
    case (leave i w)
    then show ?thesis using single assms(5) by (simp add: one_worker_def)
  next
    case (send xTags)
    then show ?thesis using assms(5) by (auto simp: one_worker_def)
  next
    case close
    then show ?thesis using nothing_pending [OF assms(2,7,6)] assms(5) by (simp add: one_worker_def)
  qed (use assms(5) in \<open>auto simp: one_worker_def\<close>)
qed

lemma finished_filter:
  assumes "docs_fit docs" and "xset_flow C P K n docs pub s" and "xset_lists pub uss s" and "bloom_ok L (xset_size docs) uss s"
  shows "bm_xFilterFinished (xn_bloom s) \<Longrightarrow> bm_xSetFilter (xn_bloom s) \<noteq> None"
proof -
  assume fin: "bm_xFilterFinished (xn_bloom s)"
  with assms(4) have "bloomWorker L (XSetSizeInit (of_nat (xset_size docs)) # map XSetAdd uss) newBloomMaster = Inr (xn_bloom s)"
    by (auto simp: bloom_ok_def not_ready_new split: option.splits)
  moreover have "mset uss \<subseteq># mset (map (snd \<circ> snd) pub)" using assms(3) by (simp add: xset_lists_def)
  ultimately show ?thesis
    using lists_bound [OF assms(1,2)] xset_run [of uss "xset_size docs" L] assms(1) by (auto simp: docs_fit_def simp del: bloomWorker.simps)
qed

text \<open>The only panic is a send on the closed channel, and with one worker there is none.\<close>

lemma xset_panic:
  assumes "xset_step C P L up n s t" and "docs_fit docs" and "xset_inv C P L up K n docs s" and "xn_panic t \<noteq> None"
  shows "xn_panic t = Some SendOnClosedChannel \<and> n \<noteq> 1"
proof -
  obtain pub uss where shape: "xset_shape K n s" and one: "n = 1 \<longrightarrow> one_worker s"
    and flow: "xset_flow C P K n docs pub s" and lists: "xset_lists pub uss s" and bloom: "bloom_ok L (xset_size docs) uss s"
    using assms(3) by (auto simp: xset_inv_def)
  from assms(1) show ?thesis
  proof (cases rule: xset_step.cases)
    case (worker_panic i d ws w p)
    then show ?thesis using publish_at [OF shape worker_panic(3,4), of C P] by (metis Inl_Inr_False)
  next
    case (send_closed xTags)
    then show ?thesis using one by (auto simp: one_worker_def)
  next
    case (bloom_panic m ms p)
    then show ?thesis using bloom_next [OF assms(2) flow lists bloom bloom_panic(3)] by simp
  next
    case (upload_panic p)
    then show ?thesis using finished_filter [OF assms(2) flow lists bloom] by (auto simp: xFilterUploader_def Let_def)
  qed (use assms(4) in simp_all)
qed

lemma xset_inv_step:
  assumes "xset_step C P L up n s t" and "docs_fit docs" and "xset_inv C P L up K n docs s" and "xn_panic t = None"
  shows "xset_inv C P L up K n docs t"
proof -
  obtain pub uss where shape: "xset_shape K n s" and up: "upload_ok L up s" and one: "n = 1 \<longrightarrow> one_worker s"
    and pend: "pending_ok pub s" and flow: "xset_flow C P K n docs pub s" and lists: "xset_lists pub uss s"
    and bloom: "bloom_ok L (xset_size docs) uss s"
    using assms(3) by (auto simp: xset_inv_def)
  have "xset_shape K n t" and "n = 1 \<longrightarrow> one_worker t"
    using xset_shape_step [OF assms(1) shape] one_worker_step [OF assms(1,2) shape _ _ pend flow] one by blast+
  moreover have "upload_ok L up t \<and>
    (\<exists>pub uss. pending_ok pub t \<and> xset_flow C P K n docs pub t \<and> xset_lists pub uss t \<and> bloom_ok L (xset_size docs) uss t)"
    using assms(1)
  proof (cases rule: xset_step.cases)
    case (publish i d ws w xTags w')
    have "upload_ok L up t" using up by (simp add: publish(1) upload_ok_def)
    moreover have "bloom_ok L (xset_size docs) uss t" using bloom by (simp add: publish(1) bloom_ok_def cong: option.case_cong)
    ultimately show ?thesis using publish_inv [OF shape publish(3-5) pend flow lists] publish(1) by blast
  next
    case (bloom_work m ms b)
    obtain uss' where next_lists: "xset_lists pub uss' t" "bloom_ok L (xset_size docs) uss' t" "\<not> bm_xFilterFinished (xn_bloom s)"
      using bloom_next [OF assms(2) flow lists bloom bloom_work(3)] bloom_work(1,4) by auto
    have "upload_ok L up t" using up next_lists(3) by (auto simp: upload_ok_def bloom_work(1))
    moreover have "pending_ok pub t" "xset_flow C P K n docs pub t"
      using pend flow by (simp_all add: bloom_work(1) pending_ok_def xset_flow_def)
    ultimately show ?thesis using next_lists by blast
  qed (use pending_quiet [OF assms(1) _ pend] flow_quiet [OF assms(1) _ flow] lists_quiet [OF assms(1) _ _ lists]
        bloom_quiet [OF assms(1) _ bloom] upload_quiet [OF assms(1) _ up] assms(4) in
      \<open>auto simp: length_remove1 InitXSet_def QueueXSetAdd_def queue_msg_def\<close>)
  ultimately show ?thesis by (simp add: xset_inv_def)
qed

lemma xset_reach:
  assumes "cmac_doc P" and "keys_wf K" and "docs_fit docs" and "xset_steps C P L up n (xset_start P K n docs) s"
  shows "xn_panic s = None \<and> xset_inv C P L up K n docs s \<or> xn_panic s = Some SendOnClosedChannel \<and> n \<noteq> 1"
  using assms(4)
proof (induction rule: rtranclp_induct)
  case base
  let ?w = "XIdle (xworker_at K [] [] (replicate 4 0))"
  have "sum_list (map taken (replicate n ?w)) = {#}" by (induction n) simp_all
  moreover have "sum_list (map at_start (replicate n ?w)) = n" by (induction n) (simp_all add: xworker_at_def)
  ultimately have "xset_inv C P L up K n docs (xset_start P K n docs)"
    unfolding xset_inv_def
    by (auto simp: xset_start_def xSetWorker_init_at assms xset_shape_def upload_ok_def one_worker_def pending_ok_def xset_flow_def
        xset_lists_def bloom_ok_def xset_size_def simp del: map_replicate intro!: exI [of _ "[]"])
  then show ?case by (simp add: xset_start_def)
next
  case (step s t)
  have "xn_panic s = None" using step(2) by (rule xset_step.cases) simp_all
  with step show ?case using xset_inv_step [OF step(2) assms(3)] xset_panic [OF step(2) assms(3)] by (cases "xn_panic t") auto
qed

section \<open>Complete runs\<close>

text \<open>Nothing moves: summer and bloom worker are done with what there was.\<close>

lemma bloom_stuck:
  assumes "docs_fit docs" and "0 < n" and "xset_flow C P K n docs pub s" and "xset_lists pub uss s"
    and "bloom_ok L (xset_size docs) uss s" and p: "xn_panic s = None" and stuck: "\<nexists>t. xset_step C P L up n s t"
  shows "xn_msgChan s = [] \<and> WaitForXSetInit (xn_bloom s) \<and>
    bloomWorker L (XSetSizeInit (of_nat (xset_size docs)) # map XSetAdd uss) newBloomMaster = Inr (xn_bloom s)"
proof -
  note no = stuck [unfolded not_ex, rule_format]
  have msgs: "xn_msgChan s = []"
  proof (cases "xn_msgChan s")
    case (Cons m ms)
    then obtain b where "handle_msg L m (xn_bloom s) = Inr b" using bloom_next [OF assms(1,3-5)] by blast
    with xset_step.bloom_work [OF p Cons] no show ?thesis by blast
  qed
  have "xn_summer s = None"
  proof (cases "xn_summer s")
    case (Some x)
    obtain ds cnt where x: "x = (ds, cnt)" by fastforce
    show ?thesis
    proof (cases ds)
      case Nil
      have "length (xn_msgChan s) < n * 3" using msgs assms(2) by simp
      with xset_step.announce [OF p] Some x Nil no show ?thesis by blast
    next
      case (Cons d ds')
      with xset_step.sum_doc [OF p] Some x no show ?thesis by blast
    qed
  qed
  with assms(5) msgs have run: "bloomWorker L (XSetSizeInit (of_nat (xset_size docs)) # map XSetAdd uss) newBloomMaster = Inr (xn_bloom s)"
    by (simp add: bloom_ok_def del: bloomWorker.simps)
  have "mset uss \<subseteq># mset (map (snd \<circ> snd) pub)" using assms(4) by (simp add: xset_lists_def)
  with lists_bound [OF assms(1,3)] xset_run [of uss "xset_size docs" L] run assms(1) have "WaitForXSetInit (xn_bloom s)"
    by (auto simp: docs_fit_def WaitForXSetInit_def simp del: bloomWorker.simps)
  with msgs run show ?thesis by blast
qed

lemma workers_stuck:
  assumes "docs_fit docs" and "0 < n" and "xset_shape K n s" and "xset_flow C P K n docs pub s"
    and p: "xn_panic s = None" and stuck: "\<nexists>t. xset_step C P L up n s t"
  shows "set (xn_workers s) = {XLeft} \<and> xn_once s \<and> xn_docs s = []"
proof -
  note no = stuck [unfolded not_ex, rule_format]
  have "x = XLeft" if x: "x \<in> set (xn_workers s)" for x
  proof -
    obtain i where i: "i < length (xn_workers s)" "xn_workers s ! i = x" using x by (metis in_set_conv_nth)
    show ?thesis
    proof (cases x)
      case (XIdle w)
      show ?thesis
      proof (cases "xn_docs s")
        case Nil
        with xset_step.leave [OF p Nil i(1)] i(2) XIdle no show ?thesis by blast
      next
        case (Cons d ds)
        have "d \<in># mset docs" using assms(4) Cons by (metis xset_flow_def list.set_intros(1) set_mset_mset union_iff)
        then have "finite (Words d)" using assms(1) by (simp add: docs_fit_def)
        then obtain ws where "ranges_set (Words d) ws" using finite_distinct_list by (auto simp: ranges_set_def)
        with xset_step.take_doc [OF p Cons i(1)] i(2) XIdle no show ?thesis by blast
      qed
    next
      case (XBusy d ws w)
      with i obtain r where "xSetWorker_doc C P (inv_DocId d) ws w = Inr r"
        using publish_at [OF assms(3), of i d ws w C P] by blast
      with xset_step.publish [OF p i(1)] i(2) XBusy no show ?thesis by (cases r) blast
    qed
  qed
  moreover have "xn_workers s \<noteq> []" using assms(2,3) by (auto simp: xset_shape_def)
  ultimately have left: "set (xn_workers s) = {XLeft}" by (metis all_not_in_conv insertI1 set_empty singleton_iff subsetI subset_singletonD)
  with assms(3) show ?thesis by (auto simp: xset_shape_def)
qed

lemma handover_stuck:
  assumes "xset_shape K n s" and "pending_ok pub s" and "0 < n" and "xn_msgChan s = []" and "WaitForXSetInit (xn_bloom s)" and "xn_once s"
    and p: "xn_panic s = None" and stuck: "\<nexists>t. xset_step C P L up n s t"
  shows "xn_waiting s = [] \<and> xn_closed s \<and> xn_streamer s = StreamLeft"
proof -
  note no = stuck [unfolded not_ex, rule_format]
  have streamer: "xn_streamer s \<in> {StreamReady, StreamLeft}"
  proof (cases "xn_streamer s")
    case StreamInit
    with xset_step.stream_start [OF p _ assms(5)] no show ?thesis by blast
  next
    case (StreamHolds ts)
    moreover have "length (xn_msgChan s) < n * 3" using assms(3,4) by simp
    ultimately show ?thesis using xset_step.stream_queue [OF p] no by blast
  qed simp_all
  have waiting: "xn_waiting s = []"
  proof (cases "xn_waiting s")
    case (Cons ts tss)
    then have ts: "ts \<in> set (xn_waiting s)" by simp
    then have "\<not> xn_closed s" using xset_step.send_closed [OF p _ assms(5)] no by blast
    moreover from this have "xn_streamer s = StreamReady" using streamer assms(1) by (auto simp: xset_shape_def)
    ultimately show ?thesis using xset_step.send [OF p ts assms(5)] no by blast
  qed
  moreover have "xn_handed s = 0" using xset_step.decrement [OF p] no by blast
  ultimately have "xn_pendingXSends s = 0" using assms(2) by (simp add: pending_ok_def)
  then have "xn_closed s" using xset_step.close [OF p assms(6)] no by blast
  with streamer xset_step.stream_leave [OF p] no waiting show ?thesis by blast
qed

text \<open>Every document published and every list added: the filter is finished.\<close>

lemma complete_filter:
  assumes "docs_fit docs" and "docs \<noteq> []" and flow: "xset_flow C P K n docs pub s"
    and pub: "mset (map fst pub) = mset docs" and uss: "mset uss = mset (map (snd \<circ> snd) pub)"
    and worked: "bloomWorker L (XSetSizeInit (of_nat (xset_size docs)) # map XSetAdd uss) newBloomMaster = Inr b"
  shows "bm_xFilterFinished b" and "bm_xNumAdded b = of_nat (xset_size docs)"
    and "bm_xSetFilter b = Some (foldl (bf_add L) (NewWithEstimates L (of_nat (xset_size docs))) (concat uss))"
proof -
  have len: "length (snd (snd q)) = card (Words (fst q))" if "q \<in> set pub" for q
    using that flow ranges_set_card by (fastforce simp: xset_flow_def doc_tags_def)
  have "length (concat uss) = sum_list (map length (map (snd \<circ> snd) pub))"
    unfolding length_concat by (rule sum_list_map_mset [OF uss])
  also have "\<dots> = sum_list (map (\<lambda>d. card (Words d)) (map fst pub))" using len by (simp add: o_def cong: map_cong)
  also have "\<dots> = xset_size docs" unfolding xset_size_def by (rule sum_list_map_mset [OF pub])
  finally have total: "length (concat uss) = xset_size docs" .
  have "pub \<noteq> []" using pub assms(2) by auto
  then have "uss \<noteq> []" using uss by auto
  moreover have "\<forall>ts \<in> set uss. ts \<noteq> []" using lists_bound [OF assms(1) flow, of uss] uss by simp
  ultimately show "bm_xFilterFinished b" "bm_xNumAdded b = of_nat (xset_size docs)"
    "bm_xSetFilter b = Some (foldl (bf_add L) (NewWithEstimates L (of_nat (xset_size docs))) (concat uss))"
    using xset_run [of uss "xset_size docs" L] worked total assms(1) by (auto simp: docs_fit_def simp del: bloomWorker.simps)
qed

section \<open>Properties\<close>

text \<open>C24: The x-set under every schedule.  Take documents with words, fewer than 2^32 words in all, any
  number of workers, and one bloom worker.  Every run ends, and the only panic is a send on the closed
  tag channel, which one worker excludes.  When nothing moves and nothing panicked, the workers, the
  closer and the streamer are gone; every document has been taken once, and its tags are one per word,
  fed as \<open>xSetWorker\<close> does (the buffer held four zero bytes for at most one document per worker);
  all of them test positive in the filter, as many as announced were counted, the completion is
  signalled and the uploader has sent the encoding of exactly this filter.\<close>

theorem xset_any_schedule:
  assumes "cmac_doc P" and "keys_wf K" and "bloom_doc L" and "0 < numWorkers" and "docs \<noteq> []"
    and "\<forall>d \<in> set docs. finite (Words d) \<and> Words d \<noteq> {}" and "sum_list (map (\<lambda>d. card (Words d)) docs) < 2 ^ 32"
  shows "wf {(t, s). xset_step C P L uploadOk numWorkers s t} \<and>
    (\<forall>s. xset_steps C P L uploadOk numWorkers (xset_start P K numWorkers docs) s \<longrightarrow>
       (xn_panic s = None \<or> xn_panic s = Some SendOnClosedChannel \<and> numWorkers \<noteq> 1) \<and>
       ((\<nexists>t. xset_step C P L uploadOk numWorkers s t) \<and> xn_panic s = None \<longrightarrow>
          set (xn_workers s) = {XLeft} \<and> xn_closed s \<and> xn_streamer s = StreamLeft \<and>
          bm_xFilterFinished (xn_bloom s) \<and>
          bm_xNumAdded (xn_bloom s) = of_nat (sum_list (map (\<lambda>d. card (Words d)) docs)) \<and>
          (\<exists>r. xn_uploaded s = Some r \<and> xFilterUploader L uploadOk (xn_bloom s) = Inr r) \<and>
          (\<exists>pub f. mset (map fst pub) = mset docs \<and> (\<forall>p \<in> set pub. doc_tags C P K p) \<and>
             length (filter (\<lambda>(_, buf, _). buf \<noteq> []) pub) \<le> numWorkers \<and>
             bm_xSetFilter (xn_bloom s) = Some f \<and>
             (\<forall>(_, _, ts) \<in> set pub. \<forall>t \<in> set ts. bf_test L f t))))"
proof (intro conjI allI impI)
  show "wf {(t, s). xset_step C P L uploadOk numWorkers s t}" by (rule xset_wf)
next
  fix s
  let ?N = "xset_size docs"
  have fit: "docs_fit docs" using assms(6,7) by (simp add: docs_fit_def xset_size_def)
  assume run: "xset_steps C P L uploadOk numWorkers (xset_start P K numWorkers docs) s"
  note reach = xset_reach [OF assms(1,2) fit run]
  then show "xn_panic s = None \<or> xn_panic s = Some SendOnClosedChannel \<and> numWorkers \<noteq> 1" by blast
  assume "(\<nexists>t. xset_step C P L uploadOk numWorkers s t) \<and> xn_panic s = None"
  then have stuck: "\<nexists>t. xset_step C P L uploadOk numWorkers s t" and p: "xn_panic s = None" by simp_all
  obtain pub uss where shape: "xset_shape K numWorkers s" and up: "upload_ok L uploadOk s"
    and pend: "pending_ok pub s" and flow: "xset_flow C P K numWorkers docs pub s" and lists: "xset_lists pub uss s"
    and bloom: "bloom_ok L ?N uss s"
    using reach p by (auto simp: xset_inv_def)
  have b: "xn_msgChan s = []" "WaitForXSetInit (xn_bloom s)"
    and worked: "bloomWorker L (XSetSizeInit (of_nat ?N) # map XSetAdd uss) newBloomMaster = Inr (xn_bloom s)"
    using bloom_stuck [OF fit assms(4) flow lists bloom p stuck] by blast+
  have w: "set (xn_workers s) = {XLeft}" "xn_once s" "xn_docs s = []"
    using workers_stuck [OF fit assms(4) shape flow p stuck] by blast+
  have h: "xn_waiting s = []" "xn_closed s" "xn_streamer s = StreamLeft"
    using handover_stuck [OF shape pend assms(4) b w(2) p stuck] by blast+
  show "set (xn_workers s) = {XLeft}" "xn_closed s" "xn_streamer s = StreamLeft" using w h by simp_all
  have "\<forall>x \<in> set xs. taken x = {#} \<Longrightarrow> sum_list (map taken xs) = {#}" for xs by (induction xs) simp_all
  then have "sum_list (map taken (xn_workers s)) = {#}" using w(1) by simp
  then have pub: "mset (map fst pub) = mset docs" using flow w(3) by (simp add: xset_flow_def)
  have uss: "mset uss = mset (map (snd \<circ> snd) pub)" using lists h b by (simp add: xset_lists_def)
  note done_ = complete_filter [OF fit assms(5) flow pub uss worked]
  show "bm_xFilterFinished (xn_bloom s)" by (rule done_(1))
  show "bm_xNumAdded (xn_bloom s) = of_nat (sum_list (map (\<lambda>d. card (Words d)) docs))" using done_(2) by (simp add: xset_size_def)
  show "\<exists>r. xn_uploaded s = Some r \<and> xFilterUploader L uploadOk (xn_bloom s) = Inr r"
  proof (cases "xn_uploaded s")
    case None
    with stuck show ?thesis
      using xset_step.upload [OF p done_(1) None] xset_step.upload_panic [OF p done_(1) None]
      by (cases "xFilterUploader L uploadOk (xn_bloom s)") blast+
  next
    case (Some r)
    with up show ?thesis by (simp add: upload_ok_def)
  qed
  have "bf_test L (foldl (bf_add L) (NewWithEstimates L (of_nat ?N)) (concat uss)) t" if "q \<in> set pub" "t \<in> set (snd (snd q))" for q t
  proof -
    have "snd (snd q) \<in># mset uss" using that(1) by (auto simp: uss)
    then have "t \<in> set (concat uss)" using that(2) by auto
    then show ?thesis by (rule membership.mem_add_all [OF membership_lib [OF assms(3)]])
  qed
  then show "\<exists>pub f. mset (map fst pub) = mset docs \<and> (\<forall>p \<in> set pub. doc_tags C P K p) \<and>
      length (filter (\<lambda>(_, buf, _). buf \<noteq> []) pub) \<le> numWorkers \<and> bm_xSetFilter (xn_bloom s) = Some f \<and>
      (\<forall>(_, _, ts) \<in> set pub. \<forall>t \<in> set ts. bf_test L f t)"
    using pub flow done_(3) by (intro exI [of _ pub] exI) (auto simp: xset_flow_def split_def)
qed

theorem xset_any_schedule_witness:
  "\<exists>s f. xset_steps demo_curve demo_prf demo_bloom (\<lambda>_. True) 1
      (xset_start demo_prf demo_keys 1 [\<lparr>Words = {''a''}, inv_DocId = 7\<rparr>, \<lparr>Words = {''a'', ''b''}, inv_DocId = 9\<rparr>]) s \<and>
    xn_panic s = None \<and> bm_xFilterFinished (xn_bloom s) \<and> bm_xSetFilter (xn_bloom s) = Some f \<and> bm_xNumAdded (xn_bloom s) = 3"
proof -
  let ?docs = "[\<lparr>Words = {''a''}, inv_DocId = 7\<rparr>, \<lparr>Words = {''a'', ''b''}, inv_DocId = 9\<rparr>]"
  let ?step = "xset_step demo_curve demo_prf demo_bloom (\<lambda>_. True) 1"
  obtain s where s: "?step\<^sup>*\<^sup>* (xset_start demo_prf demo_keys 1 ?docs) s" "\<nexists>t. ?step s t"
    using wf_steps_end [OF xset_wf] by blast
  have h: "0 < (1 :: nat)" "?docs \<noteq> []" "\<forall>d \<in> set ?docs. finite (Words d) \<and> Words d \<noteq> {}"
    "sum_list (map (\<lambda>d. card (Words d)) ?docs) < 2 ^ 32" by simp_all
  note run = xset_any_schedule [OF cmac_doc_demo keys_wf_demo bloom_doc_demo h, THEN conjunct2, rule_format, OF s(1)]
  then have p: "xn_panic s = None" by blast
  then have end_: "bm_xFilterFinished (xn_bloom s)" "\<exists>f. bm_xSetFilter (xn_bloom s) = Some f"
    "bm_xNumAdded (xn_bloom s) = of_nat (sum_list (map (\<lambda>d. card (Words d)) ?docs))"
    using run s(2) by blast+
  with s(1) p show ?thesis by auto
qed

end
