(* ===== verification/SearchServer.thy ===== *)
theory SearchServer
  imports IndexSearcher DocDatabase Service
begin

text \<open>
  The RPC handlers of \<open>server/server.go\<close>.  A client stream is the sequence of results its \<open>Recv\<close>
  calls return; a handler that may loop forever is a partial function whose value \<open>None\<close> means it
  does not return.  Bounded request channels are modelled as queues without a bound, and the
  goroutines behind them are the steps of \<open>IndexSearcher\<close> and \<open>DocDatabase\<close>.
\<close>

datatype 'a recv = Msg 'a | StreamEOF | StreamErr

text \<open>\<open>stream.Recv()\<close>: a message or nil.\<close>

fun recv_msg :: "'a recv \<Rightarrow> 'a option" where
  "recv_msg (Msg m) = Some m"
| "recv_msg StreamEOF = None"
| "recv_msg StreamErr = None"

datatype rpc_result = RpcOk | RpcAck | RpcErr

record ('s, 'f) encryptedSearchServer =
  srv_docs :: "'s documentDatabase"
  srv_index :: "('s, 'f) index_searcher"

definition newEncryptedSearchServer ::
    "'s documentDatabase \<Rightarrow> ('s, 'f) index_searcher \<Rightarrow> ('s, 'f) encryptedSearchServer" where
  "newEncryptedSearchServer docs index = \<lparr>srv_docs = docs, srv_index = index\<rparr>"

definition UploadMetaData ::
    "MetaData \<Rightarrow> ('s, 'f) encryptedSearchServer \<Rightarrow> (rpc_result \<times> ('s, 'f) encryptedSearchServer) go" where
  "UploadMetaData mData e =
     gbind (LoadTSetMetaData mData (srv_index e)) (\<lambda>i. Inr (RpcAck, e\<lparr>srv_index := i\<rparr>))"

text \<open>Only \<open>io.EOF\<close> ends the loop; any other error puts a nil fragment and goes on.\<close>

partial_function (option) UploadTSet ::
    "(nat \<Rightarrow> TSetFragment recv) \<Rightarrow> nat \<Rightarrow> ('s, 'f) encryptedSearchServer
       \<Rightarrow> (rpc_result \<times> ('s, 'f) encryptedSearchServer) option" where
  "UploadTSet stream n e =
     (if stream n = StreamEOF then Some (RpcAck, e)
      else UploadTSet stream (Suc n)
             (e\<lparr>srv_index := PutTsetFragment (recv_msg (stream n)) (srv_index e)\<rparr>))"

definition UploadXSetFilter ::
    "'s bolt_ops \<Rightarrow> (bytes \<Rightarrow> 'f option) \<Rightarrow> bytes \<Rightarrow> ('s, 'f) encryptedSearchServer
       \<Rightarrow> rpc_result \<times> ('s, 'f) encryptedSearchServer" where
  "UploadXSetFilter B dec xFilter e =
     (RpcAck, e\<lparr>srv_index := PutXSetFilter B dec xFilter (srv_index e)\<rparr>)"

partial_function (option) UploadCipherDocs ::
    "(nat \<Rightarrow> CipherDoc recv) \<Rightarrow> nat \<Rightarrow> ('s, 'f) encryptedSearchServer
       \<Rightarrow> (rpc_result \<times> ('s, 'f) encryptedSearchServer) option" where
  "UploadCipherDocs stream n e =
     (case recv_msg (stream n) of
        None \<Rightarrow> Some (RpcAck, e)
      | Some doc \<Rightarrow> UploadCipherDocs stream (Suc n) (e\<lparr>srv_docs := PutDoc doc (srv_docs e)\<rparr>))"

text \<open>The loop over the response channel, given what the reader puts there until it closes it: the
  messages sent, the result, and whether the search was cancelled.\<close>

record EncryptedDocInfo =
  EncryptedId :: "bytes option"

fun KeywordSearch_loop ::
    "(EncryptedDocInfo \<Rightarrow> bool) \<Rightarrow> tupleData list \<Rightarrow> EncryptedDocInfo list \<times> rpc_result \<times> bool" where
  "KeywordSearch_loop sendOk [] = ([], RpcOk, False)"
| "KeywordSearch_loop sendOk (resp # resps) =
     (let info = \<lparr>EncryptedId = eId resp\<rparr>
      in if sendOk info then
           let (sent, r, cancelled) = KeywordSearch_loop sendOk resps in (info # sent, r, cancelled)
         else ([], RpcErr, True))"

text \<open>A search request is queued, answered by a reader (whose rounds are given) and forwarded.
  A response channel that is not closed blocks the handler: no result.\<close>

definition KeywordSearch ::
    "(tupleData list \<Rightarrow> tupleData list) \<Rightarrow> (bool \<times> tupleData list) list \<Rightarrow> (EncryptedDocInfo \<Rightarrow> bool)
       \<Rightarrow> (EncryptedDocInfo list \<times> rpc_result \<times> bool) option go" where
  "KeywordSearch srt rounds sendOk =
     gbind (tSetReader srt rounds) (\<lambda>(resps, closed).
       let (sent, r, cancelled) = KeywordSearch_loop sendOk resps
       in if closed \<or> cancelled then Inr (Some (sent, r, cancelled)) else Inr None)"

text \<open>On an error other than EOF the request is nil and reading its field panics.\<close>

fun FetchDocuments ::
    "'s bolt_ops \<Rightarrow> (CipherDoc option \<Rightarrow> bool) \<Rightarrow> u32 recv list \<Rightarrow> ('s, 'f) encryptedSearchServer
       \<Rightarrow> (CipherDoc option list \<times> rpc_result option) go" where
  "FetchDocuments B sendOk [] e = Inr ([], None)"
| "FetchDocuments B sendOk (StreamEOF # _) e = Inr ([], Some RpcOk)"
| "FetchDocuments B sendOk (StreamErr # _) e = Inl NilDereference"
| "FetchDocuments B sendOk (Msg docId # reqs) e =
     (let (doc, err) = RetrieveDoc B docId (srv_docs e)
      in if err \<noteq> None then Inr ([], Some RpcErr)
         else if \<not> sendOk doc then Inr ([], Some RpcErr)
         else gbind (FetchDocuments B sendOk reqs e) (\<lambda>(sent, r). Inr (doc # sent, r)))"

definition ConjunctiveSearchRequest :: "('s, 'f) encryptedSearchServer \<Rightarrow> rpc_result" where
  "ConjunctiveSearchRequest e = RpcOk"

definition XTokenExchange :: "('s, 'f) encryptedSearchServer \<Rightarrow> rpc_result" where
  "XTokenExchange e = RpcOk"

text \<open>\<open>main\<close>, from the opened database to the registered server, with the goroutines its components
  launch: the errors of both \<open>Start\<close> calls are dropped.\<close>

definition server_main ::
    "'s bolt_ops \<Rightarrow> (bytes \<Rightarrow> 'f option) \<Rightarrow> nat \<Rightarrow> nat \<Rightarrow> 's
       \<Rightarrow> ('s, 'f) encryptedSearchServer \<times> goroutine list \<times> launched list" where
  "server_main B dec numReaders numTsetReaders db =
     (let docDb = NewDocumentDatabase db;
          docGs = sv_launched (started (documentDatabase_Start numReaders));
          (_, indexGs, index) = index_Start B dec numTsetReaders (NewEncryptedIndexSearcher db)
      in (newEncryptedSearchServer docDb index, docGs, indexGs))"

section \<open>Lemmas\<close>

text \<open>A stream that delivers a list of messages and then goes on with one result for ever.\<close>

definition stream_of :: "'a list \<Rightarrow> 'a recv \<Rightarrow> nat \<Rightarrow> 'a recv" where
  "stream_of ms fin n = (if n < length ms then Msg (ms ! n) else fin)"

lemma UploadTSet_from:
  "UploadTSet (stream_of ms StreamEOF) n e =
     Some (RpcAck, e\<lparr>srv_index := fold (\<lambda>t. PutTsetFragment (Some t)) (drop n ms) (srv_index e)\<rparr>)"
proof (induction "length ms - n" arbitrary: n e)
  case 0
  then show ?case by (subst UploadTSet.simps) (simp add: stream_of_def)
next
  case (Suc k)
  then have n: "n < length ms" by simp
  then have "drop n ms = ms ! n # drop (Suc n) ms" by (simp add: Cons_nth_drop_Suc)
  with Suc n show ?case by (subst UploadTSet.simps) (simp add: stream_of_def)
qed

lemma UploadTSet_returns: "UploadTSet stream n e = Some r \<Longrightarrow> \<exists>k. stream k = StreamEOF"
  by (rule UploadTSet.raw_induct [where P = "\<lambda>stream n e r. \<exists>k. stream k = StreamEOF"])
    (auto split: if_splits)

lemma UploadCipherDocs_from:
  assumes "fin = StreamEOF \<or> fin = StreamErr"
  shows "UploadCipherDocs (stream_of ds fin) n e =
     Some (RpcAck, e\<lparr>srv_docs := fold PutDoc (drop n ds) (srv_docs e)\<rparr>)"
proof (induction "length ds - n" arbitrary: n e)
  case 0
  with assms show ?case by (subst UploadCipherDocs.simps) (auto simp: stream_of_def)
next
  case (Suc k)
  then have n: "n < length ds" by simp
  then have "drop n ds = ds ! n # drop (Suc n) ds" by (simp add: Cons_nth_drop_Suc)
  with Suc n show ?case by (subst UploadCipherDocs.simps) (simp add: stream_of_def)
qed

lemma fold_PutTsetFragment:
  "tWriteReqs (fold (\<lambda>t. PutTsetFragment (Some t)) ts i) = tWriteReqs i @ ts"
  by (induction ts arbitrary: i) (simp_all add: PutTsetFragment_def)

lemma fold_PutDoc: "writeRequests (fold PutDoc ds d) = writeRequests d @ ds"
  by (induction ds arbitrary: d) (simp_all add: PutDoc_def)

section \<open>Properties\<close>

text \<open>Uploading the t-set: when the client half-closes its stream the handler acknowledges with
  every fragment queued in the order sent; when the stream breaks instead (\<open>Recv\<close> returns an error
  other than EOF from then on) it never returns.\<close>

theorem UploadTSet_outcome:
  "(\<exists>e'. UploadTSet (stream_of ms StreamEOF) 0 e = Some (RpcAck, e') \<and>
      tWriteReqs (srv_index e') = tWriteReqs (srv_index e) @ ms \<and> srv_docs e' = srv_docs e) \<and>
   UploadTSet (stream_of ms StreamErr) 0 e = None"
proof
  show "\<exists>e'. UploadTSet (stream_of ms StreamEOF) 0 e = Some (RpcAck, e') \<and>
      tWriteReqs (srv_index e') = tWriteReqs (srv_index e) @ ms \<and> srv_docs e' = srv_docs e"
    by (simp add: UploadTSet_from fold_PutTsetFragment)
  show "UploadTSet (stream_of ms StreamErr) 0 e = None"
  proof (rule ccontr)
    assume "UploadTSet (stream_of ms StreamErr) 0 e \<noteq> None"
    then obtain k where "stream_of ms StreamErr k = StreamEOF" using UploadTSet_returns by blast
    then show False by (simp add: stream_of_def split: if_splits)
  qed
qed

text \<open>Uploading documents: the handler returns with an acknowledgement and all received
  documents queued in order, whether the stream ends or breaks, so that a broken upload looks
  complete to the caller.\<close>

theorem UploadCipherDocs_outcome:
  "\<forall>fin \<in> {StreamEOF, StreamErr}. \<exists>e'.
     UploadCipherDocs (stream_of ds fin) 0 e = Some (RpcAck, e') \<and>
     writeRequests (srv_docs e') = writeRequests (srv_docs e) @ ds \<and> srv_index e' = srv_index e"
  by (auto simp: UploadCipherDocs_from fold_PutDoc)

theorem UploadCipherDocs_outcome_witness:
  "\<exists>e'. UploadCipherDocs (stream_of [\<lparr>DocId = 1, EncryptedDoc = [5]\<rparr>] StreamErr) 0
        (newEncryptedSearchServer \<lparr>docStore = Map.empty, writeRequests = []\<rparr>
          (NewEncryptedIndexSearcher Map.empty :: (mem_store, unit) index_searcher)) = Some (RpcAck, e') \<and>
     writeRequests (srv_docs e') = [\<lparr>DocId = 1, EncryptedDoc = [5]\<rparr>]"
  using UploadCipherDocs_outcome [of "[\<lparr>DocId = 1, EncryptedDoc = [5]\<rparr>]"
      "newEncryptedSearchServer \<lparr>docStore = Map.empty, writeRequests = []\<rparr>
        (NewEncryptedIndexSearcher Map.empty :: (mem_store, unit) index_searcher)"]
  by (auto simp: newEncryptedSearchServer_def)

text \<open>Fetching documents over an open stream: every requested ID is answered, in order, with
  an empty document under that ID; a stream that breaks instead of ending crashes the handler.\<close>

theorem FetchDocuments_outcome:
  assumes "bolt_doc B" and "\<forall>doc. sendOk doc"
  shows "FetchDocuments B sendOk (map Msg ids @ [StreamEOF]) e =
      Inr (map (\<lambda>i. Some \<lparr>DocId = i, EncryptedDoc = []\<rparr>) ids, Some RpcOk) \<and>
    FetchDocuments B sendOk (map Msg ids @ [StreamErr]) e = Inl NilDereference"
proof -
  have r: "RetrieveDoc B i d = (Some \<lparr>DocId = i, EncryptedDoc = []\<rparr>, None)" for i d
    by (simp add: RetrieveDoc_def readHandler_read_only assms(1))
  show ?thesis by (induction ids) (simp_all add: r assms(2))
qed

theorem FetchDocuments_outcome_witness:
  "FetchDocuments mem_bolt (\<lambda>_. True) [Msg 3, StreamEOF]
      (newEncryptedSearchServer
        (writeHandler_step mem_bolt (PutDoc \<lparr>DocId = 3, EncryptedDoc = [8]\<rparr> \<lparr>docStore = Map.empty, writeRequests = []\<rparr>))
        (NewEncryptedIndexSearcher Map.empty :: (mem_store, unit) index_searcher)) =
     Inr ([Some \<lparr>DocId = 3, EncryptedDoc = []\<rparr>], Some RpcOk)"
  using FetchDocuments_outcome [OF bolt_doc_mem, of "\<lambda>_. True" "[3]"
      "e :: (mem_store, unit) encryptedSearchServer" for e]
  by (simp del: FetchDocuments.simps)

text \<open>Forwarding search results: the client gets the encrypted IDs in the reader's order up to
  the first send that fails; the search is cancelled, and an error returned, exactly in that
  case.\<close>

theorem KeywordSearch_loop_forwards:
  "KeywordSearch_loop sendOk resps =
     (let infos = map (\<lambda>t. \<lparr>EncryptedId = eId t\<rparr>) resps; failed = (\<exists>i \<in> set infos. \<not> sendOk i)
      in (takeWhile sendOk infos, if failed then RpcErr else RpcOk, failed))"
  by (induction resps) (auto simp: Let_def)

text \<open>C33: Restarting the server.  On a database without an index it launches its handlers, two t-set
  writers and the t-set readers.  Once the client has uploaded the x-set filter a restart on that
  database launches the handlers of the document store only: the load of the filter fails, the error
  is dropped, and every search is queued for a reader that does not exist.\<close>

theorem server_restart:
  assumes "bolt_doc B" and "bolt_commits B" and "length f \<le> 2147483646"
    and "\<not> op_bucket B db [indexBucketKey]" and "\<forall>k. \<not> op_bucket B db [indexBucketKey, k]"
  shows "let (srv, docGs, indexGs) = server_main B dec n m db;
       srv' = snd (UploadXSetFilter B dec f srv);
       (srv2, docGs2, indexGs2) = server_main B dec n m (indexDb (srv_index srv'))
     in docGs = replicate n ReadHandler @ [WriteHandler] \<and> docGs2 = docGs \<and>
        indexGs = replicate 2 TSetWriter @ replicate m TSetReader \<and> indexGs2 = [] \<and>
        op_get B (indexDb (srv_index srv2)) [indexBucketKey] xSetKey = Some f \<and>
        tReadReqs (TSetSearch stag (srv_index srv2)) = [stag]"
proof -
  let ?i = "(NewEncryptedIndexSearcher db)\<lparr>index_started := 1\<rparr>"
  have docs: "sv_launched (started (documentDatabase_Start n)) = replicate n ReadHandler @ [WriteHandler]"
    by (simp add: documentDatabase_Start_def started_service_Start)
  have first: "index_Start B dec m (NewEncryptedIndexSearcher db) =
      (None, replicate 2 TSetWriter @ replicate m TSetReader, ?i)"
    using assms(4) by (simp add: index_Start_def NewEncryptedIndexSearcher_def numTsetWriters_def)
  let ?s = "indexDb (PutXSetFilter B dec f ?i)"
  have again: "op_get B ?s [indexBucketKey] xSetKey = Some f"
    "index_Start B dec m (NewEncryptedIndexSearcher ?s) =
      (Some BoltError, [], (NewEncryptedIndexSearcher ?s)\<lparr>index_started := 1\<rparr>)"
    using restart_after_filter(1) [OF assms(1-3), of ?i dec]
      restart_after_filter(2) [OF assms(1-3), of ?i dec m dec] assms(5)
    by (simp_all add: NewEncryptedIndexSearcher_def)
  show ?thesis
    using again(1)
    by (simp add: server_main_def docs first newEncryptedSearchServer_def UploadXSetFilter_def again(2))
      (simp add: NewEncryptedIndexSearcher_def TSetSearch_def)
qed

theorem server_restart_witness:
  "\<exists>srv2 docGs (indexGs :: launched list). server_main mem_bolt (\<lambda>_. Some ()) 3 6
      (indexDb (srv_index (snd (UploadXSetFilter mem_bolt (\<lambda>_. Some ()) [7]
        (fst (server_main mem_bolt (\<lambda>_. Some ()) 3 6 Map.empty)))))) = (srv2, docGs, indexGs) \<and> indexGs = []"
proof -
  let ?main = "server_main mem_bolt (\<lambda>_. Some ()) 3 6"
  obtain srv docGs indexGs where 1: "?main Map.empty = (srv, docGs, indexGs :: launched list)"
    by (metis prod_cases3)
  obtain srv2 docGs2 indexGs2 where 2: "?main (indexDb (srv_index (snd (UploadXSetFilter mem_bolt (\<lambda>_. Some ()) [7] srv)))) =
      (srv2, docGs2, indexGs2 :: launched list)"
    by (metis prod_cases3)
  have "\<not> op_bucket mem_bolt Map.empty [indexBucketKey]" "\<forall>k. \<not> op_bucket mem_bolt Map.empty [indexBucketKey, k]"
    by (simp_all add: mem_bucket_def)
  from server_restart [OF bolt_doc_mem bolt_commits_mem _ this, of "[7]" "\<lambda>_. Some ()" 3 6] 1 2
  show ?thesis by (simp add: Let_def)
qed

end
