(* ===== verification/DocEncrypter.thy ===== *)
theory DocEncrypter
  imports Corpus WorkerPool DocDatabase
begin

text \<open>
  The document streamer of \<open>client_proxy/doc_encrypter.go\<close>: \<open>docEncrypter\<close>, \<open>docUploader\<close> and the
  closing of their channel (the pool of \<open>WorkerPool\<close> without a \<open>sync.Once\<close>).  \<open>snacl.CryptoKey\<close> is a
  parameter: encryption under a key with the nonce drawn for the call, and decryption.
\<close>

record crypto_lib =
  ck_encrypt :: "bytes \<Rightarrow> nat \<Rightarrow> bytes \<Rightarrow> bytes option"
  ck_decrypt :: "bytes \<Rightarrow> bytes \<Rightarrow> bytes option"

text \<open>Documented: what was encrypted decrypts under the same key, the ciphertext 40 bytes longer.\<close>

definition crypto_doc :: "crypto_lib \<Rightarrow> bool" where
  "crypto_doc C \<longleftrightarrow> (\<forall>k r m c. ck_encrypt C k r m = Some c \<longrightarrow>
     ck_decrypt C k c = Some m \<and> length c = length m + 40)"

record encryptedDoc =
  cipherText :: bytes
  enc_DocId :: u32

datatype enc_event = EncSend encryptedDoc | EncAbort | EncClose

text \<open>\<open>doc.Seek(1, 0)\<close>: offset 1 from the start of the file.\<close>

definition Seek :: "nat \<Rightarrow> document \<Rightarrow> document" where
  "Seek off doc = doc\<lparr>doc_file := map_option (\<lambda>(c, _). (c, off)) (doc_file doc)\<rparr>"

definition docEncrypter_doc :: "crypto_lib \<Rightarrow> bytes \<Rightarrow> nat \<Rightarrow> document \<Rightarrow> enc_event list" where
  "docEncrypter_doc C docKey r doc =
     (let (data, doc') = copy_file (Seek 1 doc);
          plainBuffer = (case data of None \<Rightarrow> [] | Some b \<Rightarrow> b);
          cipherDoc = ck_encrypt C docKey r plainBuffer
      in (if data = None then [EncAbort] else []) @
         (if doc_file doc' = None then [EncAbort] else []) @
         (if cipherDoc = None then [EncAbort] else []) @
         [EncSend \<lparr>cipherText = (case cipherDoc of None \<Rightarrow> [] | Some c \<Rightarrow> c), enc_DocId = doc_id doc\<rparr>])"

text \<open>One worker over the documents it takes, the nonces drawn as \<open>r\<close>, \<open>r + 1\<close>, ...\<close>

fun docEncrypter :: "crypto_lib \<Rightarrow> bytes \<Rightarrow> nat \<Rightarrow> document list \<Rightarrow> enc_event list" where
  "docEncrypter C docKey r [] = [EncClose]"
| "docEncrypter C docKey r (doc # docs) = docEncrypter_doc C docKey r doc @ docEncrypter C docKey (r + 1) docs"

datatype upload_event = UpSend CipherDoc | UpCloseSend | UpAbort

text \<open>The uploader: a stream that failed to open is nil, and sending on it panics.\<close>

fun docUploader_loop :: "bool \<Rightarrow> (CipherDoc \<Rightarrow> bool) \<Rightarrow> encryptedDoc list \<Rightarrow> upload_event list go" where
  "docUploader_loop stream sendOk [] = (if stream then Inr [UpCloseSend] else Inl NilDereference)"
| "docUploader_loop stream sendOk (doc # docs) =
     (let cipherDoc = \<lparr>DocId = enc_DocId doc, EncryptedDoc = cipherText doc\<rparr>
      in if \<not> stream then Inl NilDereference
         else gbind (docUploader_loop stream sendOk docs) (\<lambda>evs.
           Inr (UpSend cipherDoc # (if sendOk cipherDoc then [] else [UpAbort]) @ evs)))"

definition docUploader :: "bool \<Rightarrow> (CipherDoc \<Rightarrow> bool) \<Rightarrow> encryptedDoc list \<Rightarrow> upload_event list go" where
  "docUploader streamOk sendOk docs =
     gbind (docUploader_loop streamOk sendOk docs) (\<lambda>evs. Inr ((if streamOk then [] else [UpAbort]) @ evs))"

section \<open>Lemmas\<close>

fun enc_sent :: "enc_event list \<Rightarrow> encryptedDoc list" where
  "enc_sent [] = []" | "enc_sent (EncSend d # es) = d # enc_sent es" | "enc_sent (_ # es) = enc_sent es"

fun up_sent :: "upload_event list \<Rightarrow> CipherDoc list" where
  "up_sent [] = []" | "up_sent (UpSend d # es) = d # up_sent es" | "up_sent (_ # es) = up_sent es"

lemma enc_sent_append [simp]: "enc_sent (a @ b) = enc_sent a @ enc_sent b"
  by (induction a rule: enc_sent.induct) simp_all

lemma up_sent_append [simp]: "up_sent (a @ b) = up_sent a @ up_sent b"
  by (induction a rule: up_sent.induct) simp_all

lemma docUploader_sends:
  "\<exists>evs. docUploader True sendOk docs = Inr evs \<and>
     up_sent evs = map (\<lambda>d. \<lparr>DocId = enc_DocId d, EncryptedDoc = cipherText d\<rparr>) docs"
proof -
  have "\<exists>evs. docUploader_loop True sendOk docs = Inr evs \<and>
     up_sent evs = map (\<lambda>d. \<lparr>DocId = enc_DocId d, EncryptedDoc = cipherText d\<rparr>) docs"
  proof (induction docs)
    case Nil
    show ?case by simp
  next
    case (Cons d docs)
    then obtain evs where "docUploader_loop True sendOk docs = Inr evs"
      "up_sent evs = map (\<lambda>d. \<lparr>DocId = enc_DocId d, EncryptedDoc = cipherText d\<rparr>) docs" by blast
    then show ?case by (simp add: Let_def)
  qed
  then show ?thesis by (auto simp: docUploader_def)
qed

text \<open>An opened file, wherever its offset stands.\<close>

lemma docEncrypter_doc_open:
  assumes "doc_file doc = Some (c, off)" and "ck_encrypt C k r (drop 1 c) = Some e"
  shows "docEncrypter_doc C k r doc = [EncSend \<lparr>cipherText = e, enc_DocId = doc_id doc\<rparr>]"
  using assms by (simp add: docEncrypter_doc_def Seek_def copy_file_def)

lemma docEncrypter_sends:
  assumes "\<And>r m. ck_encrypt C k r m \<noteq> None" and "\<forall>d \<in> set docs. doc_file d \<noteq> None"
  shows "docEncrypter C k r docs =
    map (\<lambda>i. EncSend \<lparr>cipherText = the (ck_encrypt C k (r + i) (drop 1 (fst (the (doc_file (docs ! i)))))),
                      enc_DocId = doc_id (docs ! i)\<rparr>) [0..<length docs] @ [EncClose]"
  using assms(2)
proof (induction docs arbitrary: r)
  case Nil
  show ?case by simp
next
  case (Cons d docs)
  obtain c off where d: "doc_file d = Some (c, off)" using Cons.prems by auto
  obtain e where e: "ck_encrypt C k r (drop 1 c) = Some e" using assms(1) by blast
  have "[0..<length (d # docs)] = 0 # map Suc [0..<length docs]"
    by (simp add: upt_conv_Cons map_Suc_upt del: upt_Suc)
  with Cons.IH [of "r + 1"] Cons.prems show ?case
    by (simp add: docEncrypter_doc_open [OF d e] d e [simplified] o_def del: upt_Suc)
qed

section \<open>Properties\<close>

text \<open>The streamer drops the first byte of every document.  It re-reads a file from offset 1, not
  from its start: what it sends, for every document that opened, in order and under its ID,
  decrypts to the contents without the first byte; nothing is aborted.\<close>

theorem docEncrypter_loses_first_byte:
  assumes "crypto_doc C" and "\<forall>r m. ck_encrypt C docKey r m \<noteq> None" and "\<forall>d \<in> set docs. doc_file d \<noteq> None"
  shows "\<exists>es. docEncrypter C docKey r docs = map EncSend es @ [EncClose] \<and>
    map enc_DocId es = map doc_id docs \<and>
    map (\<lambda>e. ck_decrypt C docKey (cipherText e)) es = map (\<lambda>d. Some (drop 1 (fst (the (doc_file d))))) docs"
proof -
  let ?e = "\<lambda>i. \<lparr>cipherText = the (ck_encrypt C docKey (r + i) (drop 1 (fst (the (doc_file (docs ! i)))))),
                 enc_DocId = doc_id (docs ! i)\<rparr>"
  have dec: "ck_decrypt C docKey (the (ck_encrypt C docKey r m)) = Some m" for r m
    using assms(1,2) unfolding crypto_doc_def by (metis option.collapse)
  have "docEncrypter C docKey r docs = map EncSend (map ?e [0..<length docs]) @ [EncClose]"
    using docEncrypter_sends [of C docKey docs r] assms(2,3) by simp
  moreover have "map enc_DocId (map ?e [0..<length docs]) = map doc_id docs"
    by (rule nth_equalityI) simp_all
  moreover have "map (\<lambda>e. ck_decrypt C docKey (cipherText e)) (map ?e [0..<length docs]) =
      map (\<lambda>d. Some (drop 1 (fst (the (doc_file d))))) docs"
    by (rule nth_equalityI) (simp_all add: dec)
  ultimately show ?thesis by blast
qed

text \<open>A concrete library with the documented behaviour, for the witnesses.\<close>

definition demo_crypto :: crypto_lib where
  "demo_crypto =
     \<lparr>ck_encrypt = (\<lambda>k r m. Some (m @ replicate 40 0)),
      ck_decrypt = (\<lambda>k c. if length c < 40 then None else Some (take (length c - 40) c))\<rparr>"

lemma crypto_doc_demo [simp]: "crypto_doc demo_crypto"
  by (auto simp: crypto_doc_def demo_crypto_def)

lemma demo_crypto_encrypts: "\<forall>r m. ck_encrypt demo_crypto k r m \<noteq> None"
  by (simp add: demo_crypto_def)

theorem docEncrypter_loses_first_byte_witness:
  "\<exists>e. docEncrypter demo_crypto [] 0 [\<lparr>doc_file = Some ([65, 66], 2), doc_id = 1\<rparr>] = [EncSend e, EncClose] \<and>
     enc_DocId e = 1 \<and> ck_decrypt demo_crypto [] (cipherText e) = Some [66]"
  using docEncrypter_loses_first_byte [OF crypto_doc_demo demo_crypto_encrypts,
      of "[\<lparr>doc_file = Some ([65, 66], 2), doc_id = 1\<rparr>]" "[]" 0]
  by (auto simp: map_eq_Cons_conv simp del: docEncrypter.simps)

text \<open>C26: Closing the streamer's channel.  Every run of the encrypters ends.  A single one never panics,
  and however far it has come its run ends with every document sent and the channel closed; with two or
  more, whatever the corpus, a run exists in which all documents are sent and
  the second encrypter to leave closes the closed channel and panics, and, if there is a document
  at all, one in which a document is sent on the closed channel.\<close>

theorem docEncrypter_pool:
  "wf {(t, s). pool_step False s t} \<and>
   (\<forall>s. pool_reach False 1 docs s \<longrightarrow> pl_panic s = None \<and> (pl_closed s \<longrightarrow> pl_sent s = docs) \<and>
      (\<exists>t. (pool_step False)\<^sup>*\<^sup>* s t \<and> pl_closed t \<and> pl_sent t = docs \<and> pl_panic t = None)) \<and>
   (\<exists>s. pool_reach False (Suc (Suc n)) docs s \<and> pl_sent s = docs \<and> pl_panic s = Some CloseOfClosedChannel) \<and>
   (\<exists>s. pool_reach False (Suc (Suc n)) (Suc docs) s \<and> pl_panic s = Some SendOnClosedChannel)"
  using pool_wf pool_one_worker pool_one_completes pool_double_close pool_send_on_closed by blast

theorem docEncrypter_pool_witness:
  "\<exists>s. pool_reach False 1 1 s \<and> pl_panic s = None \<and> pl_sent s = 1 \<and> pl_closed s"
proof -
  let ?s = "\<lparr>pl_queue = 0, pl_idle = 1, pl_busy = 0, pl_sent = 1, pl_closed = False, pl_panic = None\<rparr>"
  have "(pool_step False)\<^sup>*\<^sup>* (pool_init (Suc 0) 1) ?s" using pool_process [of False 0 1 0] by simp
  also have "pool_step False ?s (?s\<lparr>pl_idle := 0, pl_closed := True\<rparr>)"
    using pool_step.leave [of ?s False True] by simp
  finally have r: "pool_reach False 1 1 (?s\<lparr>pl_idle := 0, pl_closed := True\<rparr>)"
    by (simp add: pool_reach_def)
  from docEncrypter_pool [of 1] r show ?thesis by (intro exI [of _ "?s\<lparr>pl_idle := 0, pl_closed := True\<rparr>"]) simp
qed

end
