(* ===== verification/KeyManager.thy ===== *)
theory KeyManager
  imports Keys Sha512 Bolt
begin

text \<open>
  The key manager of \<open>client_proxy/key_manager.go\<close>: the derivation of the child keys from the
  master key, their encrypted storage and recovery, and the request handler behind the \<open>Fetch\<close>
  functions.  snacl (scrypt and secretbox) is a parameter with its documented laws.
\<close>

section \<open>The snacl interface\<close>

text \<open>
  \<open>newSecretKey r pass\<close>: a fresh secret key from the salt drawn as \<open>r\<close>.  \<open>skEncrypt k r m\<close>: with the
  nonce drawn as \<open>r\<close>.  \<open>None\<close> is an error.
\<close>

record 'k snacl =
  newSecretKey :: "nat \<Rightarrow> bytes \<Rightarrow> 'k option"
  skKey :: "'k \<Rightarrow> bytes"
  skMarshal :: "'k \<Rightarrow> bytes"
  skUnmarshal :: "bytes \<Rightarrow> 'k option"
  skDeriveKey :: "'k \<Rightarrow> bytes \<Rightarrow> 'k option"
  skEncrypt :: "'k \<Rightarrow> nat \<Rightarrow> bytes \<Rightarrow> bytes option"
  skDecrypt :: "'k \<Rightarrow> bytes \<Rightarrow> bytes option"

text \<open>
  Documented: keys have 32 bytes; the marshalled parameters (88 bytes) re-derive the key from the
  same passphrase and from no other; ciphertexts are 40 bytes longer than the text and decrypt to
  it; an empty input is malformed.
\<close>

definition snacl_doc :: "'k snacl \<Rightarrow> bool" where
  "snacl_doc S \<longleftrightarrow>
     (\<forall>r pass k. newSecretKey S r pass = Some k \<longrightarrow>
        length (skKey S k) = 32 \<and> length (skMarshal S k) = 88 \<and>
        (\<exists>k0. skUnmarshal S (skMarshal S k) = Some k0 \<and> skDeriveKey S k0 pass = Some k \<and>
              (\<forall>pass'. pass' \<noteq> pass \<longrightarrow> skDeriveKey S k0 pass' = None))) \<and>
     (\<forall>k r m c. skEncrypt S k r m = Some c \<longrightarrow>
        length c = length m + 40 \<and> skDecrypt S k c = Some m) \<and>
     skUnmarshal S [] = None \<and> (\<forall>k. skDecrypt S k [] = None)"

datatype km_error = SnaclError | KmBoltError bolt_error

section \<open>Deriving the child keys\<close>

text \<open>\<open>copy\<close> into a 32-byte array: zero padded, cut at 32.\<close>

definition copy_key :: "bytes \<Rightarrow> bytes" where
  "copy_key bs = take keySize (bs @ replicate keySize 0)"

definition deriveChildren :: "bytes \<Rightarrow> bytes list" where
  "deriveChildren parent =
     (let nextLevel = sha512 parent;
          childA = copy_key (drop keySize nextLevel);
          childB = copy_key (take keySize nextLevel)
      in [childA, childB])"

lemma length_deriveChildren [simp]: "length (deriveChildren p) = 2"
  by (simp add: deriveChildren_def Let_def)

function derive_loop :: "nat \<Rightarrow> nat \<Rightarrow> bytes list \<Rightarrow> bytes list \<Rightarrow> bytes list go" where
  "derive_loop numTargetKids numDerived parentQueue childKeys =
     (if numDerived < numTargetKids then
        (case parentQueue of
           [] \<Rightarrow> Inl IndexOutOfRange
         | currentParent # rest \<Rightarrow>
             let derivedKeys = deriveChildren currentParent
             in derive_loop numTargetKids (numDerived + length derivedKeys) (rest @ derivedKeys)
                  (childKeys @ derivedKeys))
      else Inr childKeys)"
  by pat_completeness auto
termination
  by (relation "measure (\<lambda>(t, n, _, _). t - n)") auto

declare derive_loop.simps [simp del]

definition inverseHashTreeKeyDerivation :: "bytes \<Rightarrow> nat \<Rightarrow> bytes list go" where
  "inverseHashTreeKeyDerivation masterKey numTargetKids =
     derive_loop numTargetKids 0 [masterKey] []"

section \<open>Storing and loading\<close>

fun encrypt_from :: "'k snacl \<Rightarrow> 'k \<Rightarrow> nat \<Rightarrow> bytes list \<Rightarrow> bytes list option" where
  "encrypt_from S masterKey r [] = Some []"
| "encrypt_from S masterKey r (key # keys) =
     (case skEncrypt S masterKey r key of
        None \<Rightarrow> None
      | Some ec \<Rightarrow> (case encrypt_from S masterKey (r + 1) keys of
            None \<Rightarrow> None
          | Some ecs \<Rightarrow> Some (ec # ecs)))"

definition encryptChildKeys :: "'k snacl \<Rightarrow> 'k \<Rightarrow> nat \<Rightarrow> bytes list \<Rightarrow> bytes list option" where
  "encryptChildKeys S masterKey r serializedKeys = encrypt_from S masterKey r serializedKeys"

fun store_keys :: "'s bolt_ops \<Rightarrow> bytes list \<Rightarrow> nat list \<Rightarrow> 's \<Rightarrow> (bolt_error + 's) go" where
  "store_keys B keys [] s = Inr (Inr s)"
| "store_keys B keys (i # is) s =
     gbind (slice_at keys i) (\<lambda>key.
       case op_put B s [cryptoKeyBucket] (keyToBoltKey (KeyType_of i)) key of
         Inl e \<Rightarrow> Inr (Inl e)
       | Inr s' \<Rightarrow> store_keys B keys is s')"

definition storeEncryptedKeys :: "'s bolt_ops \<Rightarrow> bytes list \<Rightarrow> 's \<Rightarrow> (bolt_error + 's) go" where
  "storeEncryptedKeys B keys s = store_keys B keys [0..<numKeys] s"

text \<open>A key that does not decrypt ends the loading, without an error.\<close>

fun load_keys :: "'s bolt_ops \<Rightarrow> 'k snacl \<Rightarrow> 's \<Rightarrow> 'k \<Rightarrow> nat list \<Rightarrow> keyMap \<Rightarrow> keyMap" where
  "load_keys B S s masterKey [] m = m"
| "load_keys B S s masterKey (i # is) m =
     (let stored = (case op_get B s [cryptoKeyBucket] (keyToBoltKey (KeyType_of i)) of
                      None \<Rightarrow> [] | Some v \<Rightarrow> v)
      in case skDecrypt S masterKey stored of
           None \<Rightarrow> m
         | Some decryptedKey \<Rightarrow>
             load_keys B S s masterKey is (m(KeyType_of i \<mapsto> copy_key decryptedKey)))"

definition loadDBKeys :: "'s bolt_ops \<Rightarrow> 'k snacl \<Rightarrow> 's \<Rightarrow> 'k \<Rightarrow> keyMap \<Rightarrow> keyMap" where
  "loadDBKeys B S s masterKey m = load_keys B S s masterKey [0..<numKeys] m"

definition performRegularSetup ::
    "'s bolt_ops \<Rightarrow> 'k snacl \<Rightarrow> bytes \<Rightarrow> 's \<Rightarrow> keyMap \<Rightarrow> km_error option \<times> keyMap" where
  "performRegularSetup B S passphrase s m =
     (let masterKeyParams = (case op_get B s [cryptoKeyBucket] masterKeyName of None \<Rightarrow> [] | Some v \<Rightarrow> v)
      in case skUnmarshal S masterKeyParams of
           None \<Rightarrow> (Some SnaclError, m)
         | Some masterKey \<Rightarrow> (case skDeriveKey S masterKey passphrase of
               None \<Rightarrow> (Some SnaclError, m)
             | Some masterKey \<Rightarrow> (None, loadDBKeys B S s masterKey m)))"

fun update_keys :: "bytes list \<Rightarrow> nat list \<Rightarrow> keyMap \<Rightarrow> keyMap go" where
  "update_keys keys [] m = Inr m"
| "update_keys keys (i # is) m =
     gbind (slice_at keys i) (\<lambda>key. update_keys keys is (m(KeyType_of i \<mapsto> key)))"

definition updateKeyMap :: "bytes list \<Rightarrow> keyMap \<Rightarrow> keyMap go" where
  "updateKeyMap keys m = update_keys keys [0..<numKeys] m"

text \<open>\<open>CreateBucket\<close> fails on an existing bucket.  A failing write of the master parameters ends the
  transaction without an error, hence with a commit.\<close>

definition initialSetup_tx :: "'s bolt_ops \<Rightarrow> bytes \<Rightarrow> bytes list \<Rightarrow> 's \<Rightarrow> (bolt_error + 's) go" where
  "initialSetup_tx B serializedMasterKey encryptedKeys s =
     (if op_bucket B s [cryptoKeyBucket] then Inr (Inl BoltError)
      else case op_create B True s [cryptoKeyBucket] of
        Inl e \<Rightarrow> Inr (Inl e)
      | Inr s' \<Rightarrow> (case op_put B s' [cryptoKeyBucket] masterKeyName serializedMasterKey of
            Inl e \<Rightarrow> Inr (Inr s')
          | Inr s'' \<Rightarrow> storeEncryptedKeys B encryptedKeys s''))"

definition performInitialSetup ::
    "'s bolt_ops \<Rightarrow> 'k snacl \<Rightarrow> nat \<Rightarrow> bytes \<Rightarrow> 's \<Rightarrow> keyMap \<Rightarrow> (km_error option \<times> 's \<times> keyMap) go" where
  "performInitialSetup B S r passphrase s m =
     (case newSecretKey S r passphrase of
        None \<Rightarrow> Inr (Some SnaclError, s, m)
      | Some masterKey \<Rightarrow>
          gbind (inverseHashTreeKeyDerivation (copy_key (skKey S masterKey)) numKeys) (\<lambda>childKeys.
            case encryptChildKeys S masterKey r childKeys of
              None \<Rightarrow> Inr (Some SnaclError, s, m)
            | Some encryptedKeys \<Rightarrow>
                gbind (initialSetup_tx B (skMarshal S masterKey) encryptedKeys s) (\<lambda>result.
                  case db_update B (\<lambda>_. result) s of
                    (Some e, s') \<Rightarrow> Inr (Some (KmBoltError BoltError), s', m)
                  | (None, s') \<Rightarrow> gbind (updateKeyMap childKeys m) (\<lambda>m'. Inr (None, s', m')))))"

text \<open>\<open>NewKeyManager\<close>: the error, the database afterwards and the keys in memory.\<close>

definition NewKeyManager ::
    "'s bolt_ops \<Rightarrow> 'k snacl \<Rightarrow> nat \<Rightarrow> bytes \<Rightarrow> 's \<Rightarrow> (km_error option \<times> 's \<times> keyMap) go" where
  "NewKeyManager B S r passphrase s =
     (let found = op_bucket B s [cryptoKeyBucket]
      in if \<not> found then performInitialSetup B S r passphrase s Map.empty
         else let (err, m) = performRegularSetup B S passphrase s Map.empty in Inr (err, s, m))"

section \<open>Answering requests\<close>

text \<open>A request has no error channel (nil) unless its sender makes one; sending on a nil channel
  blocks the handler for good, and with it every later request.\<close>

record keyRequestMessage =
  whichKey :: KeyType
  hasErrChan :: bool

datatype key_reply = KeyReply bytes | KeyError | NoReply

fun requestHandler :: "keyMap \<Rightarrow> keyRequestMessage list \<Rightarrow> key_reply list" where
  "requestHandler m [] = []"
| "requestHandler m (keyReq # reqs) =
     (case m (whichKey keyReq) of
        Some targetKey \<Rightarrow> KeyReply targetKey # requestHandler m reqs
      | None \<Rightarrow>
          if hasErrChan keyReq then KeyError # requestHandler m reqs
          else replicate (Suc (length reqs)) NoReply)"

definition FetchDocEncKey :: keyRequestMessage where
  "FetchDocEncKey = \<lparr>whichKey = WTrapKey, hasErrChan = False\<rparr>"

definition FetchWTrapKey :: keyRequestMessage where
  "FetchWTrapKey = \<lparr>whichKey = WTrapKey, hasErrChan = False\<rparr>"

definition FetchXTagKey :: keyRequestMessage where
  "FetchXTagKey = \<lparr>whichKey = XTagKey, hasErrChan = False\<rparr>"

definition FetchXIndKey :: keyRequestMessage where
  "FetchXIndKey = \<lparr>whichKey = XIndKey, hasErrChan = False\<rparr>"

definition FetchDHBlindKey :: keyRequestMessage where
  "FetchDHBlindKey = \<lparr>whichKey = DHBlindKey, hasErrChan = False\<rparr>"

definition FetchSTagKey :: keyRequestMessage where
  "FetchSTagKey = \<lparr>whichKey = STagKey, hasErrChan = False\<rparr>"

section \<open>Lemmas: the hash tree\<close>

text \<open>The tree in heap order: node 0 is the master key, and node \<open>i\<close> has the children \<open>2 i + 1\<close>
  and \<open>2 i + 2\<close>, the second and the first half of its digest.\<close>

fun tree_node :: "bytes \<Rightarrow> nat \<Rightarrow> bytes" where
  "tree_node mk n =
     (if n = 0 then mk
      else (let d = sha512 (tree_node mk ((n - 1) div 2))
            in if odd n then drop 32 d else take 32 d))"

declare tree_node.simps [simp del]

lemma tree_node_0 [simp]: "tree_node mk 0 = mk"
  by (simp add: tree_node.simps)

lemma copy_key_32 [simp]: "length bs = 32 \<Longrightarrow> copy_key bs = bs"
  by (simp add: copy_key_def keySize_def)

lemma deriveChildren_node:
  "deriveChildren (tree_node mk i) = [tree_node mk (2 * i + 1), tree_node mk (2 * i + 2)]"
  by (simp add: deriveChildren_def Let_def keySize_def tree_node.simps [of mk "Suc (2 * i)"]
      tree_node.simps [of mk "Suc (Suc (2 * i))"])

lemma length_tree_node: "length mk = 32 \<Longrightarrow> length (tree_node mk n) = 32"
  by (cases "n = 0") (simp_all add: tree_node.simps [of mk n] Let_def)

lemma derive_loop_step:
  "n < t \<Longrightarrow> derive_loop t n (p # q) ks =
     derive_loop t (n + 2) (q @ deriveChildren p) (ks @ deriveChildren p)"
  by (subst derive_loop.simps) (simp add: Let_def)

text \<open>After \<open>i\<close> rounds the queue is nodes \<open>i .. 2 i\<close> and the keys are nodes \<open>1 .. 2 i\<close>.\<close>

lemma derive_loop_nodes:
  "derive_loop t (2 * i) (map (tree_node mk) [i..<2 * i + 1]) (map (tree_node mk) [1..<2 * i + 1]) =
     Inr (map (tree_node mk) [1..<2 * max i ((t + 1) div 2) + 1])"
proof (induction "t - i" arbitrary: i rule: less_induct)
  case less
  show ?case
  proof (cases "2 * i < t")
    case True
    have q: "map (tree_node mk) [i..<2 * i + 1] = tree_node mk i # map (tree_node mk) [Suc i..<2 * i + 1]"
      by (simp add: upt_conv_Cons del: upt_Suc)
    have up: "map (tree_node mk) [k..<2 * i + 1] @ deriveChildren (tree_node mk i) =
        map (tree_node mk) [k..<2 * Suc i + 1]" if "k \<le> 2 * i + 1" for k
      using that by (simp add: deriveChildren_node)
    have "derive_loop t (2 * i) (map (tree_node mk) [i..<2 * i + 1]) (map (tree_node mk) [1..<2 * i + 1]) =
        derive_loop t (2 * Suc i) (map (tree_node mk) [Suc i..<2 * Suc i + 1])
          (map (tree_node mk) [1..<2 * Suc i + 1])"
      unfolding q derive_loop_step [OF True] by (subst (1 2) up) simp_all
    moreover have "max (Suc i) ((t + 1) div 2) = max i ((t + 1) div 2)"
      using True by simp
    ultimately show ?thesis using less [of "Suc i"] True by simp
  next
    case False
    then have "max i ((t + 1) div 2) = i" by simp
    with False show ?thesis by (subst derive_loop.simps) simp
  qed
qed

lemma inverseHashTree_nodes:
  "inverseHashTreeKeyDerivation mk n = Inr (map (tree_node mk) [1..<2 * ((n + 1) div 2) + 1])"
  using derive_loop_nodes [of n 0 mk] by (simp add: inverseHashTreeKeyDerivation_def)

section \<open>Lemmas: storing and loading\<close>

lemma snacl_key:
  assumes "snacl_doc S" and "newSecretKey S r pass = Some k"
  shows "length (skKey S k) = 32" and "length (skMarshal S k) = 88"
    and "\<exists>k0. skUnmarshal S (skMarshal S k) = Some k0 \<and> skDeriveKey S k0 pass = Some k \<and>
              (\<forall>pass'. pass' \<noteq> pass \<longrightarrow> skDeriveKey S k0 pass' = None)"
  using assms unfolding snacl_doc_def by blast+

lemma snacl_encrypt:
  assumes "snacl_doc S" and "skEncrypt S k r m = Some c"
  shows "length c = length m + 40" and "skDecrypt S k c = Some m"
  using assms unfolding snacl_doc_def by blast+

lemma encrypt_from_ok:
  assumes "snacl_doc S" and "\<And>n m. skEncrypt S mk n m \<noteq> None"
  shows "\<exists>ecs. encrypt_from S mk r keys = Some ecs \<and>
    list_all2 (\<lambda>e k. length e = length k + 40 \<and> skDecrypt S mk e = Some k) ecs keys"
proof (induction keys arbitrary: r)
  case Nil
  then show ?case by simp
next
  case (Cons k keys)
  obtain e where e: "skEncrypt S mk r k = Some e" using assms(2) by blast
  obtain ecs where "encrypt_from S mk (r + 1) keys = Some ecs"
    "list_all2 (\<lambda>e k. length e = length k + 40 \<and> skDecrypt S mk e = Some k) ecs keys"
    using Cons by blast
  with e snacl_encrypt [OF assms(1) e] show ?case by simp
qed

text \<open>The key map a list of keys gives, by either route.\<close>

fun enter_keys :: "bytes list \<Rightarrow> nat list \<Rightarrow> keyMap \<Rightarrow> keyMap" where
  "enter_keys keys [] m = m"
| "enter_keys keys (i # is) m = enter_keys keys is (m(KeyType_of i \<mapsto> keys ! i))"

lemma update_keys_enter:
  "\<forall>i \<in> set is. i < length keys \<Longrightarrow> update_keys keys is m = Inr (enter_keys keys is m)"
  by (induction "is" arbitrary: m) simp_all

lemma load_keys_enter:
  assumes "\<forall>i \<in> set is. \<exists>c. op_get B s [cryptoKeyBucket] (keyToBoltKey (KeyType_of i)) = Some c \<and>
      skDecrypt S mk c = Some (keys ! i) \<and> length (keys ! i) = 32"
  shows "load_keys B S s mk is m = enter_keys keys is m"
  using assms by (induction "is" arbitrary: m) (auto simp: Let_def)

lemma enter_keys_all:
  "enter_keys keys [0..<numKeys] Map.empty k = (if k = PermuteTweak then None else Some (keys ! key_index k))"
proof -
  have "[0..<numKeys] = [0, 1, 2, 3, 4, 5]" by (simp add: numKeys_def upt_rec)
  then have "enter_keys keys [0..<numKeys] Map.empty =
      [WTrapKey \<mapsto> keys ! 0, XTagKey \<mapsto> keys ! 1, XIndKey \<mapsto> keys ! 2, DHBlindKey \<mapsto> keys ! 3,
       STagKey \<mapsto> keys ! 4, DocEncKey \<mapsto> keys ! 5]"
    by (simp add: KeyType_of.simps)
  then show ?thesis by (cases k) simp_all
qed

definition key_entries :: "bytes list \<Rightarrow> nat list \<Rightarrow> (bytes \<times> bytes) list" where
  "key_entries ecs is = map (\<lambda>i. (keyToBoltKey (KeyType_of i), ecs ! i)) is"

lemma store_keys_puts:
  assumes "bolt_doc B" and "bucket_ok B [cryptoKeyBucket] s"
    and "\<forall>i \<in> set is. i < length ecs \<and> bolt_fits (keyToBoltKey (KeyType_of i)) (ecs ! i)"
  shows "store_keys B ecs is s =
      Inr (Inr (kv_store.puts (bucket_put B [cryptoKeyBucket]) s (key_entries ecs is)))"
  using assms(2,3)
proof (induction "is" arbitrary: s)
  case Nil
  then show ?case by (simp add: key_entries_def kv_store.puts_def [OF kv_bucket [OF assms(1)]])
next
  case (Cons i "is")
  let ?k = "keyToBoltKey (KeyType_of i)"
  have fits: "bolt_fits ?k (ecs ! i)" using Cons.prems by simp
  have "bucket_ok B [cryptoKeyBucket] (bucket_put B [cryptoKeyBucket] s ?k (ecs ! i))"
    by (rule kv_store.ok_put [OF kv_bucket [OF assms(1)] Cons.prems(1) fits])
  with Cons bucket_put_Inr [OF assms(1) Cons.prems(1) fits] show ?case
    by (simp add: key_entries_def kv_store.puts_def [OF kv_bucket [OF assms(1)]])
qed

lemma key_names_distinct: "distinct (map fst (key_entries ecs [0..<numKeys]))"
proof -
  have "inj_on (\<lambda>i. keyToBoltKey (KeyType_of i)) {0..<numKeys}"
    by (intro inj_onI) (metis KeyType_of_inj atLeastLessThan_iff injD [OF keyToBoltKey_inj])
  then show ?thesis by (simp add: key_entries_def distinct_map o_def)
qed

lemma KeyType_of_named: "i < numKeys \<Longrightarrow> KeyType_of i \<noteq> PermuteTweak"
  by (simp add: numKeys_def KeyType_of.simps)

lemma keyToBoltKey_short: "length (keyToBoltKey k) \<le> 7"
  by (cases k) simp_all

text \<open>What the first setup leaves in the database.\<close>

lemma initialSetup_stored:
  assumes doc: "bolt_doc B" and "bolt_commits B"
    and "\<not> op_bucket B s [cryptoKeyBucket]" and "\<forall>k. \<not> op_bucket B s [cryptoKeyBucket, k]"
    and "length params = 88" and "length ecs = numKeys" and "\<forall>c \<in> set ecs. length c = 72"
  shows "\<exists>r s'. initialSetup_tx B params ecs s = Inr r \<and> db_update B (\<lambda>_. r) s = (None, s') \<and>
    op_bucket B s' [cryptoKeyBucket] \<and>
    op_get B s' [cryptoKeyBucket] masterKeyName = Some params \<and>
    (\<forall>i < numKeys. op_get B s' [cryptoKeyBucket] (keyToBoltKey (KeyType_of i)) = Some (ecs ! i))"
proof -
  let ?p = "[cryptoKeyBucket]"
  note kv = kv_bucket [OF doc, of ?p]
  have name: "cryptoKeyBucket \<noteq> []" by (simp add: cryptoKeyBucket_def)
  obtain s1 where c: "op_create B True s ?p = Inr s1" using bolt_create_root [OF doc name] by blast
  note l1 = bolt_create_rw [OF doc c]
  have ok1: "bucket_ok B ?p s1" using l1(1) assms(4) by (auto simp: bucket_ok_def)
  have fm: "bolt_fits masterKeyName params"
    using assms(5) by (simp add: bolt_fits_def masterKeyName_def)
  let ?s2 = "bucket_put B ?p s1 masterKeyName params"
  have ok2: "bucket_ok B ?p ?s2" by (rule kv_store.ok_put [OF kv ok1 fm])
  have fk: "\<forall>i \<in> set [0..<numKeys]. i < length ecs \<and> bolt_fits (keyToBoltKey (KeyType_of i)) (ecs ! i)"
    using assms(6,7) keyToBoltKey_nonempty [OF KeyType_of_named] le_trans [OF keyToBoltKey_short]
    by (auto simp: bolt_fits_def)
  let ?es = "key_entries ecs [0..<numKeys]"
  let ?s3 = "kv_store.puts (bucket_put B ?p) ?s2 ?es"
  have tx: "initialSetup_tx B params ecs s = Inr (Inr ?s3)"
    by (simp add: initialSetup_tx_def assms(3) c bucket_put_Inr [OF doc ok1 fm] storeEncryptedKeys_def
        store_keys_puts [OF doc ok2 fk])
  obtain s4 where m: "op_commit B ?s3 = Inr s4" using assms(2) by (auto simp: bolt_commits_def)
  have fits: "\<forall>(k, v) \<in> set ?es. bolt_fits k v" using fk by (auto simp: key_entries_def)
  have "map_of (rev ?es) masterKeyName = None"
    using keyToBoltKey_not_master [THEN not_sym] by (auto simp: key_entries_def map_of_eq_None_iff)
  then have "op_get B ?s3 ?p masterKeyName = Some params"
    using kv_store.get_puts [OF kv ok2 fits, of masterKeyName] kv_store.get_put [OF kv ok1 fm]
    by simp
  moreover have "op_get B ?s3 ?p (keyToBoltKey (KeyType_of i)) = Some (ecs ! i)" if "i < numKeys" for i
    by (rule kv_store.get_puts_distinct [OF kv ok2 fits key_names_distinct])
      (use that in \<open>auto simp: key_entries_def\<close>)
  moreover have "bucket_ok B ?p ?s3" by (rule kv_store.ok_puts [OF kv ok2 fits])
  ultimately show ?thesis
    using bolt_commit [OF doc m] tx by (simp add: db_update_def m bucket_ok_def)
qed

text \<open>The first start: the keys in memory and what the database holds afterwards.\<close>

lemma first_setup:
  assumes "bolt_doc B" and "bolt_commits B" and "snacl_doc S"
    and "newSecretKey S r pass = Some mk" and "\<forall>n m. skEncrypt S mk n m \<noteq> None"
    and "\<not> op_bucket B s [cryptoKeyBucket]" and "\<forall>k. \<not> op_bucket B s [cryptoKeyBucket, k]"
  shows "\<exists>s'. NewKeyManager B S r pass s =
      Inr (None, s', enter_keys (map (tree_node (skKey S mk)) [1..<7]) [0..<numKeys] Map.empty) \<and>
    op_bucket B s' [cryptoKeyBucket] \<and> op_get B s' [cryptoKeyBucket] masterKeyName = Some (skMarshal S mk) \<and>
    (\<forall>i < numKeys. \<exists>ec. op_get B s' [cryptoKeyBucket] (keyToBoltKey (KeyType_of i)) = Some ec \<and>
       skDecrypt S mk ec = Some (map (tree_node (skKey S mk)) [1..<7] ! i) \<and>
       length (map (tree_node (skKey S mk)) [1..<7] ! i) = keySize)"
proof -
  note key = snacl_key [OF assms(3,4)]
  define ks where "ks = map (tree_node (skKey S mk)) [1..<7]"
  have d: "inverseHashTreeKeyDerivation (copy_key (skKey S mk)) numKeys = Inr ks"
    by (simp add: inverseHashTree_nodes key(1) numKeys_def ks_def)
  have lks: "length ks = numKeys" "\<And>i. i < numKeys \<Longrightarrow> ks ! i = tree_node (skKey S mk) (i + 1)"
    by (simp_all add: ks_def numKeys_def del: upt_Suc)
  obtain ecs where e: "encryptChildKeys S mk r ks = Some ecs"
    and all2: "list_all2 (\<lambda>e k. length e = length k + 40 \<and> skDecrypt S mk e = Some k) ecs ks"
    using encrypt_from_ok [OF assms(3), of mk r ks] assms(5) by (auto simp: encryptChildKeys_def)
  have lec: "length ecs = numKeys" using list_all2_lengthD [OF all2] lks(1) by simp
  have ec: "length (ecs ! i) = 72 \<and> skDecrypt S mk (ecs ! i) = Some (ks ! i) \<and> length (ks ! i) = keySize"
    if "i < numKeys" for i
    using list_all2_nthD [OF all2, of i] that lec lks(2) length_tree_node [OF key(1)] by (simp add: keySize_def)
  then have "\<forall>c \<in> set ecs. length c = 72" by (simp add: all_set_conv_all_nth lec)
  from initialSetup_stored [OF assms(1,2,6,7) key(2) lec this]
  obtain res s' where tx: "initialSetup_tx B (skMarshal S mk) ecs s = Inr res" "db_update B (\<lambda>_. res) s = (None, s')"
    and st: "op_bucket B s' [cryptoKeyBucket]" "op_get B s' [cryptoKeyBucket] masterKeyName = Some (skMarshal S mk)"
      "\<And>i. i < numKeys \<Longrightarrow> op_get B s' [cryptoKeyBucket] (keyToBoltKey (KeyType_of i)) = Some (ecs ! i)"
    by blast
  have "NewKeyManager B S r pass s = Inr (None, s', enter_keys ks [0..<numKeys] Map.empty)"
    by (simp add: NewKeyManager_def assms(6) performInitialSetup_def assms(4) d e tx updateKeyMap_def
        update_keys_enter lks(1))
  with st ec show ?thesis unfolding ks_def [symmetric] by blast
qed

text \<open>A later start on a database with stored keys.\<close>

lemma later_setup:
  assumes "op_bucket B s [cryptoKeyBucket]" and "op_get B s [cryptoKeyBucket] masterKeyName = Some params"
    and "skUnmarshal S params = Some k0"
  shows "skDeriveKey S k0 pass = Some mk \<Longrightarrow>
      (\<And>i. i < numKeys \<Longrightarrow> \<exists>ec. op_get B s [cryptoKeyBucket] (keyToBoltKey (KeyType_of i)) = Some ec \<and>
         skDecrypt S mk ec = Some (ks ! i) \<and> length (ks ! i) = keySize) \<Longrightarrow>
      NewKeyManager B S r pass s = Inr (None, s, enter_keys ks [0..<numKeys] Map.empty)"
    and "skDeriveKey S k0 pass = None \<Longrightarrow> NewKeyManager B S r pass s = Inr (Some SnaclError, s, Map.empty)"
proof -
  assume "skDeriveKey S k0 pass = Some mk"
    and "\<And>i. i < numKeys \<Longrightarrow> \<exists>ec. op_get B s [cryptoKeyBucket] (keyToBoltKey (KeyType_of i)) = Some ec \<and>
      skDecrypt S mk ec = Some (ks ! i) \<and> length (ks ! i) = keySize"
  moreover from this(2) have "loadDBKeys B S s mk Map.empty = enter_keys ks [0..<numKeys] Map.empty"
    unfolding loadDBKeys_def by (intro load_keys_enter) (fastforce simp: keySize_def)
  ultimately show "NewKeyManager B S r pass s = Inr (None, s, enter_keys ks [0..<numKeys] Map.empty)"
    by (simp add: NewKeyManager_def performRegularSetup_def assms)
qed (simp add: NewKeyManager_def performRegularSetup_def assms)

section \<open>Lemmas: the type of the key map\<close>

text \<open>Well-typed keys: 32 bytes under each of the stored key types, nothing under the tweak.\<close>

definition keys_typed :: "keyMap \<Rightarrow> bool" where
  "keys_typed m \<longleftrightarrow> keys_wf m \<and> m PermuteTweak = None"

lemma keys_typed_empty [simp]: "keys_typed Map.empty"
  by (simp add: keys_typed_def keys_wf_def)

lemma keys_typed_update: "keys_typed m \<Longrightarrow> length b = keySize \<Longrightarrow> k \<noteq> PermuteTweak \<Longrightarrow> keys_typed (m(k \<mapsto> b))"
  by (auto simp: keys_typed_def keys_wf_def)

lemma length_copy_key [simp]: "length (copy_key bs) = keySize"
  by (simp add: copy_key_def)

lemma keys_typed_load:
  "keys_typed m \<Longrightarrow> \<forall>i \<in> set is. i < numKeys \<Longrightarrow> keys_typed (load_keys B S s mk is m)"
  by (induction "is" arbitrary: m)
    (auto simp: Let_def keys_typed_update KeyType_of_named split: option.split)

lemma keys_typed_enter:
  "keys_typed m \<Longrightarrow> \<forall>i \<in> set is. i < numKeys \<and> length (keys ! i) = keySize \<Longrightarrow> keys_typed (enter_keys keys is m)"
  by (induction "is" arbitrary: m) (auto simp: keys_typed_update KeyType_of_named)

lemma length_encrypt_from: "encrypt_from S mk r keys = Some ecs \<Longrightarrow> length ecs = length keys"
  by (induction keys arbitrary: r ecs) (auto split: option.splits)

lemma store_keys_total: "\<forall>i \<in> set is. i < length keys \<Longrightarrow> \<exists>r. store_keys B keys is s = Inr r"
  by (induction "is" arbitrary: s) (auto split: sum.split)

lemma initialSetup_total: "length ecs = numKeys \<Longrightarrow> \<exists>r. initialSetup_tx B params ecs s = Inr r"
  by (auto simp: initialSetup_tx_def storeEncryptedKeys_def store_keys_total split: sum.split)

lemma childKeys_six:
  assumes "length mk = keySize"
  obtains keys where "inverseHashTreeKeyDerivation mk numKeys = Inr keys" and "length keys = numKeys"
    and "\<forall>k \<in> set keys. length k = keySize"
proof
  show "inverseHashTreeKeyDerivation mk numKeys = Inr (map (tree_node mk) [1..<2 * ((numKeys + 1) div 2) + 1])"
    by (rule inverseHashTree_nodes)
qed (use assms in \<open>simp_all add: numKeys_def keySize_def length_tree_node\<close>)

lemma performInitialSetup_typed:
  "\<exists>err s' m. performInitialSetup B S r pass s Map.empty = Inr (err, s', m) \<and> keys_typed m \<and>
     (err \<noteq> None \<longrightarrow> m = Map.empty) \<and> (err = None \<longrightarrow> dom m = - {PermuteTweak})"
proof (cases "newSecretKey S r pass")
  case None
  then show ?thesis by (simp add: performInitialSetup_def)
next
  case (Some mk)
  obtain keys where keys: "inverseHashTreeKeyDerivation (copy_key (skKey S mk)) numKeys = Inr keys"
    "length keys = numKeys" "\<forall>k \<in> set keys. length k = keySize"
    by (rule childKeys_six [OF length_copy_key])
  show ?thesis
  proof (cases "encryptChildKeys S mk r keys")
    case None
    then show ?thesis by (simp add: performInitialSetup_def Some keys(1))
  next
    case ecs: (Some ecs)
    have "length ecs = numKeys"
      using length_encrypt_from [of S mk r keys ecs] ecs keys(2) by (simp add: encryptChildKeys_def)
    then obtain res where res: "initialSetup_tx B (skMarshal S mk) ecs s = Inr res"
      using initialSetup_total [of ecs B "skMarshal S mk" s] by auto
    obtain e s' where u: "db_update B (\<lambda>_. res) s = (e, s')" by fastforce
    have m: "updateKeyMap keys Map.empty = Inr (enter_keys keys [0..<numKeys] Map.empty)"
      by (simp add: updateKeyMap_def update_keys_enter keys(2))
    have "keys_typed (enter_keys keys [0..<numKeys] Map.empty)"
      by (rule keys_typed_enter) (use keys in auto)
    moreover have "dom (enter_keys keys [0..<numKeys] Map.empty) = - {PermuteTweak}"
      by (auto simp: enter_keys_all split: if_splits)
    ultimately show ?thesis
      by (cases e) (simp_all add: performInitialSetup_def Some keys(1) ecs res u m)
  qed
qed

lemma performRegularSetup_typed:
  "keys_typed (snd (performRegularSetup B S pass s Map.empty)) \<and>
   (fst (performRegularSetup B S pass s Map.empty) \<noteq> None \<longrightarrow>
      snd (performRegularSetup B S pass s Map.empty) = Map.empty)"
proof -
  have "keys_typed (loadDBKeys B S s mk Map.empty)" for mk
    unfolding loadDBKeys_def by (rule keys_typed_load) simp_all
  then show ?thesis by (simp add: performRegularSetup_def Let_def split: option.split)
qed

section \<open>Properties\<close>

text \<open>A concrete \<open>snacl\<close> with the documented laws, for the witnesses: the key is the passphrase.\<close>

definition demo_snacl :: "bytes snacl" where
  "demo_snacl =
     \<lparr>newSecretKey = (\<lambda>r pass. if length pass = 88 then Some pass else None),
      skKey = (\<lambda>k. take 32 k), skMarshal = (\<lambda>k. k),
      skUnmarshal = (\<lambda>bs. if bs = [] then None else Some bs),
      skDeriveKey = (\<lambda>k pass. if pass = k then Some k else None),
      skEncrypt = (\<lambda>k r m. Some (m @ replicate 40 0)),
      skDecrypt = (\<lambda>k c. if length c < 40 then None else Some (take (length c - 40) c))\<rparr>"

lemma snacl_doc_demo [simp]: "snacl_doc demo_snacl"
  by (auto simp: snacl_doc_def demo_snacl_def split: if_splits)

text \<open>C14: The derivation terminates without a panic for every number of keys, also one that is not
  a power of two: it returns nodes 1, 2, ... of the hash tree in breadth-first order, one more
  than asked for when the number is odd.\<close>

theorem inverseHashTree_breadth_first:
  "inverseHashTreeKeyDerivation masterKey n =
     Inr (map (tree_node masterKey) [1..<(if odd n then n + 2 else n + 1)])"
proof -
  have "2 * ((n + 1) div 2) + 1 = (if odd n then n + 2 else n + 1)" by (auto elim!: oddE evenE)
  then show ?thesis using inverseHashTree_nodes [of masterKey n] by simp
qed

text \<open>C12: Whatever the database holds and however the libraries fail, starting the key manager does
  not panic, and the key map it leaves in memory is well typed: 32 bytes under every key type it
  has, nothing under the tweak; after an error it is empty, and after a successful first run it has
  all six keys.  (A later run may be missing keys without an error.)\<close>

theorem NewKeyManager_typed:
  "\<exists>err s' m. NewKeyManager B S r pass s = Inr (err, s', m) \<and> keys_wf m \<and> m PermuteTweak = None \<and>
     (err \<noteq> None \<longrightarrow> m = Map.empty) \<and>
     (err = None \<and> \<not> op_bucket B s [cryptoKeyBucket] \<longrightarrow> dom m = - {PermuteTweak})"
proof (cases "op_bucket B s [cryptoKeyBucket]")
  case False
  then show ?thesis
    using performInitialSetup_typed [of B S r pass s] by (auto simp: NewKeyManager_def keys_typed_def)
next
  case True
  with performRegularSetup_typed [of B S pass s] show ?thesis
    by (auto simp: NewKeyManager_def keys_typed_def split: prod.split)
qed

text \<open>C13: Starting over recovers the keys.  The first start derives key \<open>i\<close> as node \<open>i + 1\<close> of the
  hash tree under the master key and stores the keys encrypted; every later start with the same
  passphrase loads exactly the same key map, and one with another passphrase fails without
  loading a key.\<close>

theorem setup_roundtrip:
  assumes "bolt_doc B" and "bolt_commits B" and "snacl_doc S"
    and "newSecretKey S r pass = Some mk" and "\<forall>n m. skEncrypt S mk n m \<noteq> None"
    and "\<not> op_bucket B s [cryptoKeyBucket]" and "\<forall>k. \<not> op_bucket B s [cryptoKeyBucket, k]"
  shows "\<exists>s' m. NewKeyManager B S r pass s = Inr (None, s', m) \<and>
    (\<forall>k. m k = (if k = PermuteTweak then None else Some (tree_node (skKey S mk) (key_index k + 1)))) \<and>
    keys_wf m \<and>
    (\<forall>r'. NewKeyManager B S r' pass s' = Inr (None, s', m)) \<and>
    (\<forall>r' pass'. pass' \<noteq> pass \<longrightarrow> NewKeyManager B S r' pass' s' = Inr (Some SnaclError, s', Map.empty))"
proof -
  note key = snacl_key [OF assms(3,4)]
  obtain k0 where k0: "skUnmarshal S (skMarshal S mk) = Some k0" "skDeriveKey S k0 pass = Some mk"
    "\<And>pass'. pass' \<noteq> pass \<Longrightarrow> skDeriveKey S k0 pass' = None"
    using key(3) by blast
  define ks where "ks = map (tree_node (skKey S mk)) [1..<7]"
  let ?m = "enter_keys ks [0..<numKeys] Map.empty"
  obtain s' where first: "NewKeyManager B S r pass s = Inr (None, s', ?m)"
    and st: "op_bucket B s' [cryptoKeyBucket]" "op_get B s' [cryptoKeyBucket] masterKeyName = Some (skMarshal S mk)"
      "\<And>i. i < numKeys \<Longrightarrow> \<exists>ec. op_get B s' [cryptoKeyBucket] (keyToBoltKey (KeyType_of i)) = Some ec \<and>
         skDecrypt S mk ec = Some (ks ! i) \<and> length (ks ! i) = keySize"
    using first_setup [OF assms] unfolding ks_def [symmetric] by blast
  note later = later_setup [OF st(1,2) k0(1)]
  have again: "NewKeyManager B S r' pass s' = Inr (None, s', ?m)" for r' by (rule later(1) [OF k0(2) st(3)])
  have other: "NewKeyManager B S r' pass' s' = Inr (Some SnaclError, s', Map.empty)"
    if "pass' \<noteq> pass" for r' pass'
    by (rule later(2) [OF k0(3) [OF that]])
  have "ks ! i = tree_node (skKey S mk) (i + 1)" if "i < numKeys" for i
    using that by (simp add: ks_def numKeys_def del: upt_Suc)
  then have m: "?m k = (if k = PermuteTweak then None else Some (tree_node (skKey S mk) (key_index k + 1)))" for k
    using key_index_less [of k] by (simp add: enter_keys_all)
  then have "keys_wf ?m"
    by (auto simp: keys_wf_def keySize_def length_tree_node [OF key(1)] simp del: enter_keys.simps split: if_splits)
  with first again other m show ?thesis by blast
qed

theorem setup_roundtrip_witness:
  "\<exists>s' m. NewKeyManager mem_bolt demo_snacl 0 (replicate 88 1) Map.empty = Inr (None, s', m) \<and>
     m STagKey = Some (tree_node (replicate 32 1) 5) \<and>
     NewKeyManager mem_bolt demo_snacl 1 (replicate 88 1) s' = Inr (None, s', m) \<and>
     NewKeyManager mem_bolt demo_snacl 1 (replicate 88 2) s' = Inr (Some SnaclError, s', Map.empty)"
proof -
  have k: "newSecretKey demo_snacl 0 (replicate 88 1) = Some (replicate 88 1)"
    "\<forall>n m. skEncrypt demo_snacl (replicate 88 1) n m \<noteq> None"
    by (simp_all add: demo_snacl_def)
  have key: "skKey demo_snacl (replicate 88 1) = replicate 32 1" by (simp add: demo_snacl_def)
  have ne: "replicate 88 (2 :: byte) \<noteq> replicate 88 1" by (simp add: replicate_eq_replicate)
  have commits: "bolt_commits mem_bolt" by (simp add: bolt_commits_def)
  have empty: "\<not> op_bucket mem_bolt Map.empty [cryptoKeyBucket]"
    "\<forall>k. \<not> op_bucket mem_bolt Map.empty [cryptoKeyBucket, k]"
    by (simp_all add: mem_bucket_def)
  obtain s' m where w: "NewKeyManager mem_bolt demo_snacl 0 (replicate 88 1) Map.empty = Inr (None, s', m)"
    "\<forall>k. m k = (if k = PermuteTweak then None
        else Some (tree_node (skKey demo_snacl (replicate 88 1)) (key_index k + 1)))"
    "\<forall>r'. NewKeyManager mem_bolt demo_snacl r' (replicate 88 1) s' = Inr (None, s', m)"
    "\<forall>r' pass'. pass' \<noteq> replicate 88 1 \<longrightarrow>
       NewKeyManager mem_bolt demo_snacl r' pass' s' = Inr (Some SnaclError, s', Map.empty)"
    using setup_roundtrip [OF bolt_doc_mem commits snacl_doc_demo k empty] by blast
  moreover have "m STagKey = Some (tree_node (replicate 32 1) 5)" using w(2) by (simp add: key)
  ultimately show ?thesis using ne by blast
qed

theorem NewKeyManager_typed_witness:
  "(\<exists>s' m. NewKeyManager mem_bolt demo_snacl 0 (replicate 88 1) Map.empty = Inr (None, s', m) \<and>
      keys_wf m \<and> dom m = - {PermuteTweak}) \<and>
   NewKeyManager mem_bolt demo_snacl 0 [1] Map.empty = Inr (Some SnaclError, Map.empty, Map.empty)"
proof
  have "\<exists>s' m. NewKeyManager mem_bolt demo_snacl 0 (replicate 88 1) Map.empty = Inr (None, s', m)"
    using first_setup [of mem_bolt demo_snacl 0 "replicate 88 1" "replicate 88 1" Map.empty]
    by (auto simp: bolt_commits_def demo_snacl_def mem_bucket_def snacl_doc_demo [unfolded demo_snacl_def])
  then show "\<exists>s' m. NewKeyManager mem_bolt demo_snacl 0 (replicate 88 1) Map.empty = Inr (None, s', m) \<and>
      keys_wf m \<and> dom m = - {PermuteTweak}"
    using NewKeyManager_typed [of mem_bolt demo_snacl 0 "replicate 88 1" Map.empty] by (auto simp: mem_bucket_def)
  have "\<not> op_bucket mem_bolt Map.empty [cryptoKeyBucket]" by (simp add: mem_bucket_def)
  then show "NewKeyManager mem_bolt demo_snacl 0 [1] Map.empty = Inr (Some SnaclError, Map.empty, Map.empty)"
    by (simp add: NewKeyManager_def performInitialSetup_def demo_snacl_def)
qed

text \<open>C15: A stored key that does not decrypt is not reported: the regular setup returns without an
  error and without that key, and the first request for it blocks the handler, so that neither it
  nor any later request is ever answered.\<close>

theorem undecryptable_key_blocks_handler:
  assumes "op_get B s [cryptoKeyBucket] masterKeyName = Some params"
    and "skUnmarshal S params = Some k0" and "skDeriveKey S k0 pass = Some mk" and "j < numKeys"
    and "op_get B s [cryptoKeyBucket] (keyToBoltKey (KeyType_of j)) = Some c" and "skDecrypt S mk c = None"
  shows "\<exists>m. performRegularSetup B S pass s Map.empty = (None, m) \<and> m (KeyType_of j) = None \<and>
    requestHandler m (\<lparr>whichKey = KeyType_of j, hasErrChan = False\<rparr> # reqs) =
      replicate (Suc (length reqs)) NoReply"
proof -
  have "load_keys B S s mk is m (KeyType_of j) = m (KeyType_of j)"
    if "\<forall>i \<in> set is. i < numKeys" for "is" m
    using that
  proof (induction "is" arbitrary: m)
    case Nil
    then show ?case by simp
  next
    case (Cons i "is")
    then have "i = j \<or> KeyType_of i \<noteq> KeyType_of j" using KeyType_of_inj [of i j] assms(4) by auto
    with Cons assms(5,6) show ?case by (auto simp: Let_def split: option.split)
  qed
  then have "loadDBKeys B S s mk Map.empty (KeyType_of j) = None" by (simp add: loadDBKeys_def)
  then show ?thesis
    by (intro exI [of _ "loadDBKeys B S s mk Map.empty"]) (simp add: performRegularSetup_def assms)
qed

theorem undecryptable_key_blocks_handler_witness:
  "\<exists>m. performRegularSetup mem_bolt demo_snacl [7]
        [[cryptoKeyBucket] \<mapsto> [masterKeyName \<mapsto> [7], keyToBoltKey WTrapKey \<mapsto> [1]]] Map.empty = (None, m) \<and>
     requestHandler m [FetchWTrapKey, FetchSTagKey] = [NoReply, NoReply]"
proof -
  let ?s = "[[cryptoKeyBucket] \<mapsto> [masterKeyName \<mapsto> [7], keyToBoltKey WTrapKey \<mapsto> [1 :: byte]]]"
  have w: "KeyType_of 0 = WTrapKey" by (simp add: KeyType_of.simps)
  have "op_get mem_bolt ?s [cryptoKeyBucket] masterKeyName = Some [7]"
    "op_get mem_bolt ?s [cryptoKeyBucket] (keyToBoltKey (KeyType_of 0)) = Some [1]"
    using keyToBoltKey_not_master [of WTrapKey] by (simp_all add: mem_get_def w)
  moreover have "skUnmarshal demo_snacl [7] = Some [7]" "skDeriveKey demo_snacl [7] [7] = Some [7]"
    "skDecrypt demo_snacl [7] [1] = None" "0 < numKeys"
    by (simp_all add: demo_snacl_def numKeys_def)
  ultimately obtain m where "performRegularSetup mem_bolt demo_snacl [7] ?s Map.empty = (None, m)"
    "requestHandler m [\<lparr>whichKey = KeyType_of 0, hasErrChan = False\<rparr>, FetchSTagKey] = replicate 2 NoReply"
    using undecryptable_key_blocks_handler [of mem_bolt ?s "[7]" demo_snacl "[7]" "[7]" "[7]" 0 "[1]" "[FetchSTagKey]"]
    by (auto simp: numeral_2_eq_2)
  then show ?thesis by (auto simp: FetchWTrapKey_def w numeral_2_eq_2)
qed

text \<open>With a complete key map every fetch is answered, in order, with the key it asks for,
  except that \<open>FetchDocEncKey\<close> gets the key that encrypts document IDs (\<open>K_s\<close>): the document
  encryption key is never handed out.\<close>

theorem Fetch_replies:
  assumes "\<forall>k. k \<noteq> PermuteTweak \<longrightarrow> m k = Some (f k)"
  shows "requestHandler m [FetchDocEncKey, FetchWTrapKey, FetchXTagKey, FetchXIndKey, FetchDHBlindKey, FetchSTagKey] =
     map (KeyReply \<circ> f) [WTrapKey, WTrapKey, XTagKey, XIndKey, DHBlindKey, STagKey]"
  using assms
  by (simp add: FetchDocEncKey_def FetchWTrapKey_def FetchXTagKey_def FetchXIndKey_def
      FetchDHBlindKey_def FetchSTagKey_def)

theorem Fetch_replies_witness:
  "let m = (\<lambda>k. if k = PermuteTweak then None else Some [of_nat (key_index k)])
   in requestHandler m [FetchDocEncKey, FetchWTrapKey, FetchXTagKey, FetchXIndKey, FetchDHBlindKey, FetchSTagKey] =
     map KeyReply [[0], [0], [1], [2], [3], [4]]"
  using Fetch_replies [of "\<lambda>k. if k = PermuteTweak then None else Some [of_nat (key_index k)]"
      "\<lambda>k. [of_nat (key_index k)]"]
  by simp

end
