(* ===== verification/ClientDaemon.thy ===== *)
theory ClientDaemon
  imports TSetIndex DocEncrypter KeyManager SearchServer
begin

text \<open>
  The client's search side, \<open>client_proxy/client.go\<close>: the query tag, the search and fetch loops
  and the decryption of what comes back.  Channels from the server are the sequences of what is
  received from them; \<open>None\<close> of a partial function means that it does not return.
\<close>

record clientDaemon =
  cd_keys :: keyMap
  cd_docKey :: bytes
  cd_eDocsClosed :: bool

text \<open>\<open>NewClientDaemon\<close> sets no document key: the field is the zero key.\<close>

definition NewClientDaemon :: "keyMap \<Rightarrow> clientDaemon" where
  "NewClientDaemon keys = \<lparr>cd_keys = keys, cd_docKey = replicate keySize 0, cd_eDocsClosed = False\<rparr>"

text \<open>The tag of a query: the key manager's answer to \<open>FetchSTagKey\<close>, then the PRF of the word.  No
  answer blocks the caller.\<close>

definition encryptQuery :: "prf_lib \<Rightarrow> clientDaemon \<Rightarrow> string \<Rightarrow> bytes go option" where
  "encryptQuery L c s =
     (case requestHandler (cd_keys c) [FetchSTagKey] of
        [KeyReply stag] \<Rightarrow>
          Some (gbind (hash_write (cmac_new L stag) (str_bytes s)) (\<lambda>hm. hash_sum L hm))
      | _ \<Rightarrow> None)"

text \<open>A nil \<open>EncryptedDocInfo\<close> is \<open>None\<close>; a nil slice reads as an empty one.\<close>

definition decryptDocInfo :: "EncryptedDocInfo option \<Rightarrow> u32 go" where
  "decryptDocInfo eDoc =
     (case eDoc of
        None \<Rightarrow> Inl NilDereference
      | Some e \<Rightarrow> be32_read (case EncryptedId e of None \<Rightarrow> [] | Some b \<Rightarrow> b))"

text \<open>The error of the decryption is dropped, and the text then nil.\<close>

definition decryptDoc :: "crypto_lib \<Rightarrow> clientDaemon \<Rightarrow> CipherDoc \<Rightarrow> bytes option" where
  "decryptDoc C c eDoc = ck_decrypt C (cd_docKey c) (EncryptedDoc eDoc)"

text \<open>Results are forwarded to \<open>eDocs\<close> (also a nil one, after an error) until the end of the stream,
  when \<open>eDocs\<close> is closed.\<close>

partial_function (option) requestSearch_loop ::
    "(nat \<Rightarrow> EncryptedDocInfo recv) \<Rightarrow> nat \<Rightarrow> EncryptedDocInfo option list \<Rightarrow> clientDaemon
       \<Rightarrow> (EncryptedDocInfo option list \<times> clientDaemon) go option" where
  "requestSearch_loop stream n fwd c =
     (if stream n = StreamEOF then
        Some (gbind (close_chan (cd_eDocsClosed c)) (\<lambda>cl. Inr (fwd, c\<lparr>cd_eDocsClosed := cl\<rparr>)))
      else if cd_eDocsClosed c then Some (Inl SendOnClosedChannel)
      else requestSearch_loop stream (n + 1) (fwd @ [recv_msg (stream n)]) c)"

definition requestSearch ::
    "(nat \<Rightarrow> EncryptedDocInfo recv) \<Rightarrow> clientDaemon \<Rightarrow> (EncryptedDocInfo option list \<times> clientDaemon) go option" where
  "requestSearch stream c = requestSearch_loop stream 0 [] c"

text \<open>
  The fetch loop: the \<open>n\<close>-th receive from \<open>eDocs\<close> is \<open>None\<close> when the channel is closed, and the \<open>break\<close>
  that follows only leaves the \<open>select\<close>.  After the loop the documents would be received and sent
  to \<open>plainDocs\<close>; its result is the list of IDs requested before that.
\<close>

partial_function (option) sendFetchRequests ::
    "(nat \<Rightarrow> EncryptedDocInfo option option) \<Rightarrow> nat \<Rightarrow> u32 list \<Rightarrow> u32 list go option" where
  "sendFetchRequests eDocs n requested =
     (case eDocs n of
        None \<Rightarrow> sendFetchRequests eDocs (n + 1) requested
      | Some doc \<Rightarrow>
          (case decryptDocInfo doc of
             Inl p \<Rightarrow> Some (Inl p)
           | Inr docId \<Rightarrow> sendFetchRequests eDocs (n + 1) (requested @ [docId])))"

text \<open>The plain documents of a search: those of the goroutine started after the fetch loop, or none
  if the loop does not return; \<open>Search\<close> streams them until \<open>plainDocs\<close> is closed.\<close>

definition Search :: "crypto_lib \<Rightarrow> clientDaemon \<Rightarrow> (nat \<Rightarrow> EncryptedDocInfo option option) \<Rightarrow> CipherDoc list
     \<Rightarrow> (u32 \<times> bytes option) list go option" where
  "Search C c eDocs cDocs =
     (case sendFetchRequests eDocs 0 [] of
        None \<Rightarrow> None
      | Some (Inl p) \<Rightarrow> Some (Inl p)
      | Some (Inr _) \<Rightarrow> Some (Inr (map (\<lambda>d. (DocId d, decryptDoc C c d)) cDocs)))"

section \<open>Lemmas\<close>

lemma sendFetchRequests_returns:
  "sendFetchRequests eDocs n requested = Some r \<Longrightarrow> \<exists>p k doc. r = Inl p \<and> eDocs k = Some doc \<and> decryptDocInfo doc = Inl p"
  by (rule sendFetchRequests.raw_induct
      [where P = "\<lambda>eDocs n requested r. \<exists>p k doc. r = Inl p \<and> eDocs k = Some doc \<and> decryptDocInfo doc = Inl p"])
    (auto split: option.splits sum.splits)

lemma requestSearch_loop_stream:
  "\<not> cd_eDocsClosed c \<Longrightarrow> requestSearch_loop (stream_of ds StreamEOF) n fwd c =
     Some (Inr (fwd @ map Some (drop n ds), c\<lparr>cd_eDocsClosed := True\<rparr>))"
proof (induction "length ds - n" arbitrary: n fwd)
  case 0
  then show ?case by (subst requestSearch_loop.simps) (simp add: stream_of_def)
next
  case (Suc k)
  then have n: "n < length ds" by simp
  then have "drop n ds = ds ! n # drop (Suc n) ds" by (simp add: Cons_nth_drop_Suc)
  with Suc n show ?case by (subst requestSearch_loop.simps) (simp add: stream_of_def)
qed

lemma encryptQuery_tag:
  assumes "cmac_doc L" and "keys_wf (cd_keys c)" and "cd_keys c STagKey \<noteq> None"
  shows "encryptQuery L c word = Some (Inr (mac L (key_of (cd_keys c) STagKey) (str_bytes word)))"
proof -
  obtain k where k: "cd_keys c STagKey = Some k" using assms(3) by blast
  have len: "length k = 32" using assms(2) k by (auto simp: keys_wf_def keySize_def)
  show ?thesis by (simp add: encryptQuery_def FetchSTagKey_def k assms(1) len key_of_def)
qed

text \<open>A cell lies where its tag says and decrypts to its posting.\<close>

lemma oxt_cell_at:
  assumes "oxt_cell L K word i did lst = Inr f"
  shows "\<exists>otp y. CalcTsetVals L (mac L (key_of K STagKey) (str_bytes word)) (i + 1) = Inr (Bucket f, Label f, otp) \<and>
    (length (Data f) = 33 \<longrightarrow>
       XorBytes otp (Data f) = Inr ((if lst then [1] else [0]) @ PermuteDocId word None did @ y))"
proof -
  from assms obtain y b l otp d
    where v: "CalcTsetVals L (mac L (key_of K STagKey) (str_bytes word)) (i + 1) = Inr (b, l, otp)"
    and x: "XorBytes ((if lst then [1] else [0]) @ be32 did @ y) otp = Inr d"
    and f: "f = \<lparr>Bucket = b, Label = l, Data = d\<rparr>"
    by (auto simp: oxt_cell_def tset_cell_def gbind_Inr_iff)
  have "XorBytes otp d = Inr ((if lst then [1] else [0]) @ be32 did @ y)" if "length d = 33"
  proof -
    have "length otp = 33" by (rule CalcTsetVals_lengths(3) [OF v])
    moreover have "length ((if lst then [1] else [0]) @ be32 did @ y) = 33"
      using XorBytes_Inr_length [OF x] that by simp
    ultimately show ?thesis
      using XorBytes_cancel [of "(if lst then [1] else [0]) @ be32 did @ y" otp] x by simp
  qed
  with v show ?thesis by (auto simp: f PermuteDocId_def)
qed

section \<open>Properties\<close>

text \<open>C37: A query asks for what the index stores.  The tag the client sends for a word is the PRF of
  the word under the t-set key, never blocks when that key is in the key map, and addresses and
  decrypts the cell the protocol prescribes: the cell for the \<open>i\<close>-th document lies at bucket and
  label of \<open>CalcTsetVals(tag, i + 1)\<close>, and its pad gives back flag, document ID and blinded value.\<close>

theorem encryptQuery_addresses_cells:
  assumes "cmac_doc L" and "keys_wf (cd_keys c)" and "cd_keys c STagKey \<noteq> None"
    and "oxt_cell L (cd_keys c) word i did lst = Inr f" and "length (Data f) = 33"
  shows "\<exists>tag otp y. encryptQuery L c word = Some (Inr tag) \<and>
    CalcTsetVals L tag (i + 1) = Inr (Bucket f, Label f, otp) \<and>
    XorBytes otp (Data f) = Inr ((if lst then [1] else [0]) @ PermuteDocId word None did @ y)"
  using encryptQuery_tag [OF assms(1-3)] oxt_cell_at [OF assms(4)] assms(5) by auto

text \<open>A cell whose blinded value fills its 28 bytes: \<open>z = 2\<close>, whose inverse is \<open>(P + 1) / 2\<close>.\<close>

lemma demo_blinded: "length (big_bytes (i mod p224_P)) = 28" if "big_mod_inverse 2 p224_P = Some i"
proof -
  note i = big_mod_inverse_correct [OF that]
  have "2 * i mod p224_P = 1" using i(2) by simp
  then have e: "2 * i = p224_P * (2 * i div p224_P) + 1" by (metis mult_div_mod_eq)
  have "2 * i div p224_P < 2" using i(1) by (intro less_mult_imp_div_less) simp
  then have "2 * i div p224_P = 0 \<or> 2 * i div p224_P = 1" by linarith
  moreover have "2 * i \<noteq> 1" by presburger
  ultimately have "2 * i = p224_P + 1" using e by (metis add_0 mult_0_right nat_mult_1_right)
  then have "i = 2 ^ 223 - 2 ^ 95 + 1" by (simp add: p224_P_def)
  then have n: "i mod p224_P = 2 ^ 223 - 2 ^ 95 + 1" using i(1) by simp
  have "256 ^ 27 < (256 :: nat) ^ length (big_bytes (i mod p224_P))"
  proof -
    have "256 ^ 27 < i mod p224_P" unfolding n by simp
    also have "\<dots> < 256 ^ length (big_bytes (i mod p224_P))"
      using big_set_bytes_less [of "big_bytes (i mod p224_P)"] by simp
    finally show ?thesis .
  qed
  then have "27 < length (big_bytes (i mod p224_P))" by (rule power_less_imp_less_exp [rotated]) simp
  moreover have "length (big_bytes (i mod p224_P)) \<le> 28"
    by (rule length_big_bytes) (use i(1) p224_P_less in simp)
  ultimately show ?thesis by simp
qed

lemma demo_full_cell: "\<exists>f. oxt_cell demo_prf demo_keys ''a'' 0 7 False = Inr f \<and> length (Data f) = 33"
proof -
  obtain f where f: "oxt_cell demo_prf demo_keys ''a'' 0 7 False = Inr f"
    using tset_cell_ok [OF cmac_doc_demo blinds_ok_demo] unfolding oxt_cell_def by blast
  have b: "big_set_bytes (replicate 15 0 @ [k]) = unat k" for k by simp
  from f obtain y l where y: "computeBlindedXind (replicate 15 0 @ [2]) (replicate 15 0 @ [1]) p224_P = Inr y"
    and d: "XorBytes ([0] @ be32 7 @ y) l = Inr (Data f)"
    by (auto simp: oxt_cell_def tset_cell_def gbind_Inr_iff)
  have b2: "big_set_bytes (replicate 15 0 @ [2]) = 2" and b1: "big_set_bytes (replicate 15 0 @ [1]) = 1"
    by (simp_all only: b) simp_all
  obtain i where "big_mod_inverse 2 p224_P = Some i" "y = big_bytes (i mod p224_P)"
    by (rule computeBlindedXind_Inr [OF y, unfolded b1 b2 nat_mult_1])
  then have "length y = 28" using demo_blinded by simp
  with f XorBytes_Inr_length [OF d] show ?thesis by simp
qed

theorem encryptQuery_addresses_cells_witness:
  "\<exists>f tag otp y. oxt_cell demo_prf demo_keys ''a'' 0 7 False = Inr f \<and>
     encryptQuery demo_prf (NewClientDaemon demo_keys) ''a'' = Some (Inr tag) \<and>
     CalcTsetVals demo_prf tag 1 = Inr (Bucket f, Label f, otp) \<and>
     XorBytes otp (Data f) = Inr ([0] @ PermuteDocId ''a'' None 7 @ y)"
proof -
  obtain f where f: "oxt_cell demo_prf demo_keys ''a'' 0 7 False = Inr f" "length (Data f) = 33"
    using demo_full_cell by blast
  have c: "keys_wf (cd_keys (NewClientDaemon demo_keys))" "cd_keys (NewClientDaemon demo_keys) STagKey \<noteq> None"
    "oxt_cell demo_prf (cd_keys (NewClientDaemon demo_keys)) ''a'' 0 7 False = Inr f"
    using f by (simp_all add: NewClientDaemon_def) (simp add: demo_keys_def)
  from encryptQuery_addresses_cells [OF cmac_doc_demo c f(2)] f(1) show ?thesis by auto
qed


text \<open>The first result of a search crashes the client.  With the lengths the client announces
  (4 and 28) the server cuts three bytes of an encrypted ID out of a padded tuple, and decoding
  the forwarded result needs four.\<close>

theorem truncated_id_panics:
  assumes "length otp = 33" and "length y = 28"
    and "XorBytes ((if lst then [1] else [0]) @ PermuteDocId word h did @ y) otp = Inr d"
  shows "\<exists>t. decrypt_tuple (Some \<lparr>NumEidBytes = 4, NumBlindBytes = 28\<rparr>) otp idx d = Inr t \<and>
    decryptDocInfo (Some \<lparr>EncryptedId = eId t\<rparr>) = Inl IndexOutOfRange"
proof -
  have "XorBytes otp d = Inr ((if lst then [1] else [0]) @ PermuteDocId word h did @ y)"
    using decrypt_tuple_padded [OF assms(1) _ assms(3)] assms(2) by (simp add: PermuteDocId_def)
  then show ?thesis
    using assms(2) by (simp add: decrypt_tuple_def int32_slice_def decryptDocInfo_def be32_read_short PermuteDocId_def)
qed

theorem truncated_id_panics_witness:
  "\<exists>d t. XorBytes ([0] @ PermuteDocId ''w'' None 7 @ replicate 28 9) (replicate 33 255) = Inr d \<and>
     decrypt_tuple (Some \<lparr>NumEidBytes = 4, NumBlindBytes = 28\<rparr>) (replicate 33 255) 1 d = Inr t \<and>
     decryptDocInfo (Some \<lparr>EncryptedId = eId t\<rparr>) = Inl IndexOutOfRange"
proof -
  let ?x = "(if False then [1] else [0]) @ PermuteDocId ''w'' None 7 @ replicate 28 9"
  obtain d where d: "XorBytes ?x (replicate 33 255) = Inr d"
    using XorBytes_map2 [of ?x "replicate 33 255"] by (simp add: PermuteDocId_def)
  have "length (replicate 33 (255 :: byte)) = 33" "length (replicate 28 (9 :: byte)) = 28" by simp_all
  from truncated_id_panics [OF this d, of 1] d show ?thesis by auto
qed

text \<open>A daemon serves one search: the first one forwards every result, in order, and closes
  \<open>eDocs\<close> at the end of the stream; any later one panics, with a result by sending on the closed
  channel and without one by closing it again.\<close>

theorem requestSearch_only_once:
  assumes "\<not> cd_eDocsClosed c"
  shows "\<exists>c'. requestSearch (stream_of ds StreamEOF) c = Some (Inr (map Some ds, c')) \<and>
    (\<forall>ds'. requestSearch (stream_of ds' StreamEOF) c' =
       Some (Inl (if ds' = [] then CloseOfClosedChannel else SendOnClosedChannel)))"
  using requestSearch_loop_stream [OF assms, of ds 0 "[]"]
  by (auto simp: requestSearch_def stream_of_def requestSearch_loop.simps [of _ 0])

theorem requestSearch_only_once_witness:
  "\<exists>c'. requestSearch (stream_of [\<lparr>EncryptedId = Some [0, 0, 0, 7]\<rparr>] StreamEOF) (NewClientDaemon demo_keys) =
      Some (Inr ([Some \<lparr>EncryptedId = Some [0, 0, 0, 7]\<rparr>], c')) \<and>
    requestSearch (stream_of [] StreamEOF) c' = Some (Inl CloseOfClosedChannel)"
proof -
  have "\<not> cd_eDocsClosed (NewClientDaemon demo_keys)" by (simp add: NewClientDaemon_def)
  from requestSearch_only_once [OF this, of "[\<lparr>EncryptedId = Some [0, 0, 0, 7]\<rparr>]"] show ?thesis by auto
qed

end
