(* ===== verification/Startup.thy ===== *)
theory Startup
  imports ClientDaemon Indexer
begin

text \<open>
  How the two client programs start: \<open>main\<close> of \<open>client_proxy/client.go\<close> with the construction of the
  components in \<open>client_proxy/index.go\<close>, and \<open>main\<close> of the command line client \<open>ddx/cli.go\<close>.  Dialling,
  listening and opening the database are I/O: their outcomes are arguments.
\<close>

section \<open>The client proxy\<close>

text \<open>\<open>log.Fatal\<close> ends the process; a fetch of a key the key map does not have blocks it.\<close>

datatype 'a startup = LogFatal | Blocks | Serves 'a

text \<open>What \<open>Index\<close> constructs: the database, whether the bloom manager runs for the first time, the
  keys, the key handed to the document streamer, and the document names.\<close>

record 's indexed =
  ix_store :: 's
  ix_bloomFirst :: bool
  ix_keys :: keyMap
  ix_docKey :: bytes
  ix_docNames :: "u32 \<rightharpoonup> string"

definition NewIndexer :: "u32 \<rightharpoonup> string" where
  "NewIndexer = Map.empty"

definition Index ::
    "'s bolt_ops \<Rightarrow> 'k snacl \<Rightarrow> nat \<Rightarrow> bytes \<Rightarrow> 's \<Rightarrow> 's indexed startup go" where
  "Index B S r pass db =
     (let docNames = NewIndexer;
          firstTime = bloom_firstTime B db
      in gbind (NewKeyManager B S r pass db) (\<lambda>(err, db', keys).
           if err \<noteq> None then Inr LogFatal
           else (case requestHandler keys [FetchDocEncKey] of
               [KeyReply docKey] \<Rightarrow>
                 Inr (Serves \<lparr>ix_store = db', ix_bloomFirst = firstTime, ix_keys = keys, ix_docKey = docKey,
                              ix_docNames = docNames\<rparr>)
             | _ \<Rightarrow> Inr Blocks)))"

text \<open>\<open>UploadMetaData\<close> returns an acknowledgement or nil, and an error; the test looks at the
  acknowledgement first.\<close>

definition client_main ::
    "'s bolt_ops \<Rightarrow> 'k snacl \<Rightarrow> nat \<Rightarrow> bytes \<Rightarrow> bool \<Rightarrow> bool option \<times> bool \<Rightarrow> 's option \<Rightarrow> bool
       \<Rightarrow> ('s indexed \<times> clientDaemon) startup go" where
  "client_main B S r passPhrase dialOk meta boltOpen daemonDialOk =
     (if \<not> dialOk then Inr LogFatal
      else case meta of
        (None, err) \<Rightarrow> Inl NilDereference
      | (Some ack, err) \<Rightarrow>
          if \<not> ack \<or> err then Inr LogFatal
          else (case boltOpen of
              None \<Rightarrow> Inr LogFatal
            | Some db \<Rightarrow>
                gbind (Index B S r passPhrase db) (\<lambda>res. Inr (case res of
                    LogFatal \<Rightarrow> LogFatal
                  | Blocks \<Rightarrow> Blocks
                  | Serves ix \<Rightarrow> if daemonDialOk then Serves (ix, NewClientDaemon (ix_keys ix)) else LogFatal))))"

section \<open>The command line client\<close>

text \<open>The receive loop prints what it receives, nil after an error, and ends at the end of the
  stream.\<close>

partial_function (option) cli_receive :: "(nat \<Rightarrow> 'd recv) \<Rightarrow> nat \<Rightarrow> 'd option list \<Rightarrow> 'd option list option" where
  "cli_receive stream n printed =
     (if stream n = StreamEOF then Some printed
      else cli_receive stream (n + 1) (printed @ [recv_msg (stream n)]))"

text \<open>The query is the third argument; the error of \<open>Search\<close> is not looked at, so that a failed call
  leaves a nil stream.\<close>

definition cli_main ::
    "bool \<Rightarrow> string list \<Rightarrow> (string \<Rightarrow> (nat \<Rightarrow> 'd recv) option) \<Rightarrow> 'd option list startup go option" where
  "cli_main dialOk args search =
     (if \<not> dialOk then Some (Inr LogFatal)
      else case slice_at args 2 of
        Inl p \<Rightarrow> Some (Inl p)
      | Inr query \<Rightarrow> (case search query of
            None \<Rightarrow> Some (Inl NilDereference)
          | Some stream \<Rightarrow> map_option (\<lambda>printed. Inr (Serves printed)) (cli_receive stream 0 [])))"

section \<open>Lemmas\<close>

lemma cli_receive_until:
  assumes "stream (n + k) = StreamEOF" and "\<forall>i < k. stream (n + i) \<noteq> StreamEOF"
  shows "cli_receive stream n printed = Some (printed @ map (\<lambda>i. recv_msg (stream (n + i))) [0..<k])"
  using assms
proof (induction k arbitrary: n printed)
  case 0
  then show ?case by (subst cli_receive.simps) simp
next
  case (Suc k)
  have "\<forall>i < k. stream (Suc n + i) \<noteq> StreamEOF"
  proof (intro allI impI)
    fix i
    assume "i < k"
    with Suc.prems(2) have "stream (n + Suc i) \<noteq> StreamEOF" by blast
    then show "stream (Suc n + i) \<noteq> StreamEOF" by simp
  qed
  with Suc.IH [of "Suc n" "printed @ [recv_msg (stream n)]"] Suc.prems(1)
  have "cli_receive stream (Suc n) (printed @ [recv_msg (stream n)]) =
      Some (printed @ [recv_msg (stream n)] @ map (\<lambda>i. recv_msg (stream (Suc n + i))) [0..<k])" by simp
  moreover have "stream n \<noteq> StreamEOF" using Suc.prems(2) by fastforce
  moreover have "[0..<Suc k] = 0 # map Suc [0..<k]" by (simp add: upt_conv_Cons map_Suc_upt del: upt_Suc)
  ultimately show ?case by (subst cli_receive.simps) (simp add: o_def del: upt_Suc)
qed

lemma cli_receive_returns: "cli_receive stream n printed = Some r \<Longrightarrow> \<exists>k. stream k = StreamEOF"
  by (rule cli_receive.raw_induct [where P = "\<lambda>stream n printed r. \<exists>k. stream k = StreamEOF"])
    (auto split: if_splits)

lemma fetch_doc_key:
  "requestHandler keys [FetchDocEncKey] = (case keys WTrapKey of None \<Rightarrow> [NoReply] | Some k \<Rightarrow> [KeyReply k])"
  by (simp add: FetchDocEncKey_def split: option.split)

lemma NewKeyManager_keys:
  "\<exists>err s' keys. NewKeyManager B S r pass s = Inr (err, s', keys) \<and> keys_typed keys"
  using performInitialSetup_typed [of B S r pass s] performRegularSetup_typed [of B S pass s]
  by (cases "op_bucket B s [cryptoKeyBucket]") (auto simp: NewKeyManager_def split: prod.split)

lemma Index_typed:
  "\<exists>res. Index B S r pass db = Inr res \<and>
     (\<forall>ix. res = Serves ix \<longrightarrow> keys_typed (ix_keys ix) \<and> ix_keys ix WTrapKey = Some (ix_docKey ix) \<and>
        ix_docNames ix = Map.empty \<and> ix_bloomFirst ix = bloom_firstTime B db)"
proof -
  obtain err db' keys where m: "NewKeyManager B S r pass db = Inr (err, db', keys)" "keys_typed keys"
    using NewKeyManager_keys [of B S r pass db] by blast
  then show ?thesis
    by (cases "keys WTrapKey")
      (simp_all add: Index_def Let_def fetch_doc_key NewIndexer_def del: requestHandler.simps)
qed

section \<open>Properties\<close>



text \<open>C35: The command line client panics without a third argument and when the search call fails;
  otherwise it returns exactly when the stream comes to its end, and has then printed everything
  received before, nil for every error.  On a stream that breaks for good it loops for ever.\<close>

theorem cli_main_ends:
  "cli_main True args search =
     (if length args < 3 then Some (Inl IndexOutOfRange)
      else case search (args ! 2) of
        None \<Rightarrow> Some (Inl NilDereference)
      | Some stream \<Rightarrow>
          if \<exists>n. stream n = StreamEOF
          then Some (Inr (Serves (map (\<lambda>i. recv_msg (stream i)) [0..<(LEAST n. stream n = StreamEOF)])))
          else None)"
proof -
  have "cli_receive stream 0 [] =
      (if \<exists>n. stream n = StreamEOF then Some (map (\<lambda>i. recv_msg (stream i)) [0..<(LEAST n. stream n = StreamEOF)])
       else None)" for stream :: "nat \<Rightarrow> 'a recv"
  proof (cases "\<exists>n. stream n = StreamEOF")
    case True
    let ?k = "LEAST n. stream n = StreamEOF"
    have "stream (0 + ?k) = StreamEOF" using LeastI_ex [OF True] by simp
    moreover have "\<forall>i < ?k. stream (0 + i) \<noteq> StreamEOF" using not_less_Least by auto
    ultimately have "cli_receive stream 0 [] = Some ([] @ map (\<lambda>i. recv_msg (stream (0 + i))) [0..<?k])"
      by (rule cli_receive_until)
    with True show ?thesis by (simp only: if_True append_Nil add_0)
  next
    case False
    then show ?thesis using cli_receive_returns [of stream 0 "[]"] by (cases "cli_receive stream 0 []") auto
  qed
  then show ?thesis by (simp add: cli_main_def slice_at_def split: option.split)
qed

end
