(* ===== verification/InvertedIndex.thy ===== *)
theory InvertedIndex
  imports TermFreq Corpus
begin

text \<open>
  The inverted index calculator of \<open>client_proxy/inverted_index.go\<close>: for every word the largest ID
  of a document that contains it, computed by workers over shares of the corpus, partitioned by
  hash and merged by reducers.
\<close>

type_synonym doc_map = "string \<rightharpoonup> u32"

definition maxInt :: "u32 \<Rightarrow> u32 \<Rightarrow> u32" where
  "maxInt a b = (if a > b then a else b)"

definition id_of :: "doc_map \<Rightarrow> string \<Rightarrow> u32" where
  "id_of m w = (case m w of None \<Rightarrow> 0 | Some n \<Rightarrow> n)"

text \<open>One document of a worker: its words in iteration order, the map and the counter.\<close>

definition worker_doc :: "u32 \<times> string list \<Rightarrow> doc_map \<times> nat \<Rightarrow> doc_map \<times> nat" where
  "worker_doc doc st =
     (let currentID = fst doc
      in foldl (\<lambda>(m, counter) token. (m(token \<mapsto> maxInt (id_of m token) currentID), counter + 1)) st (snd doc))"

definition worker_docs :: "(u32 \<times> string list) list \<Rightarrow> doc_map \<times> nat" where
  "worker_docs docs = foldl (\<lambda>st doc. worker_doc doc st) (Map.empty, 0) docs"

text \<open>After its documents a worker first sends its counter on \<open>finalCounterEntries\<close>, which no one
  makes: sending on a nil channel blocks for ever.  \<open>counterChan\<close>: whether the channel exists.\<close>

datatype worker_end = WorkerBlocked | WorkerSent nat doc_map

definition finalIndexEntriesWorker :: "bool \<Rightarrow> (u32 \<times> string list) list \<Rightarrow> worker_end" where
  "finalIndexEntriesWorker counterChan docs =
     (let (lastTermInDocument, counter) = worker_docs docs
      in if counterChan then WorkerSent counter lastTermInDocument else WorkerBlocked)"

text \<open>The constructor leaves \<open>finalCounterEntries\<close> nil.\<close>

definition NewInvertedIndexCalculator_counterChan :: bool where
  "NewInvertedIndexCalculator_counterChan = False"

definition finalIndexShuffler :: "u32 \<Rightarrow> (string \<times> u32) list \<Rightarrow> (u32 \<times> string \<times> u32) list" where
  "finalIndexShuffler reducers a = map (\<lambda>(key, val). (Hash key mod reducers, key, val)) a"

text \<open>The reducer, with its count of distinct words seen with a positive ID.\<close>

definition id_reducer :: "(string \<times> u32) list \<Rightarrow> doc_map \<times> nat" where
  "id_reducer input = foldl (\<lambda>(subSet, cnt) (key, tf).
     (subSet(key \<mapsto> maxInt (id_of subSet key) tf), if id_of subSet key = 0 then cnt + 1 else cnt)) (Map.empty, 0) input"

text \<open>The launches, each with its \<open>Add\<close> on the calculator's wait group (there is no main group here).\<close>

definition ii_initMappers :: "nat \<Rightarrow> launch list" where
  "ii_initMappers numWorkers = replicate numWorkers (Mapper, 1, 0)"

definition ii_initReducers :: "nat \<Rightarrow> launch list" where
  "ii_initReducers numReds = replicate numReds (Reducer, 1, 0)"

definition ii_initShufflers :: "nat \<Rightarrow> launch list" where
  "ii_initShufflers numReds = replicate numReds (Shuffler, 1, 0)"

text \<open>Mappers and shufflers end with \<open>Done\<close>, reducers do not.\<close>

definition ii_dones :: "goroutine list \<Rightarrow> nat" where
  "ii_dones gs = length (filter (\<lambda>g. g \<noteq> Reducer) gs)"

section \<open>Lemmas\<close>

text \<open>A map of maxima: what a list of (word, ID) pairs amounts to.\<close>

definition max_pair :: "doc_map \<Rightarrow> string \<times> u32 \<Rightarrow> doc_map" where
  "max_pair m p = m(fst p \<mapsto> maxInt (id_of m (fst p)) (snd p))"

definition ids_for :: "(string \<times> u32) list \<Rightarrow> string \<Rightarrow> u32 set" where
  "ids_for ps w = snd ` {p \<in> set ps. fst p = w}"

definition max_map :: "(string \<times> u32) list \<Rightarrow> doc_map" where
  "max_map ps w = (if ids_for ps w = {} then None else Some (Max (ids_for ps w)))"

lemma finite_ids_for [simp]: "finite (ids_for ps w)"
  by (simp add: ids_for_def)

lemma maxInt_max: "maxInt a b = max a b"
  by (cases "a \<le> b") (simp_all add: maxInt_def max_def not_le [symmetric])

lemma ids_for_snoc: "ids_for (ps @ [p]) w = (if fst p = w then insert (snd p) (ids_for ps w) else ids_for ps w)"
  by (auto simp: ids_for_def)

lemma max_zero_word: "max 0 (b :: u32) = b"
  by (simp add: max_def)

lemma foldl_max_pair: "foldl max_pair Map.empty ps = max_map ps"
proof (induction ps rule: rev_induct)
  case Nil
  show ?case by (simp add: max_map_def ids_for_def fun_eq_iff)
next
  case (snoc p ps)
  have "max_pair (max_map ps) p w = max_map (ps @ [p]) w" for w
    by (cases "ids_for ps w = {}")
      (auto simp: max_pair_def max_map_def ids_for_snoc id_of_def maxInt_max max_zero_word max.commute)
  with snoc show ?case by (simp add: fun_eq_iff [where f = "max_pair _ _"])
qed

lemma id_reducer_max: "fst (id_reducer input) = max_map input"
proof -
  have "fst (foldl (\<lambda>(subSet, cnt) (key, tf).
      (subSet(key \<mapsto> maxInt (id_of subSet key) tf), if id_of subSet key = 0 then cnt + 1 else cnt)) (m, c) input) =
    foldl max_pair m input" for m and c :: nat
    by (induction input arbitrary: m c) (auto simp: max_pair_def)
  then show ?thesis by (simp add: id_reducer_def foldl_max_pair)
qed

definition doc_pairs :: "(u32 \<times> string list) list \<Rightarrow> (string \<times> u32) list" where
  "doc_pairs docs = concat (map (\<lambda>(d, ws). map (\<lambda>w. (w, d)) ws) docs)"

lemma worker_docs_max: "worker_docs docs = (max_map (doc_pairs docs), length (doc_pairs docs))"
proof -
  have doc: "worker_doc (d, ws) (m, c) = (foldl max_pair m (map (\<lambda>w. (w, d)) ws), c + length ws)" for d ws m c
    unfolding worker_doc_def fst_conv snd_conv Let_def
    by (induction ws arbitrary: m c) (auto simp: max_pair_def)
  have "foldl (\<lambda>st doc. worker_doc doc st) (m, c) docs =
      (foldl max_pair m (doc_pairs docs), c + length (doc_pairs docs))" for m c
    by (induction docs arbitrary: m c) (auto simp: doc doc_pairs_def)
  then show ?thesis by (simp add: worker_docs_def foldl_max_pair)
qed

lemma max_of_maxima:
  assumes "\<forall>A \<in> F. finite A \<and> A \<noteq> {}" and "finite F" and "F \<noteq> {}"
  shows "Max (Max ` F) = Max (\<Union> F :: 'a :: linorder set)"
proof (rule Max_eqI [symmetric])
  show "finite (\<Union> F)" using assms by blast
  show "x \<le> Max (Max ` F)" if "x \<in> \<Union> F" for x
  proof -
    from that obtain A where "A \<in> F" "x \<in> A" by blast
    then have "x \<le> Max A" "Max A \<in> Max ` F" using assms(1) by auto
    then show ?thesis using assms(2) by (meson Max_ge finite_imageI order_trans)
  qed
  have "Max (Max ` F) \<in> Max ` F" using assms by (intro Max_in) auto
  then obtain A where "A \<in> F" "Max (Max ` F) = Max A" by blast
  then show "Max (Max ` F) \<in> \<Union> F" using assms(1) Max_in by auto
qed

section \<open>Properties\<close>



text \<open>The wait group of the calculator never reaches zero: when all goroutines have ended it still counts
  the reducers.\<close>

theorem inverted_index_never_done:
  fixes n r :: nat
  defines "s \<equiv> fold go_stmt (ii_initMappers n @ ii_initShufflers r @ ii_initReducers r) newService"
  shows "sv_wg s = n + 2 * r \<and>
    (\<exists>t. leave_n (ii_dones (sv_launched s)) s = Inr t \<and> sv_wg t = r \<and> (stop_returns t \<longleftrightarrow> r = 0))"
proof -
  have l: "sv_launched s = replicate n Mapper @ replicate r Shuffler @ replicate r Reducer"
    unfolding s_def go_stmts
    by (simp add: newService_def ii_initMappers_def ii_initShufflers_def ii_initReducers_def)
  have w: "sv_wg s = n + 2 * r"
    unfolding s_def go_stmts
    by (simp add: newService_def ii_initMappers_def ii_initShufflers_def ii_initReducers_def sum_list_replicate)
  have "ii_dones (sv_launched s) = n + r" by (simp add: l ii_dones_def)
  with w show ?thesis by (simp add: leave_n_wg stop_returns_def)
qed

end
