(* ===== verification/Countdown.thy ===== *)
theory Countdown
  imports WorkerPool
begin

text \<open>
  How the map-reduce pools of \<open>tf_calc.go\<close> and \<open>inverted_index.go\<close> notice that they are done.
  Every goroutine is launched after a token was put on a buffered channel (\<open>initShufflers\<close>,
  \<open>initMappers\<close>); one that has no more work takes a token, looks at the length of the channel, and
  closes the quit channel of the next stage if it is zero, under a \<open>sync.Once\<close> in \<open>tf_calc.go\<close>
  (\<open>once\<close>), without in \<open>inverted_index.go\<close>.
\<close>

section \<open>The protocol\<close>

text \<open>Goroutines still to be launched, working, about to test the length, about to close; the tokens
  on the channel, whether the quit channel of the next stage is closed, and a panic.\<close>

record countdown =
  cd_launch :: nat
  cd_work :: nat
  cd_test :: nat
  cd_close :: nat
  cd_tokens :: nat
  cd_closed :: bool
  cd_panic :: "panic option"

definition countdown_init :: "nat \<Rightarrow> nat \<Rightarrow> countdown" where
  "countdown_init toLaunch working =
     \<lparr>cd_launch = toLaunch, cd_work = working, cd_test = 0, cd_close = 0, cd_tokens = working,
      cd_closed = False, cd_panic = None\<rparr>"

inductive countdown_step :: "bool \<Rightarrow> countdown \<Rightarrow> countdown \<Rightarrow> bool" for once where
  launch: "cd_panic s = None \<Longrightarrow> 0 < cd_launch s \<Longrightarrow>
    countdown_step once s (s\<lparr>cd_launch := cd_launch s - 1, cd_tokens := cd_tokens s + 1, cd_work := cd_work s + 1\<rparr>)"
| take_token: "cd_panic s = None \<Longrightarrow> 0 < cd_work s \<Longrightarrow> 0 < cd_tokens s \<Longrightarrow>
    countdown_step once s (s\<lparr>cd_work := cd_work s - 1, cd_tokens := cd_tokens s - 1, cd_test := cd_test s + 1\<rparr>)"
| tokens_left: "cd_panic s = None \<Longrightarrow> 0 < cd_test s \<Longrightarrow> 0 < cd_tokens s \<Longrightarrow>
    countdown_step once s (s\<lparr>cd_test := cd_test s - 1\<rparr>)"
| none_left: "cd_panic s = None \<Longrightarrow> 0 < cd_test s \<Longrightarrow> cd_tokens s = 0 \<Longrightarrow>
    countdown_step once s (s\<lparr>cd_test := cd_test s - 1, cd_close := cd_close s + 1\<rparr>)"
| close_quit: "cd_panic s = None \<Longrightarrow> 0 < cd_close s \<Longrightarrow> close_out once (cd_closed s) = Inr c \<Longrightarrow>
    countdown_step once s (s\<lparr>cd_close := cd_close s - 1, cd_closed := c\<rparr>)"
| close_again: "cd_panic s = None \<Longrightarrow> 0 < cd_close s \<Longrightarrow> close_out once (cd_closed s) = Inl p \<Longrightarrow>
    countdown_step once s (s\<lparr>cd_panic := Some p\<rparr>)"

code_pred (modes: i \<Rightarrow> i \<Rightarrow> o \<Rightarrow> bool) countdown_step .

inductive_cases countdown_stepE: "countdown_step once s t"

text \<open>A panic ends the process.\<close>

lemma countdown_panic_final: "cd_panic s \<noteq> None \<Longrightarrow> \<not> countdown_step once s t"
  by (auto elim: countdown_stepE)

abbreviation countdown_steps :: "bool \<Rightarrow> countdown \<Rightarrow> countdown \<Rightarrow> bool" where
  "countdown_steps once \<equiv> (countdown_step once)\<^sup>*\<^sup>*"

section \<open>Invariants\<close>

text \<open>Every run ends: a launch is worth five steps, a working goroutine three.\<close>

definition countdown_measure :: "countdown \<Rightarrow> nat" where
  "countdown_measure s =
     (if cd_panic s = None then 1 + 5 * cd_launch s + 4 * cd_work s + 3 * cd_test s + 2 * cd_close s else 0)"

lemma countdown_decreases: "countdown_step once s t \<Longrightarrow> countdown_measure t < countdown_measure s"
  by (induction rule: countdown_step.induct) (auto simp: countdown_measure_def)

lemma countdown_wf: "wf {(t, s). countdown_step once s t}"
  by (rule wf_subset [OF wf_measure [of countdown_measure]]) (auto simp: countdown_decreases)

text \<open>The tokens count the working goroutines, and as long as nobody saw them run out somebody is
  still on the way.\<close>

definition countdown_inv :: "bool \<Rightarrow> nat \<Rightarrow> countdown \<Rightarrow> bool" where
  "countdown_inv once n s \<longleftrightarrow>
     cd_tokens s = cd_work s \<and> (once \<longrightarrow> cd_panic s = None) \<and>
     cd_launch s + cd_work s + cd_test s + cd_close s \<le> n \<and>
     (cd_panic s = None \<longrightarrow> 0 < n \<longrightarrow> cd_closed s \<or> 0 < cd_launch s + cd_work s + cd_test s + cd_close s)"

lemma countdown_inv_init: "countdown_inv once (k + n) (countdown_init k n)"
  by (auto simp: countdown_inv_def countdown_init_def)

lemma close_out_closed: "close_out once b = Inr c \<Longrightarrow> c"
  by (cases once; cases b) simp_all

lemma close_out_once: "close_out True b = Inl p \<Longrightarrow> False"
  by simp

lemma countdown_inv_step: "countdown_step once s t \<Longrightarrow> countdown_inv once n s \<Longrightarrow> countdown_inv once n t"
  by (induction rule: countdown_step.induct)
    (auto simp: countdown_inv_def dest: close_out_closed close_out_once)

lemma countdown_inv_steps: "countdown_steps once s t \<Longrightarrow> countdown_inv once n s \<Longrightarrow> countdown_inv once n t"
  by (induction rule: rtranclp_induct) (auto intro: countdown_inv_step)

text \<open>When all are launched before the first is done, nobody closes while another still works.\<close>

definition countdown_late :: "countdown \<Rightarrow> bool" where
  "countdown_late s \<longleftrightarrow> cd_launch s = 0 \<and> cd_tokens s = cd_work s \<and> (0 < cd_close s \<or> cd_closed s \<longrightarrow> cd_work s = 0)"

lemma countdown_late_step: "countdown_step once s t \<Longrightarrow> countdown_late s \<Longrightarrow> countdown_late t"
  by (induction rule: countdown_step.induct) (auto simp: countdown_late_def)

lemma countdown_late_steps: "countdown_steps once s t \<Longrightarrow> countdown_late s \<Longrightarrow> countdown_late t"
  by (induction rule: rtranclp_induct) (auto intro: countdown_late_step)

lemma countdown_late_init [simp]: "countdown_late (countdown_init 0 n)"
  by (simp add: countdown_late_def countdown_init_def)

text \<open>A single goroutine closes at most once.\<close>

definition countdown_one :: "countdown \<Rightarrow> bool" where
  "countdown_one s \<longleftrightarrow> cd_panic s = None \<and>
     cd_launch s + cd_work s + cd_test s + cd_close s + (if cd_closed s then 1 else 0) \<le> 1"

lemma countdown_one_step: "countdown_step once s t \<Longrightarrow> countdown_one s \<Longrightarrow> countdown_one t"
proof (induction rule: countdown_step.induct)
  case (close_again s p)
  then have "\<not> cd_closed s" by (auto simp: countdown_one_def)
  with close_again show ?case by simp
qed (auto simp: countdown_one_def)

lemma countdown_one_steps:
  "countdown_steps once s t \<Longrightarrow> countdown_one s \<Longrightarrow> countdown_one t"
  by (induction rule: rtranclp_induct) (auto intro: countdown_one_step)

text \<open>Whoever cannot go on has closed the channel or panicked.\<close>

lemma countdown_stuck:
  assumes "countdown_inv once n s" and "0 < n" and "\<nexists>t. countdown_step once s t"
  shows "cd_panic s \<noteq> None \<or>
    cd_closed s \<and> cd_launch s = 0 \<and> cd_work s = 0 \<and> cd_test s = 0 \<and> cd_close s = 0"
proof (cases "cd_panic s")
  case None
  have "cd_launch s = 0" using assms(3) countdown_step.launch [OF None] by blast
  moreover have "cd_work s = 0"
    using assms(1,3) countdown_step.take_token [OF None] by (auto simp: countdown_inv_def)
  moreover have "cd_test s = 0"
    using assms(3) countdown_step.tokens_left [OF None] countdown_step.none_left [OF None] by (meson neq0_conv)
  moreover have "cd_close s = 0"
    using assms(3) countdown_step.close_quit [OF None] countdown_step.close_again [OF None]
    by (metis neq0_conv sumE)
  ultimately show ?thesis using assms(1,2) None by (simp add: countdown_inv_def)
qed simp

lemma countdown_ends: "\<exists>t. countdown_steps once s t \<and> (\<nexists>u. countdown_step once t u)"
  by (rule wf_steps_end [OF countdown_wf])

section \<open>Runs\<close>

text \<open>Two of the goroutines take the last tokens before either looks.\<close>

lemma countdown_all_take:
  "countdown_steps once (countdown_init 0 (k + n))
     (countdown_init 0 n\<lparr>cd_test := k\<rparr>)"
proof (induction k arbitrary: n)
  case 0
  have "countdown_init 0 n\<lparr>cd_test := 0\<rparr> = countdown_init 0 n" by (simp add: countdown_init_def)
  then show ?case by simp
next
  case (Suc k)
  have "countdown_steps once (countdown_init 0 (Suc k + n)) (countdown_init 0 (Suc n)\<lparr>cd_test := k\<rparr>)"
    using Suc [of "Suc n"] by simp
  also have "countdown_step once (countdown_init 0 (Suc n)\<lparr>cd_test := k\<rparr>) (countdown_init 0 n\<lparr>cd_test := Suc k\<rparr>)"
    using countdown_step.take_token [of "countdown_init 0 (Suc n)\<lparr>cd_test := k\<rparr>" once]
    by (simp add: countdown_init_def)
  finally show ?case .
qed

lemma countdown_double_close:
  "\<exists>s. countdown_steps False (countdown_init 0 (Suc (Suc n))) s \<and> cd_panic s = Some CloseOfClosedChannel"
proof -
  let ?i = "countdown_init 0 0"
  have "countdown_steps False (countdown_init 0 (Suc (Suc n))) (?i\<lparr>cd_test := Suc (Suc n)\<rparr>)"
    using countdown_all_take [of False "Suc (Suc n)" 0] by simp
  also have "countdown_step False \<dots> (?i\<lparr>cd_test := Suc n, cd_close := 1\<rparr>)"
    using countdown_step.none_left [of "?i\<lparr>cd_test := Suc (Suc n)\<rparr>" False] by (simp add: countdown_init_def)
  also have "countdown_step False \<dots> (?i\<lparr>cd_test := n, cd_close := 2\<rparr>)"
    using countdown_step.none_left [of "?i\<lparr>cd_test := Suc n, cd_close := 1\<rparr>" False]
    by (simp add: countdown_init_def numeral_2_eq_2)
  also have "countdown_step False \<dots> (?i\<lparr>cd_test := n, cd_close := 1, cd_closed := True\<rparr>)"
    using countdown_step.close_quit [of "?i\<lparr>cd_test := n, cd_close := 2\<rparr>" False True]
    by (simp add: countdown_init_def)
  also have "countdown_step False \<dots>
      (?i\<lparr>cd_test := n, cd_close := 1, cd_closed := True, cd_panic := Some CloseOfClosedChannel\<rparr>)"
    using countdown_step.close_again [of "?i\<lparr>cd_test := n, cd_close := 1, cd_closed := True\<rparr>" False CloseOfClosedChannel]
    by (simp add: countdown_init_def)
  finally show ?thesis
    by (intro exI [of _ "?i\<lparr>cd_test := n, cd_close := 1, cd_closed := True, cd_panic := Some CloseOfClosedChannel\<rparr>"])
      simp
qed

text \<open>The first goroutine is done before the second is launched.\<close>

lemma countdown_early_close:
  "\<exists>s. countdown_steps once (countdown_init (Suc (Suc n)) 0) s \<and> cd_closed s \<and> cd_work s = Suc n \<and> cd_panic s = None"
proof -
  let ?i = "countdown_init (Suc n) 0"
  let ?c = "?i\<lparr>cd_closed := True\<rparr>"
  have "countdown_steps once (countdown_init (Suc (Suc n)) 0) (countdown_init (Suc n) 1)"
    using countdown_step.launch [of "countdown_init (Suc (Suc n)) 0" once]
    by (intro r_into_rtranclp) (simp add: countdown_init_def)
  also have "countdown_step once \<dots> (?i\<lparr>cd_test := 1\<rparr>)"
    using countdown_step.take_token [of "countdown_init (Suc n) 1" once] by (simp add: countdown_init_def)
  also have "countdown_step once \<dots> (?i\<lparr>cd_close := 1\<rparr>)"
    using countdown_step.none_left [of "?i\<lparr>cd_test := 1\<rparr>" once] by (simp add: countdown_init_def)
  also have "countdown_step once \<dots> ?c"
    using countdown_step.close_quit [of "?i\<lparr>cd_close := 1\<rparr>" once True] by (simp add: countdown_init_def)
  finally have c: "countdown_steps once (countdown_init (Suc (Suc n)) 0) ?c" .
  have "countdown_steps once (countdown_init m k\<lparr>cd_closed := True\<rparr>)
      (countdown_init 0 (k + m)\<lparr>cd_closed := True\<rparr>)" for m k
  proof (induction m arbitrary: k)
    case 0
    show ?case by simp
  next
    case (Suc m)
    have "countdown_step once (countdown_init (Suc m) k\<lparr>cd_closed := True\<rparr>)
        (countdown_init m (Suc k)\<lparr>cd_closed := True\<rparr>)"
      using countdown_step.launch [of "countdown_init (Suc m) k\<lparr>cd_closed := True\<rparr>" once]
      by (simp add: countdown_init_def)
    with Suc [of "Suc k"] show ?case by (simp add: converse_rtranclp_into_rtranclp)
  qed
  from rtranclp_trans [OF c this [of "Suc n" 0]] show ?thesis
    by (intro exI [of _ "countdown_init 0 (Suc n)\<lparr>cd_closed := True\<rparr>"]) (simp add: countdown_init_def)
qed

section \<open>Properties\<close>

text \<open>The guarded countdown of the term frequency calculator.  Whatever the interleaving, also of the
  launches, nothing panics and every run is finite; one that cannot go on has told the reducers to
  quit and every shuffler has left.  If all shufflers are launched before the first is done, the
  reducers are told only after the last shuffler stopped working; but a shuffler that is done before
  the others are launched tells them before those have left.  In the calculator this loses nothing, since
  a shuffler is done only when the counts are closed and drained: \<open>TermNetwork\<close> has the protocol with the
  data it protects.\<close>

theorem guarded_countdown:
  assumes "0 < n"
  shows "(\<forall>s. countdown_steps True (countdown_init n 0) s \<longrightarrow> cd_panic s = None \<and>
       ((\<nexists>t. countdown_step True s t) \<longrightarrow> cd_closed s \<and> cd_launch s = 0 \<and> cd_work s = 0) \<and>
       (\<exists>t. countdown_steps True s t \<and> (\<nexists>u. countdown_step True t u))) \<and>
    wf {(t, s). countdown_step True s t} \<and>
    (\<forall>s. countdown_steps True (countdown_init 0 n) s \<and> cd_closed s \<longrightarrow> cd_work s = 0) \<and>
    (1 < n \<longrightarrow> (\<exists>s. countdown_steps True (countdown_init n 0) s \<and> cd_closed s \<and> 0 < cd_work s))"
proof (intro conjI allI impI)
  fix s
  assume r: "countdown_steps True (countdown_init n 0) s"
  have inv: "countdown_inv True n s"
    using countdown_inv_steps [OF r] countdown_inv_init [of True n 0] by simp
  then show "cd_panic s = None" by (simp add: countdown_inv_def)
  then show "cd_closed s" "cd_launch s = 0" "cd_work s = 0" if "\<nexists>t. countdown_step True s t"
    using countdown_stuck [OF inv assms that] by auto
  show "\<exists>t. countdown_steps True s t \<and> (\<nexists>u. countdown_step True t u)" by (rule countdown_ends)
next
  show "wf {(t, s). countdown_step True s t}" by (rule countdown_wf)
  show "cd_work s = 0" if "countdown_steps True (countdown_init 0 n) s \<and> cd_closed s" for s
    using that countdown_late_steps [of True "countdown_init 0 n" s] countdown_late_init
    unfolding countdown_late_def by blast
  assume "1 < n"
  then obtain m where "n = Suc (Suc m)" by (metis One_nat_def less_imp_Suc_add add_Suc)
  then show "\<exists>s. countdown_steps True (countdown_init n 0) s \<and> cd_closed s \<and> 0 < cd_work s"
    using countdown_early_close [of True m] by auto
qed

theorem guarded_countdown_witness:
  "(\<exists>t. countdown_steps True (countdown_init 26 0) t \<and> cd_closed t \<and> cd_work t = 0 \<and> cd_panic t = None) \<and>
   (\<exists>s. countdown_steps True (countdown_init 26 0) s \<and> cd_closed s \<and> 0 < cd_work s)"
proof -
  have n: "0 < (26 :: nat)" "1 < (26 :: nat)" by simp_all
  note g = guarded_countdown [OF n(1)]
  then obtain t where "countdown_steps True (countdown_init 26 0) t" "\<nexists>u. countdown_step True t u" by blast
  with g n(2) show ?thesis by blast
qed

text \<open>The unguarded countdown of the inverted index calculator: with one goroutine it never panics,
  and with two or more there is a run, even after all of them were launched, in which two see the
  channel empty and the second closes a closed channel.\<close>

theorem unguarded_countdown:
  "(\<forall>s. countdown_steps False (countdown_init 1 0) s \<longrightarrow> cd_panic s = None) \<and>
   (\<exists>s. countdown_steps False (countdown_init 0 (Suc (Suc n))) s \<and> cd_panic s = Some CloseOfClosedChannel \<and>
      (\<nexists>t. countdown_step False s t))"
proof (intro conjI allI impI)
  show "cd_panic s = None" if "countdown_steps False (countdown_init 1 0) s" for s
    using countdown_one_steps [OF that] by (auto simp: countdown_one_def countdown_init_def)
  show "\<exists>s. countdown_steps False (countdown_init 0 (Suc (Suc n))) s \<and> cd_panic s = Some CloseOfClosedChannel \<and>
      (\<nexists>t. countdown_step False s t)"
    using countdown_double_close [of n] countdown_panic_final by (metis option.distinct(1))
qed

theorem unguarded_countdown_witness:
  "countdown_steps False (countdown_init 1 0) (countdown_init 0 1) \<and> cd_panic (countdown_init 0 1) = None \<and>
   (\<exists>s. countdown_steps False (countdown_init 0 2) s \<and> cd_panic s = Some CloseOfClosedChannel)"
proof -
  have "countdown_step False (countdown_init 1 0) (countdown_init 0 1)"
    using countdown_step.launch [of "countdown_init 1 0" False] by (simp add: countdown_init_def)
  then have s: "countdown_steps False (countdown_init 1 0) (countdown_init 0 1)" by blast
  note u = unguarded_countdown [of 0, folded numeral_2_eq_2]
  show ?thesis using s u by blast
qed

end
