(* ===== verification/Spec2Isabelle.thy ===== *)
theory Spec2Isabelle
  imports SharedStore FirstRun TSetNetwork XSetNetwork SearchServer ClientDaemon Startup Indexer InvertedIndex DocEncrypter TermFreq Countdown Service
begin

text \<open>
  DuckDuckXor: searchable encryption over two programs.  The client proxy (src/client_proxy) indexes
  a directory and uploads encrypted documents, an encrypted inverted index (the t-set) and a
  Bloom filter of cross tags (the x-set); the search server (src/server) stores them in bolt and
  answers queries; src/crypto holds the cell derivation both sides share.  This development models
  the state and the operations of all of them and proves what they compute, where they panic and
  where they never return.

  Conventions.  A Go panic is a value: \<open>'a go\<close> is \<open>panic + 'a\<close>, sequenced by \<open>gbind\<close>.  An error the
  code returns is a value of its own type (\<open>bolt_error\<close>, \<open>km_error\<close>) or an \<open>option\<close>.  Integers keep
  their width as words where the code's can wrap (document IDs, counters of \<open>uint32\<close>, Bloom filter
  sizes); Go's \<open>int\<close> is a natural number where it only counts elements held in memory.  Iteration
  over a Go map or set has no fixed order: the order is an argument, tied to the map by \<open>ranges\<close> and
  \<open>ranges_set\<close>.  A goroutine that works off a channel is a function of the sequence of values it
  receives; what several goroutines do to shared state is a step relation.

  Theories, in the order of their imports.

  Prelude: bytes, byte orders, panics, wait groups, one-shot channels, queue draining.
  Utf8: runes and the functions of package strings that the tokenizer calls.
  Sha512, GoHash: crypto/sha512 (executable) and the hash.Hash contract; the locale
    \<open>hash_stream\<close> is interpreted on the CMAC object and on the SHA-512 object of the model.
  Keys, KeyManager (key_manager.go): key types; derivation of the child keys (\<open>derive_loop\<close>, total
    by the measure of keys still to derive), storage, loading, the request handler.
  TSet (crypto/tset.go): \<open>CalcTsetVals\<close>, \<open>XorBytes\<close>, \<open>PermuteDocId\<close>.
  WordCounter, TSetIndex, XSetIndex (encrypted_index.go): the mutex-protected counter with its
    contract; \<open>tSetWorker\<close> and \<open>tSetJanitor\<close> with their four PRF objects; \<open>xSetWorker\<close> and the
    protocol that closes the tag channel (\<open>xclose_step\<close>).
  Service (Start and Stop of every component, error_handler.go): the locales \<open>managed_service\<close> and
    \<open>shared_counter_service\<close>, each interpreted on the components that follow it.
  WorkerPool, Countdown: the two shut-down protocols of the worker pools, as step relations.
  Fanout, Pipeline: goroutines that copy a stream to several bounded channels, in general (the locales
    \<open>fan_out\<close>, \<open>fan_each\<close>, \<open>stalls\<close>) and for the preprocessor and the splitter, whatever the pace
    of the consumers.
  TermNetwork, CountingRun, FirstRun: the mappers, shufflers and reducers of the term frequency
    calculator in every interleaving; the same behind the preprocessor's bounded channel; and how the
    first run of the program ends because of it.
  TSetNetwork, XSetNetwork: the two halves of the index generator in every interleaving, from the
    splitter's channel to the last fragment sent and to the uploaded filter.
  Bolt: the interface of the database with its documented laws; the locales \<open>kv_store\<close> (a bucket
    as a map) and \<open>write_behind\<close> (a store behind a queue).
  BloomMaster (bloom_master.go): messages, handlers, workers, queries, saving and loading.
  TermFreq (tf_calc.go), InvertedIndex (inverted_index.go): the two map-reduce computations.
  Corpus (corpus_reader.go, doc_preprocesser.go), DocEncrypter (doc_encrypter.go): from the
    directory walk to the upload of the ciphertexts.
  Indexer (index.go): the keyword summer and the accounting of the main wait group.
  DocDatabase (doc_db.go), IndexSearcher (encrypted_searcher.go), SearchServer (server.go): the
    server's document store, encrypted index and RPC handlers.
  SharedStore: the transactions of both server components on their one database (the locale
    \<open>framed_store\<close>).
  ClientDaemon (client.go): query tags, the search and fetch loops, decryption.
  Startup (main in client.go, the construction part of index.go, ddx/cli.go): how the client proxy
    comes to serve, and the command line client.
  This theory: the properties that chain components: from a directory to the document store, from
  a corpus to the complete x-set, from the counted postings to the cell a query addresses.

  What the lemmas show.  Each component has a section of lemmas that give its operations in closed
  form (what a worker sends, what a store holds, what a handler leaves behind), and a section of
  properties on top of them: functional results on every branch, invariants of reachable states by
  rule induction, equivalence of the distributed computations with a sequential one whatever the
  order of arrivals, refinement of the document store to a finite map, round trips of saving and
  loading, termination of the derivation and of the closing protocols, and the panics, blocked
  goroutines and lost errors that the code has.  The network theories follow one scheme: a state
  with all goroutines and channels, a step relation with one rule per thing a goroutine can do next, a
  measure that every step decreases (so every run ends), an invariant that accounts for every item
  under way, and the theorem that a state without a next step has either panicked, which the theorem
  says when it cannot happen, or delivered everything.

  Bounds and loops.  Loops over received data are structural recursions.  \<open>derive_loop\<close>, the UTF-8
  reader and the hash tree have measures.  The loops that need not end (\<open>UploadTSet\<close>, the fetch loop of a
  search, \<open>gatherDocumentNames\<close>, the receive loop of the command line client) are
  \<open>partial_function (option)\<close> over an infinite stream of events, so that not returning is \<open>None\<close> and
  is proved as such; no definition uses fuel.  Hypotheses of the form \<open>n < 2 ^ 32\<close> keep document
  IDs, atomic counters and announced sizes from wrapping; lengths below 2^31 are bolt's limits on
  keys and values.

  Sharing.  The document store and the index live in one bolt file and use different root buckets;
  each component of the model holds its own view of the file, which SharedStore justifies: a
  transaction of one component leaves what the other can see unchanged.

  Parameters.  Code outside the repository enters as an argument with its documented laws: bolt
  (\<open>bolt_ops\<close>, \<open>bolt_doc\<close>), AES-CMAC (\<open>prf_lib\<close>, \<open>cmac_doc\<close>), the curve P-224 (\<open>curve\<close>), snacl
  (\<open>snacl\<close>, \<open>snacl_doc\<close>), secretbox (\<open>crypto_lib\<close>, \<open>crypto_doc\<close>), the Bloom filters (\<open>bloom_lib\<close>,
  \<open>bloom_doc\<close>), and the Unicode tables (\<open>unicode\<close>, \<open>unicode_doc\<close>).  Each law has a concrete
  instance that satisfies it, used by the witnesses.

  Not modelled: the gRPC transport, TLS, listeners and flag parsing (I/O around the handlers); the
  methods generated by protoc in src/protos; logging.  Of the scheduler, the interleavings are
  modelled where goroutines share a channel or a counter (the network and protocol theories); the
  bloom worker handles one message at a time in the networks, and several of them at once only in
  the race of \<open>handleXSetAdd\<close>; elsewhere a goroutine without shared state is a function of what it
  receives.  The networks are runs without \<open>Stop\<close>; \<open>stalled_consumer_blocks\<close> has what a stop does to a
  blocked preprocessor.
\<close>

section \<open>Lemmas: chains of components\<close>

text \<open>Indexing words in some iteration order of their sets.\<close>

lemma ranges_set_length: "list_all2 (\<lambda>d ws. ranges_set (Words d) ws) docs wss \<Longrightarrow>
  map length wss = map (\<lambda>d. card (Words d)) docs"
  by (induction rule: list_all2_induct) (auto simp: ranges_set_def dest: distinct_card)

lemma xSetWorker_iterations:
  assumes "cmac_doc P" and "keys_wf K" and "list_all2 (\<lambda>d ws. ranges_set (Words d) ws) docs wss"
  obtains tss where "xSetWorker C P K (zip (map inv_DocId docs) wss) = Inr tss"
    and "map length tss = map (\<lambda>d. card (Words d)) docs"
proof -
  obtain tss where tss: "xSetWorker C P K (zip (map inv_DocId docs) wss) = Inr tss"
    "map length tss = map (\<lambda>d. length (snd d)) (zip (map inv_DocId docs) wss)"
    using xSetWorker_lengths [OF assms(1,2)] by blast
  have "length wss = length docs" using assms(3) by (simp add: list_all2_lengthD)
  then have s: "map snd (zip (map inv_DocId docs) wss) = wss" by simp
  have "map (\<lambda>d. length (snd d)) (zip (map inv_DocId docs) wss) =
      map length (map snd (zip (map inv_DocId docs) wss))" by (simp add: o_def)
  with s tss(2) ranges_set_length [OF assms(3)] have "map length tss = map (\<lambda>d. card (Words d)) docs" by simp
  with tss(1) show thesis by (rule that)
qed

lemma xset_announced:
  "\<exists>b0. bloomWorker L [XSetSizeInit n] newBloomMaster = Inr b0 \<and> WaitForXSetInit b0"
  by (simp add: handleXSetInit_def newBloomMaster_def WaitForXSetInit_def)

lemma distinct_doc_ids:
  assumes "n < 2 ^ 32"
  shows "distinct (map (\<lambda>i. of_nat (i + 1) :: u32) [0..<n])"
proof -
  have "inj_on (\<lambda>i. of_nat (i + 1) :: u32) {0..<n}"
    using assms by (auto intro!: inj_onI simp: word_of_nat_eq_iff take_bit_nat_eq_self simp del: of_nat_add of_nat_Suc)
  then show ?thesis by (simp add: distinct_map)
qed

section \<open>Properties\<close>

text \<open>C2: The x-set of a corpus completes.  Take the documents of any preprocessed corpus, none of
  them without words, fewer than 2^32 words in all: the summer announces a size, the x-set worker
  computes a tag per word, the announcement makes the bloom manager ready, and when the bloom
  streamer hands over the tag lists, in whatever order they arrive, the bloom worker signals the
  completion, every tag tests positive in the filter, and the uploader sends the encoding of that
  filter.\<close>

theorem corpus_xset_completes:
  fixes U :: unicode and ds :: "document list"
  defines "es \<equiv> partitionStreams U ds"
  assumes "cmac_doc P" and "keys_wf K" and "bloom_doc L" and "ds \<noteq> []"
    and "list_all2 (\<lambda>d ws. ranges_set (Words d) ws) (inv_outs es) wss"
    and "\<forall>d \<in> set (inv_outs es). Words d \<noteq> {}" and "sum_list (map (\<lambda>d. card (Words d)) (inv_outs es)) < 2 ^ 32"
  shows "\<exists>tss n b0. xSetWorker C P K (zip (map inv_DocId (inv_outs es)) wss) = Inr tss \<and>
    totalKeyWordSummer (kw_outs es) [] (Suc m) = Inr ([XSetSizeInit n], m) \<and>
    bloomWorker L [XSetSizeInit n] newBloomMaster = Inr b0 \<and>
    (\<forall>uss. mset uss = mset tss \<longrightarrow>
       (\<exists>msgs b f. bloomStreamer b0 0 uss [] = Some msgs \<and> bloomWorker L msgs b0 = Inr b \<and>
          bm_xFilterFinished b \<and> bm_xSetFilter b = Some f \<and> (\<forall>ts \<in> set tss. \<forall>t \<in> set ts. bf_test L f t) \<and>
          (\<forall>enc. GobEncode L f = Some enc \<longrightarrow> xFilterUploader L (\<lambda>_. True) b = Inr (enc, 0))))"
proof -
  let ?docs = "inv_outs es" and ?n = "sum_list (map (\<lambda>d. card (Words d)) (inv_outs es))"
  obtain tss where tss: "xSetWorker C P K (zip (map inv_DocId ?docs) wss) = Inr tss"
    "map length tss = map (\<lambda>d. card (Words d)) ?docs"
    using xSetWorker_iterations [OF assms(2,3,6)] by blast
  have eq: "kw_outs es = ?docs" "?docs \<noteq> []" by (simp_all add: es_def partitionStreams_outs assms(5))
  have sum: "totalKeyWordSummer (kw_outs es) [] (Suc m) = Inr ([XSetSizeInit (of_nat ?n)], m)"
    by (simp add: totalKeyWordSummer_def eq summer_count InitXSet_def queue_msg_def)
  have fin: "\<forall>d \<in> set ?docs. finite (Words d)" by (auto simp: es_def partitionStreams_outs inv_doc_def)
  have nonempty: "ts \<noteq> []" if "ts \<in> set tss" for ts
  proof -
    have "length ts \<in> set (map (\<lambda>d. card (Words d)) ?docs)" using that by (simp flip: tss(2))
    with assms(7) fin show ?thesis by force
  qed
  have run: "\<exists>b f. bloomWorker L (XSetSizeInit (of_nat ?n) # map XSetAdd uss) newBloomMaster = Inr b \<and>
      bm_xFilterFinished b \<and> bm_xSetFilter b = Some f \<and> (\<forall>ts \<in> set tss. \<forall>t \<in> set ts. bf_test L f t) \<and>
      (\<forall>enc. GobEncode L f = Some enc \<longrightarrow> xFilterUploader L (\<lambda>_. True) b = Inr (enc, 0))"
    if perm: "mset uss = mset tss" for uss
  proof -
    have set: "set uss = set tss" using perm by (rule mset_eq_setD)
    have len: "length (concat uss) = ?n"
      using sum_list_map_mset [OF perm, of length] by (simp add: length_concat flip: tss(2))
    have "tss \<noteq> []" using tss(2) eq(2) by auto
    then have "uss \<noteq> []" using set by auto
    moreover note xset_run [of uss ?n L]
    moreover have "\<forall>t \<in> set (concat uss).
        bf_test L (foldl (bf_add L) (NewWithEstimates L (of_nat ?n)) (concat uss)) t"
      by (intro ballI membership.mem_add_all [OF membership_lib [OF assms(4)]])
    ultimately show ?thesis using nonempty set len assms(8)
      by (simp add: xFilterUploader_def del: bloomWorker.simps)
  qed
  obtain b0 where b0: "bloomWorker L [XSetSizeInit (of_nat ?n)] newBloomMaster = Inr b0" "WaitForXSetInit b0"
    using xset_announced by blast
  have step: "bloomWorker L (XSetSizeInit (of_nat ?n) # map XSetAdd uss) newBloomMaster =
      bloomWorker L (map XSetAdd uss) b0" for uss
    using bloomWorker_append [of L "[XSetSizeInit (of_nat ?n)]" "map XSetAdd uss" newBloomMaster] b0(1) by simp
  have "\<exists>msgs b f. bloomStreamer b0 0 uss [] = Some msgs \<and> bloomWorker L msgs b0 = Inr b \<and>
      bm_xFilterFinished b \<and> bm_xSetFilter b = Some f \<and> (\<forall>ts \<in> set tss. \<forall>t \<in> set ts. bf_test L f t) \<and>
      (\<forall>enc. GobEncode L f = Some enc \<longrightarrow> xFilterUploader L (\<lambda>_. True) b = Inr (enc, 0))"
    if "mset uss = mset tss" for uss
    using run [OF that] unfolding step bloomStreamer_running [OF b0(2)] append_Nil by blast
  with tss(1) sum b0(1) show ?thesis by blast
qed

theorem corpus_xset_completes_witness:
  "\<exists>tss n b0. xSetWorker demo_curve demo_prf demo_keys [(1, [''a'', ''b''])] = Inr tss \<and>
     bloomWorker demo_bloom [XSetSizeInit n] newBloomMaster = Inr b0 \<and>
     (\<exists>msgs b. bloomStreamer b0 0 tss [] = Some msgs \<and> bloomWorker demo_bloom msgs b0 = Inr b \<and> bm_xFilterFinished b)"
proof -
  let ?ds = "[\<lparr>doc_file = Some ([97, 32, 98], 0), doc_id = 1\<rparr>]"
  have inv: "inv_outs (partitionStreams demo_unicode ?ds) = [\<lparr>Words = {''a'', ''b''}, inv_DocId = 1\<rparr>]"
    by (simp add: partitionStreams_outs inv_doc_def doc_tokens_def ParseTokens_def FieldsFunc_def ToLower_def text_of_def runes_def segments_utf8 DecodeRune_def
        rune_string_def EncodeRune_def encode_valid_def valid_rune_def
        demo_unicode_def Let_def insert_commute char_of_def bit_0 del: partitionStreams.simps)
  have l: "list_all2 (\<lambda>d ws. ranges_set (Words d) ws) (inv_outs (partitionStreams demo_unicode ?ds)) [[''a'', ''b'']]"
    unfolding inv by (simp add: ranges_set_def)
  from corpus_xset_completes [OF cmac_doc_demo keys_wf_demo bloom_doc_demo _ l, of demo_curve 0]
  show ?thesis unfolding inv by fastforce
qed

text \<open>C3: From a directory to the server's document store.  The files of a corpus, all readable and
  fewer than 2^32, are read, numbered, preprocessed, encrypted by one encrypter, uploaded over an
  open stream and written by the drained write handler: the server then holds under the number of
  every file a ciphertext that decrypts to the file without its first byte.  Fetching it
  nevertheless returns an empty document.\<close>

theorem corpus_documents_stored:
  fixes e :: "('s, 'f) encryptedSearchServer" and B :: "'s bolt_ops"
  defines "drained \<equiv> \<lambda>d :: 's documentDatabase. (writeHandler_step B ^^ length (writeRequests d)) d"
  assumes "crypto_doc C" and "\<forall>r m. ck_encrypt C docKey r m \<noteq> None"
    and "bolt_doc B" and "bolt_commits B" and "docs_ok B (docStore (srv_docs e))" and "writeRequests (srv_docs e) = []"
    and "length paths < 2 ^ 32" and "\<forall>p \<in> set paths. \<exists>c. openFile p = Some c \<and> length c < 2147483600"
  shows "\<exists>encs evs e'.
    docEncrypter C docKey r (enc_outs (partitionStreams U (fst (DocumentReader openFile 0 paths)))) =
      map EncSend encs @ [EncClose] \<and>
    docUploader True sendOk encs = Inr evs \<and>
    UploadCipherDocs (stream_of (up_sent evs) StreamEOF) 0 e = Some (RpcAck, e') \<and>
    (\<forall>i < length paths. \<exists>c.
       stored_doc B (docStore (drained (srv_docs e'))) (of_nat (i + 1)) = Some c \<and>
       ck_decrypt C docKey c = Some (drop 1 (the (openFile (paths ! i)))) \<and>
       RetrieveDoc B (of_nat (i + 1)) (drained (srv_docs e')) =
         (Some \<lparr>DocId = of_nat (i + 1), EncryptedDoc = []\<rparr>, None))"
proof -
  let ?n = "length paths"
  let ?cipher = "\<lambda>i. the (ck_encrypt C docKey (r + i) (drop 1 (the (openFile (paths ! i)))))"
  let ?encs = "map (\<lambda>i. \<lparr>cipherText = ?cipher i, enc_DocId = of_nat (i + 1)\<rparr>) [0..<?n]"
  let ?cds = "map (\<lambda>i. \<lparr>DocId = of_nat (i + 1), EncryptedDoc = ?cipher i\<rparr>) [0..<?n]"
  have open_ok: "\<exists>c. openFile (paths ! i) = Some c \<and> length c < 2147483600" if "i < ?n" for i
    using assms(9) that by simp
  have cipher: "ck_encrypt C docKey k m = Some (the (ck_encrypt C docKey k m))" for k m using assms(3) by simp
  have dec: "ck_decrypt C docKey (?cipher i) = Some (drop 1 (the (openFile (paths ! i))))"
    and len: "i < ?n \<Longrightarrow> length (?cipher i) \<le> 2147483646" for i
    using assms(2) cipher [of "r + i" "drop 1 (the (openFile (paths ! i)))"] open_ok [of i]
    unfolding crypto_doc_def by (blast, force)
  let ?docs = "enc_outs (partitionStreams U (fst (DocumentReader openFile 0 paths)))"
  have docs: "?docs = map (\<lambda>i. \<lparr>doc_file = Some (the (openFile (paths ! i)), length (the (openFile (paths ! i)))),
      doc_id = of_nat (i + 1)\<rparr>) [0..<?n]"
    unfolding partitionStreams_outs DocumentReader_result fst_conv map_map
    by (rule map_cong [OF refl]) (use open_ok in \<open>force simp: copy_file_def\<close>)
  have enc: "docEncrypter C docKey r ?docs = map EncSend ?encs @ [EncClose]"
    using docEncrypter_sends [of C docKey ?docs r] assms(3) unfolding docs by simp
  obtain evs where up: "docUploader True sendOk ?encs = Inr evs" "up_sent evs = ?cds"
    using docUploader_sends [of sendOk ?encs] by auto
  let ?e' = "e\<lparr>srv_docs := fold PutDoc ?cds (srv_docs e)\<rparr>"
  have srv: "UploadCipherDocs (stream_of (up_sent evs) StreamEOF) 0 e = Some (RpcAck, ?e')"
    by (simp add: UploadCipherDocs_from up(2))
  have st: "docStore (fold PutDoc ds d) = docStore d" for ds and d :: "'s documentDatabase"
    by (induction ds arbitrary: d) (simp_all add: PutDoc_def)
  let ?kvs = "map (\<lambda>d. (DocId d, EncryptedDoc d)) ?cds"
  have store: "docStore (drained (srv_docs ?e')) = kv_store.puts (doc_put B) (docStore (srv_docs e)) ?kvs"
    using drain_writes [where B = B and d = "srv_docs ?e'"] assms(4,5,7)
    by (simp add: drained_def fold_PutDoc st foldl_writes del: map_map)
  have dist: "distinct (map fst ?kvs)"
    using distinct_doc_ids [OF assms(8)] by (simp add: o_def del: of_nat_Suc)
  have found: "stored_doc B (docStore (drained (srv_docs ?e'))) (of_nat (i + 1)) = Some (?cipher i)" if "i < ?n" for i
    unfolding store
    by (rule kv_store.get_puts_distinct [OF kv_docs [OF assms(4,5)] assms(6) _ dist]) (use len that in auto)
  have "\<exists>c. stored_doc B (docStore (drained (srv_docs ?e'))) (of_nat (i + 1)) = Some c \<and>
       ck_decrypt C docKey c = Some (drop 1 (the (openFile (paths ! i)))) \<and>
       RetrieveDoc B (of_nat (i + 1)) (drained (srv_docs ?e')) =
         (Some \<lparr>DocId = of_nat (i + 1), EncryptedDoc = []\<rparr>, None)" if "i < ?n" for i
    using found [OF that] dec [of i] by (simp add: RetrieveDoc_def readHandler_read_only assms(4))
  with enc up(1) srv show ?thesis by blast
qed

theorem corpus_documents_stored_witness:
  "\<exists>encs (e' :: (mem_store, unit) encryptedSearchServer) c. docEncrypter demo_crypto [] 0
       (enc_outs (partitionStreams demo_unicode (fst (DocumentReader (\<lambda>_. Some [65, 66]) 0 [''f''])))) =
      map EncSend encs @ [EncClose] \<and>
    stored_doc mem_bolt (docStore ((writeHandler_step mem_bolt ^^ length (writeRequests (srv_docs e'))) (srv_docs e'))) 1 = Some c \<and>
    ck_decrypt demo_crypto [] c = Some [66] \<and> srv_index e' = (NewEncryptedIndexSearcher Map.empty :: (mem_store, unit) index_searcher)"
proof -
  let ?e = "newEncryptedSearchServer \<lparr>docStore = Map.empty, writeRequests = []\<rparr>
      (NewEncryptedIndexSearcher Map.empty) :: (mem_store, unit) encryptedSearchServer"
  have ok: "docs_ok mem_bolt (docStore (srv_docs ?e))" "writeRequests (srv_docs ?e) = []"
    by (simp_all add: docs_ok_def mem_bucket_def newEncryptedSearchServer_def)
  have f: "length [''f''] < 2 ^ 32" "\<forall>p \<in> set [''f'']. \<exists>c. (\<lambda>_. Some [65, 66]) p = Some c \<and> length c < 2147483600"
    by simp_all
  obtain encs evs e' where *: "docEncrypter demo_crypto [] 0
       (enc_outs (partitionStreams demo_unicode (fst (DocumentReader (\<lambda>_. Some [65, 66]) 0 [''f''])))) =
      map EncSend encs @ [EncClose]"
    and up: "UploadCipherDocs (stream_of (up_sent evs) StreamEOF) 0 ?e = Some (RpcAck, e')"
    and all: "\<forall>i < length [''f'']. \<exists>c.
       stored_doc mem_bolt (docStore ((writeHandler_step mem_bolt ^^ length (writeRequests (srv_docs e'))) (srv_docs e'))) (of_nat (i + 1)) = Some c \<and>
       ck_decrypt demo_crypto [] c = Some (drop 1 (the ((\<lambda>_. Some [65, 66]) ([''f''] ! i))))"
    using corpus_documents_stored [OF crypto_doc_demo demo_crypto_encrypts bolt_doc_mem bolt_commits_mem ok f,
        where U = demo_unicode and r = 0 and docKey = "[]" and sendOk = "\<lambda>_. True"] by blast
  have "srv_index e' = NewEncryptedIndexSearcher Map.empty"
    using up by (auto simp: UploadCipherDocs_from newEncryptedSearchServer_def)
  moreover from all obtain s where
    "stored_doc mem_bolt (docStore ((writeHandler_step mem_bolt ^^ length (writeRequests (srv_docs e'))) (srv_docs e'))) 1 = Some s"
    "ck_decrypt demo_crypto [] s = Some [66]" by auto
  ultimately show ?thesis using * by (intro exI [of _ encs] exI [of _ e'] exI [of _ s]) simp
qed



end
